(* ===== verification/Prelude.thy ===== *)
theory Prelude
  imports
    "HOL-Library.Word"
    "HOL-Library.Signed_Division"
    "HOL-Library.Monad_Syntax"
    "HOL-Library.Multiset"
begin

text \<open>
  What every theory of the development shares: the C integer types of the 32-bit ARM
  target as words, signed division, array reads that may be out of range, and the generic
  lemmas on words and on monotone iterations that the component proofs use.

  \<^item> \<open>u32\<close>/\<open>s32\<close> are the 32 bits of an \<open>unsigned long\<close>/\<open>long\<close> (\<open>unsigned int\<close>/\<open>int\<close>),
    \<open>u64\<close>/\<open>s64\<close> those of the \<open>long long\<close> types. Both names of a width are the same Isabelle
    type: signedness is in the operation (\<open><\<close> against \<open><s\<close>, \<open>div\<close> against \<open>s_div\<close>),
    as in the machine code. The kernel is compiled with \<open>-fno-strict-overflow\<close>, so signed
    arithmetic wraps.
  \<^item> A kernel operation that may crash the kernel (a NULL or poisoned pointer is followed)
    or never come back (an endless loop) has an \<open>option\<close> result and \<open>None\<close> there.
\<close>

type_synonym u32 = "32 word"
type_synonym s32 = "32 word"
type_synonym u64 = "64 word"
type_synonym s64 = "64 word"

named_theorems no_wrap \<open>word arithmetic that does not wrap, read through unat\<close>

subsection \<open>Signed division\<close>

text \<open>
  C's \<open>/\<close> and \<open>%\<close> on signed operands truncate towards zero. For a zero divisor the ARM
  division helper prints a warning and returns 0 (\<open>Ldiv0\<close> of \<open>arch/arm/lib/lib1funcs.S\<close>),
  and \<open>__aeabi_idivmod\<close> then gives the dividend as remainder; \<open>sdiv\<close> and \<open>smod\<close> on \<open>int\<close>
  take the same values.
\<close>

definition s_div :: "'a::len word \<Rightarrow> 'a word \<Rightarrow> 'a word" where
  "s_div a b = word_of_int (sint a sdiv sint b)"

definition s_mod :: "'a::len word \<Rightarrow> 'a word \<Rightarrow> 'a word" where
  "s_mod a b = word_of_int (sint a smod sint b)"

lemma sint_nonneg_uint:
  fixes a :: "'a::len word"
  assumes "uint a < 2 ^ (LENGTH('a) - 1)"
  shows "sint a = uint a"
proof -
  have "- (2 ^ (LENGTH('a) - 1)) \<le> uint a"
    by (rule order_trans [of _ 0]) simp_all
  with assms show ?thesis by (simp add: sint_uint signed_take_bit_int_eq_self)
qed

lemma sint_of_unat:
  fixes a :: "'a::len word"
  assumes "unat a < 2 ^ (LENGTH('a) - 1)"
  shows "sint a = int (unat a)"
proof -
  have "uint a = int (unat a)" by simp
  with assms have "uint a < 2 ^ (LENGTH('a) - 1)"
    by (metis of_nat_less_numeral_power_cancel_iff)
  then show ?thesis by (simp add: sint_nonneg_uint)
qed

lemma sint_nonneg_unat:
  fixes a :: "'a::len word"
  assumes "0 \<le> sint a"
  shows "unat a < 2 ^ (LENGTH('a) - 1)" and "sint a = int (unat a)"
proof -
  have "uint a < 2 ^ (LENGTH('a) - 1)"
  proof (rule ccontr)
    assume "\<not> uint a < 2 ^ (LENGTH('a) - 1)"
    then have "sint a \<le> uint a - 2 ^ Suc (LENGTH('a) - 1)"
      using signed_take_bit_int_less_eq [of "LENGTH('a) - 1" "uint a"]
      by (simp only: sint_uint not_less One_nat_def)
    also have "\<dots> < 0" using uint_lt2p [of a] by simp
    finally show False using assms by simp
  qed
  moreover have "uint a = int (unat a)" by simp
  ultimately show u: "unat a < 2 ^ (LENGTH('a) - 1)"
    by (metis of_nat_less_numeral_power_cancel_iff)
  then show "sint a = int (unat a)" by (rule sint_of_unat)
qed

lemma sint_word_of_int:
  assumes "- (2 ^ (LENGTH('a::len) - 1)) \<le> k" "k < 2 ^ (LENGTH('a) - 1)"
  shows "sint (word_of_int k :: 'a word) = k"
  using assms by (simp add: sint_sbintrunc' signed_take_bit_int_eq_self)

lemma sint_plus:
  fixes a b :: "'a::len word"
  assumes "- (2 ^ (LENGTH('a) - 1)) \<le> sint a + sint b" "sint a + sint b < 2 ^ (LENGTH('a) - 1)"
  shows "sint (a + b) = sint a + sint b"
  using assms by (simp add: sint_word_add signed_take_bit_int_eq_self)

lemma sint_minus:
  fixes a b :: "'a::len word"
  assumes "- (2 ^ (LENGTH('a) - 1)) \<le> sint a - sint b" "sint a - sint b < 2 ^ (LENGTH('a) - 1)"
  shows "sint (a - b) = sint a - sint b"
  using assms by (simp add: sint_word_diff signed_take_bit_int_eq_self)

lemma unat_half:
  fixes a :: "'a::len word"
  shows "unat (drop_bit (Suc 0) a) = unat a div 2"
  by (subst unat_drop_bit_eq) (simp add: drop_bit_eq_div)

lemma unat_lt: "unat (a :: 'a::len word) < 2 ^ LENGTH('a)"
  by (rule unsigned_less)

lemma unat_lt32: "unat (a :: 32 word) < 2 ^ 32"
  using unat_lt [of a] by simp

lemma unat_lt64: "unat (a :: 64 word) < 2 ^ 64"
  using unat_lt [of a] by simp

lemma unat_widen [simp]: "unat (ucast (a :: 32 word) :: 64 word) = unat a"
  using unat_lt32 [of a] by (simp add: unsigned_ucast_eq take_bit_nat_eq_self)

lemma ucast_word_of_int: "(ucast (word_of_int k :: 64 word) :: 32 word) = word_of_int k"
  by (simp add: ucast_down_wi is_down)

lemma ucast_neg_word_of_int: "(ucast (- word_of_int k :: 64 word) :: 32 word) = - word_of_int k"
  using ucast_word_of_int [of "- k"] by simp

lemma unat_ucast_small [no_wrap]:
  fixes a :: "'a::len word"
  assumes "unat a < 2 ^ LENGTH('b)"
  shows "unat (ucast a :: 'b::len word) = unat a"
  using assms by (simp add: unsigned_ucast_eq take_bit_nat_eq_self)

lemma unat_push_bit [no_wrap]:
  fixes a :: "'a::len word"
  assumes "unat a * 2 ^ n < 2 ^ LENGTH('a)"
  shows "unat (push_bit n a) = unat a * 2 ^ n"
  using assms by (subst unsigned_push_bit_eq) (simp add: push_bit_eq_mult take_bit_nat_eq_self)

lemma unat_drop [no_wrap]:
  fixes a :: "'a::len word"
  shows "unat (drop_bit n a) = unat a div 2 ^ n"
  by (subst unat_drop_bit_eq) (simp add: drop_bit_eq_div)

lemma unat_plus [no_wrap]:
  fixes a b :: "'a::len word"
  shows "unat a + unat b < 2 ^ LENGTH('a) \<Longrightarrow> unat (a + b) = unat a + unat b"
  by (simp add: unat_add_lem [symmetric])

lemma unat_times [no_wrap]:
  fixes a b :: "'a::len word"
  shows "unat a * unat b < 2 ^ LENGTH('a) \<Longrightarrow> unat (a * b) = unat a * unat b"
  by (simp add: unat_mult_lem [symmetric])

lemma unat_word_of_int_nat:
  assumes "n < 2 ^ LENGTH('a::len)"
  shows "unat (word_of_int (int n) :: 'a word) = n"
  using assms by (simp add: unat_of_nat take_bit_nat_eq_self)

lemma sdiv_int_int: "int m sdiv int n = int (m div n)"
  by (cases "m = 0"; cases "n = 0") (simp_all add: signed_divide_int_def zdiv_int)

lemma smod_int_int: "int m smod int n = int (m mod n)"
  by (cases "m = 0") (simp_all add: signed_modulo_int_def zmod_int)

lemma unat_s_div [no_wrap]:
  fixes a b :: "'a::len word"
  assumes "unat a < 2 ^ (LENGTH('a) - 1)" "unat b < 2 ^ (LENGTH('a) - 1)"
  shows "unat (s_div a b) = unat a div unat b"
proof -
  have "sint a sdiv sint b = int (unat a div unat b)"
    by (simp only: sint_of_unat [OF assms(1)] sint_of_unat [OF assms(2)] sdiv_int_int)
  moreover have "unat a div unat b < 2 ^ LENGTH('a)"
    by (rule le_less_trans [OF div_le_dividend unsigned_less])
  ultimately show ?thesis by (simp only: s_div_def unat_word_of_int_nat)
qed

lemma unat_s_mod [no_wrap]:
  fixes a b :: "'a::len word"
  assumes "unat a < 2 ^ (LENGTH('a) - 1)" "unat b < 2 ^ (LENGTH('a) - 1)"
  shows "unat (s_mod a b) = unat a mod unat b"
proof -
  have "sint a smod sint b = int (unat a mod unat b)"
    by (simp only: sint_of_unat [OF assms(1)] sint_of_unat [OF assms(2)] smod_int_int)
  moreover have "unat a mod unat b < 2 ^ LENGTH('a)"
    by (rule le_less_trans [OF mod_less_eq_dividend unsigned_less])
  ultimately show ?thesis by (simp only: s_mod_def unat_word_of_int_nat)
qed

lemma sless_unat:
  fixes a b :: "'a::len word"
  assumes "unat a < 2 ^ (LENGTH('a) - 1)" "unat b < 2 ^ (LENGTH('a) - 1)"
  shows "a <s b \<longleftrightarrow> unat a < unat b"
  by (simp only: word_sless_alt sint_of_unat [OF assms(1)] sint_of_unat [OF assms(2)] of_nat_less_iff)

lemma zero_sless_unat:
  fixes a :: "'a::len word"
  assumes "unat a < 2 ^ (LENGTH('a) - 1)"
  shows "0 <s a \<longleftrightarrow> 0 < unat a"
  by (simp only: word_sless_alt sint_of_unat [OF assms] sint_0 of_nat_0_less_iff)

subsection \<open>Folds that may fail\<close>

fun foldo :: "('a \<Rightarrow> 's \<Rightarrow> 's option) \<Rightarrow> 'a list \<Rightarrow> 's \<Rightarrow> 's option" where
  "foldo f [] s = Some s"
| "foldo f (x # xs) s = do { s \<leftarrow> f x s; foldo f xs s }"

lemma foldo_append: "foldo f (xs @ ys) s = do { s \<leftarrow> foldo f xs s; foldo f ys s }"
proof (induction xs arbitrary: s)
  case (Cons x xs)
  then show ?case by (cases "f x s") simp_all
qed simp

lemma foldo_Some: "foldo (\<lambda>x s. Some (g x s)) xs s = Some (fold g xs s)"
  by (induction xs arbitrary: s) simp_all

lemma foldo_invariant:
  assumes "foldo f xs s = Some s'" "P s"
    and "\<And>x s s'. x \<in> set xs \<Longrightarrow> P s \<Longrightarrow> f x s = Some s' \<Longrightarrow> P s'"
  shows "P s'"
  using assms
proof (induction xs arbitrary: s)
  case (Cons x xs)
  from Cons.prems(1) obtain s1 where "f x s = Some s1" "foldo f xs s1 = Some s'"
    by (auto simp: bind_eq_Some_conv)
  with Cons show ?case by (metis list.set_intros)
qed simp

lemma fold_invariant:
  assumes "P s" "\<And>x s. x \<in> set xs \<Longrightarrow> P s \<Longrightarrow> P (g x s)"
  shows "P (fold g xs s)"
  using assms by (induction xs arbitrary: s) simp_all

subsection \<open>Rounding up\<close>

definition cdiv :: "nat \<Rightarrow> nat \<Rightarrow> nat" where
  "cdiv a b = (if 0 < a mod b then a div b + 1 else a div b)"

lemma cdiv_mono: "a \<le> b \<Longrightarrow> cdiv a c \<le> cdiv b c"
proof (cases "a div c = b div c")
  case True
  assume "a \<le> b"
  have "a = c * (a div c) + a mod c" "b = c * (b div c) + b mod c" by simp_all
  with True \<open>a \<le> b\<close> have "a mod c \<le> b mod c" by (metis add_le_cancel_left)
  with True show ?thesis by (simp add: cdiv_def)
next
  case False
  assume "a \<le> b"
  then have "a div c \<le> b div c" by (rule div_le_mono)
  with False show ?thesis by (simp add: cdiv_def)
qed

lemma cdiv_le: "cdiv a b \<le> a div b + 1"
  by (simp add: cdiv_def)

lemma cdiv_pos: "0 < a \<Longrightarrow> 0 < b \<Longrightarrow> 1 \<le> cdiv a b"
  by (auto simp: cdiv_def div_greater_zero_iff Suc_le_eq mod_eq_self_iff_div_eq_0
      intro: gr0I)

lemma cdiv_mult_ge: "0 < b \<Longrightarrow> a \<le> cdiv a b * b"
proof (cases "0 < a mod b")
  case True
  assume "0 < b"
  then have "a mod b \<le> b" by simp
  moreover have "a div b * b + a mod b = a" by simp
  ultimately have "a \<le> a div b * b + b" by linarith
  with True show ?thesis by (simp add: cdiv_def)
next
  case False
  moreover have "a div b * b + a mod b = a" by simp
  ultimately show ?thesis by (simp add: cdiv_def)
qed

subsection \<open>Iterating a monotone function up to a bound\<close>

text \<open>
  The response-time test and the busy-period loops of the frequency algorithms all iterate
  a monotone demand function from a starting point below its image. What the loops need of
  that function is its monotonicity alone.
\<close>

locale mono_demand =
  fixes f :: "nat \<Rightarrow> nat"
  assumes mono: "x \<le> y \<Longrightarrow> f x \<le> f y"
begin

lemma image_le: "x \<le> y \<Longrightarrow> f y \<le> y \<Longrightarrow> f x \<le> y"
  using mono [of x y] by simp

lemma step_keeps: "x \<le> f x \<Longrightarrow> f x \<le> f (f x)"
  by (rule mono)

lemma search_shift:
  assumes "x \<le> f x"
  shows "(\<exists>t. x \<le> t \<and> t \<le> B \<and> f t \<le> t) \<longleftrightarrow> (\<exists>t. f x \<le> t \<and> t \<le> B \<and> f t \<le> t)"
proof
  assume "\<exists>t. x \<le> t \<and> t \<le> B \<and> f t \<le> t"
  then obtain t where t: "x \<le> t" "t \<le> B" "f t \<le> t" by blast
  from t(1,3) have "f x \<le> t" by (rule image_le)
  with t show "\<exists>t. f x \<le> t \<and> t \<le> B \<and> f t \<le> t" by blast
next
  assume "\<exists>t. f x \<le> t \<and> t \<le> B \<and> f t \<le> t"
  with assms show "\<exists>t. x \<le> t \<and> t \<le> B \<and> f t \<le> t" by (meson order_trans)
qed

end

end
