(* ===== verification/KList.thy ===== *)
theory KList
  imports Prelude
begin

text \<open>
  The kernel's intrusive doubly linked lists (\<open>include/linux/list.h\<close>) on an explicit heap of
  \<open>struct list_head\<close> nodes. The real-time extension embeds two such nodes in every
  \<open>task_struct\<close> (\<open>periodic_task\<close> and \<open>per_cpu_task\<close>) and has one list head for all periodic
  tasks and one per CPU, so a node's address is one of four forms. \<open>container_of\<close> is the
  inverse of the two embedded forms. Following a pointer that is NULL or one of the poison
  values left by \<open>list_del\<close> is a kernel oops, the value \<open>None\<close>; a traversal of a corrupted ring
  that never meets its head again does not return, which is \<open>None\<close> too.
\<close>

type_synonym tid = nat

datatype lnode = PHead | CHead nat | PNode tid | CNode tid

datatype lptr = Null | Poison1 | Poison2 | At lnode

record list_head =
  nxt :: lptr
  prv :: lptr

type_synonym heap = "lnode \<Rightarrow> list_head"

text \<open>Static storage and fresh task structures start out zeroed: every link is NULL.\<close>

definition zero_heap :: heap where
  "zero_heap = (\<lambda>_. \<lparr>nxt = Null, prv = Null\<rparr>)"

subsection \<open>Operations\<close>

definition INIT_LIST_HEAD :: "lnode \<Rightarrow> heap \<Rightarrow> heap" where
  "INIT_LIST_HEAD l h = h(l := \<lparr>nxt = At l, prv = At l\<rparr>)"

text \<open>The node a pointer leads to, if following it does not fault.\<close>

fun deref :: "lptr \<Rightarrow> lnode option" where
  "deref (At n) = Some n"
| "deref _ = None"

text \<open>The assignments \<open>p->next = v\<close> and \<open>p->prev = v\<close> through a pointer.\<close>

definition set_nxt :: "lptr \<Rightarrow> lptr \<Rightarrow> heap \<Rightarrow> heap option" where
  "set_nxt p v h = do { n \<leftarrow> deref p; Some (h(n := (h n)\<lparr>nxt := v\<rparr>)) }"

definition set_prv :: "lptr \<Rightarrow> lptr \<Rightarrow> heap \<Rightarrow> heap option" where
  "set_prv p v h = do { n \<leftarrow> deref p; Some (h(n := (h n)\<lparr>prv := v\<rparr>)) }"

definition list_add_between :: "lnode \<Rightarrow> lptr \<Rightarrow> lptr \<Rightarrow> heap \<Rightarrow> heap option" where
  "list_add_between new prev next h =
     do {
       h \<leftarrow> set_prv next (At new) h;
       h \<leftarrow> set_nxt (At new) next h;
       h \<leftarrow> set_prv (At new) prev h;
       set_nxt prev (At new) h
     }"

definition list_add_tail :: "lnode \<Rightarrow> lnode \<Rightarrow> heap \<Rightarrow> heap option" where
  "list_add_tail new head h = list_add_between new (prv (h head)) (At head) h"

definition list_del_between :: "lptr \<Rightarrow> lptr \<Rightarrow> heap \<Rightarrow> heap option" where
  "list_del_between prev next h =
     do {
       h \<leftarrow> set_prv next prev h;
       set_nxt prev next h
     }"

definition list_del :: "lnode \<Rightarrow> heap \<Rightarrow> heap option" where
  "list_del entry h =
     do {
       h \<leftarrow> list_del_between (prv (h entry)) (nxt (h entry)) h;
       Some (h(entry := \<lparr>nxt = Poison1, prv = Poison2\<rparr>))
     }"

text \<open>
  The nodes that \<open>list_for_each(pos, head)\<close> visits when its body leaves the links alone, from
  the pointer \<open>p\<close> on, and the node at which a loop that breaks on \<open>stop\<close> ends (\<open>head\<close> when it
  runs to the end).
\<close>

partial_function (option) list_walk :: "heap \<Rightarrow> lnode \<Rightarrow> lptr \<Rightarrow> lnode list option" where
  "list_walk h head p =
     do {
       n \<leftarrow> deref p;
       if n = head then Some []
       else do { ns \<leftarrow> list_walk h head (nxt (h n)); Some (n # ns) }
     }"

definition list_for_each :: "heap \<Rightarrow> lnode \<Rightarrow> lnode list option" where
  "list_for_each h head = list_walk h head (nxt (h head))"

partial_function (option) list_search :: "(lnode \<Rightarrow> bool) \<Rightarrow> heap \<Rightarrow> lnode \<Rightarrow> lptr \<Rightarrow> lnode option" where
  "list_search stop h head p =
     do {
       n \<leftarrow> deref p;
       if n = head then Some head
       else if stop n then Some n
       else list_search stop h head (nxt (h n))
     }"

text \<open>
  \<open>list_for_each_safe\<close> with \<open>list_del\<close> of every visited node as its body: the successor is read
  before the body runs.
\<close>

partial_function (option) list_del_all :: "lnode \<Rightarrow> lptr \<Rightarrow> heap \<Rightarrow> heap option" where
  "list_del_all head p h =
     do {
       n \<leftarrow> deref p;
       if n = head then Some h
       else do { h' \<leftarrow> list_del n h; list_del_all head (nxt (h n)) h' }
     }"

subsection \<open>The ring a heap holds\<close>

fun chain :: "heap \<Rightarrow> lnode list \<Rightarrow> bool" where
  "chain h (a # b # xs) \<longleftrightarrow> nxt (h a) = At b \<and> prv (h b) = At a \<and> chain h (b # xs)"
| "chain h _ \<longleftrightarrow> True"

definition dll :: "heap \<Rightarrow> lnode \<Rightarrow> lnode list \<Rightarrow> bool" where
  "dll h head xs \<longleftrightarrow> distinct (head # xs) \<and> chain h (head # xs @ [head])"

lemma chain_cong:
  "(\<And>x. x \<in> set (butlast xs) \<Longrightarrow> nxt (h' x) = nxt (h x)) \<Longrightarrow>
   (\<And>x. x \<in> set (tl xs) \<Longrightarrow> prv (h' x) = prv (h x)) \<Longrightarrow> chain h' xs = chain h xs"
  by (induction h xs rule: chain.induct) auto

lemma chain_split: "chain h (xs @ a # ys) \<longleftrightarrow> chain h (xs @ [a]) \<and> chain h (a # ys)"
proof (induction xs)
  case Nil
  then show ?case by simp
next
  case (Cons x xs)
  then show ?case by (cases xs) auto
qed

lemma chain_mid: "chain h (xs @ p # n # ys) \<longleftrightarrow>
   chain h (xs @ [p]) \<and> nxt (h p) = At n \<and> prv (h n) = At p \<and> chain h (n # ys)"
  using chain_split [of h xs p "n # ys"] by simp

lemma list_walk_At:
  "list_walk h head (At n) =
     (if n = head then Some [] else do { ns \<leftarrow> list_walk h head (nxt (h n)); Some (n # ns) })"
  by (subst list_walk.simps) simp

lemma list_search_At:
  "list_search stop h head (At n) =
     (if n = head then Some head else if stop n then Some n
      else list_search stop h head (nxt (h n)))"
  by (subst list_search.simps) simp

lemma list_del_all_At:
  "list_del_all head (At n) h =
     (if n = head then Some h else do { h' \<leftarrow> list_del n h; list_del_all head (nxt (h n)) h' })"
  by (subst list_del_all.simps) simp

lemma list_walk_fault: "deref p = None \<Longrightarrow> list_walk h head p = None"
  by (subst list_walk.simps) simp

lemma list_walk_chain:
  "chain h (a # xs @ [head]) \<Longrightarrow> head \<notin> set xs \<Longrightarrow> list_walk h head (nxt (h a)) = Some xs"
  by (induction xs arbitrary: a) (auto simp: list_walk_At)

lemma list_for_each_dll: "dll h head xs \<Longrightarrow> list_for_each h head = Some xs"
  by (simp add: list_for_each_def dll_def list_walk_chain)

lemma list_search_chain:
  "chain h (a # xs @ [head]) \<Longrightarrow> head \<notin> set xs \<Longrightarrow>
   list_search stop h head (nxt (h a)) = Some (hd (dropWhile (\<lambda>x. \<not> stop x) xs @ [head]))"
  by (induction xs arbitrary: a) (auto simp: list_search_At)

lemma list_search_dll:
  "dll h head xs \<Longrightarrow>
   list_search stop h head (nxt (h head)) = Some (hd (dropWhile (\<lambda>x. \<not> stop x) xs @ [head]))"
  by (simp add: dll_def list_search_chain)

text \<open>The ring around an insertion point or an entry, cut at that point.\<close>

lemma ring_cut:
  obtains us p where "head # as = us @ [p]" by (metis list.distinct(1) rev_exhaust)

lemma dll_INIT: "dll (INIT_LIST_HEAD head h) head []"
  by (simp add: dll_def INIT_LIST_HEAD_def)

lemma dll_frame:
  "dll h head xs \<Longrightarrow> (\<And>x. x \<in> set (head # xs) \<Longrightarrow> h' x = h x) \<Longrightarrow> dll h' head xs"
  unfolding dll_def by (subst chain_cong [of _ h' h]) (auto dest: in_set_butlastD)

lemma both_links: "(r :: list_head)\<lparr>nxt := a, prv := b\<rparr> = \<lparr>nxt = a, prv = b\<rparr>"
  by (cases r) simp

lemma list_add_tail_dll:
  assumes "dll h head (as @ bs)" and "new \<notin> set (head # as @ bs)"
  shows "\<exists>h'. list_add_tail new (hd (bs @ [head])) h = Some h' \<and> dll h' head (as @ new # bs)
    \<and> (\<forall>x. x \<notin> set (new # head # as @ bs) \<longrightarrow> h' x = h x)"
proof -
  obtain us p where u: "head # as = us @ [p]" by (rule ring_cut)
  obtain n vs where v: "bs @ [head] = n # vs" by (cases bs) auto
  have ring: "head # (as @ bs) @ [head] = us @ p # n # vs" using u v by simp
  have c: "chain h (us @ [p])" "nxt (h p) = At n" "prv (h n) = At p" "chain h (n # vs)"
    using assms(1) unfolding dll_def ring by (simp_all add: chain_mid)
  have d: "distinct (head # as)" "distinct (bs @ [head])" "set (head # as) \<inter> set bs = {}"
    using assms(1) by (auto simp: dll_def)
  have pn: "p \<in> set (head # as)" "n \<in> set (bs @ [head])" unfolding u v by simp_all
  then have np: "new \<noteq> p" "new \<noteq> n" using assms(2) by auto
  define h1 where "h1 = h(n := (h n)\<lparr>prv := At new\<rparr>, new := \<lparr>nxt = At n, prv = At p\<rparr>)"
  define h' where "h' = h1(p := (h1 p)\<lparr>nxt := At new\<rparr>)"
  have h': "nxt (h' x) = (if x = p then At new else if x = new then At n else nxt (h x))"
    "prv (h' x) = (if x = n then At new else if x = new then At p else prv (h x))" for x
    using np by (simp_all add: h'_def h1_def)
  have "list_add_tail new (hd (bs @ [head])) h = Some h'"
    using c(3) np by (auto simp: v list_add_tail_def list_add_between_def set_prv_def set_nxt_def
        h'_def h1_def fun_eq_iff both_links)
  moreover have "chain h' (us @ [p])"
  proof (subst chain_cong [of _ h' h])
    show "nxt (h' x) = nxt (h x)" if "x \<in> set (butlast (us @ [p]))" for x
    proof -
      have "x \<in> set (head # as)" using that unfolding u by simp
      moreover have "x \<noteq> p" using that d(1) unfolding u by auto
      ultimately show ?thesis using assms(2) h'(1) [of x] by auto
    qed
    show "prv (h' x) = prv (h x)" if "x \<in> set (tl (us @ [p]))" for x
    proof -
      have "x \<in> set as" using that u by (metis list.sel(3))
      then have "x \<noteq> n" "x \<noteq> new" using pn(2) d assms(2) by auto
      then show ?thesis by (simp add: h')
    qed
  qed (use c(1) in simp)
  moreover have "chain h' (n # vs)"
  proof (subst chain_cong [of _ h' h])
    show "nxt (h' x) = nxt (h x)" if "x \<in> set (butlast (n # vs))" for x
    proof -
      have "x \<in> set bs" using that v by (metis butlast_snoc)
      then have "x \<noteq> p" "x \<noteq> new" using pn(1) d assms(2) by auto
      then show ?thesis by (simp add: h')
    qed
    show "prv (h' x) = prv (h x)" if "x \<in> set (tl (n # vs))" for x
    proof -
      have "x \<in> set (bs @ [head])" using that unfolding v by simp
      moreover have "x \<noteq> n" using that d(2) unfolding v by auto
      ultimately show ?thesis using assms(2) h'(2) [of x] by auto
    qed
  qed (use c(4) in simp)
  ultimately have "chain h' (us @ p # new # n # vs)"
    by (simp add: chain_mid h' np)
  moreover have "head # (as @ new # bs) @ [head] = us @ p # new # n # vs" using u v by simp
  ultimately have "chain h' (head # (as @ new # bs) @ [head])" by simp
  then have "dll h' head (as @ new # bs)" using assms by (auto simp: dll_def)
  moreover have "\<forall>x. x \<notin> set (new # head # as @ bs) \<longrightarrow> h' x = h x"
    using pn by (auto simp: h'_def h1_def)
  ultimately show ?thesis using \<open>list_add_tail new (hd (bs @ [head])) h = Some h'\<close> by blast
qed

lemma list_del_dll:
  assumes "dll h head (as @ e # bs)"
  shows "\<exists>h'. list_del e h = Some h' \<and> dll h' head (as @ bs)
    \<and> h' e = \<lparr>nxt = Poison1, prv = Poison2\<rparr>
    \<and> (\<forall>x. x \<notin> set (head # as @ e # bs) \<longrightarrow> h' x = h x)"
proof -
  obtain us p where u: "head # as = us @ [p]" by (rule ring_cut)
  obtain n vs where v: "bs @ [head] = n # vs" by (cases bs) auto
  have ring: "head # (as @ e # bs) @ [head] = us @ p # e # n # vs" using u v by simp
  have c: "chain h (us @ [p])" "nxt (h e) = At n" "prv (h e) = At p" "chain h (n # vs)"
    using assms unfolding dll_def ring by (simp_all add: chain_mid)
  have d: "distinct (head # as)" "distinct (bs @ [head])" "set (head # as) \<inter> set bs = {}"
      "e \<notin> set (head # as)" "e \<notin> set (bs @ [head])"
    using assms by (auto simp: dll_def)
  have pn: "p \<in> set (head # as)" "n \<in> set (bs @ [head])" unfolding u v by simp_all
  then have np: "e \<noteq> p" "e \<noteq> n" using d(4,5) by auto
  define h1 where "h1 = h(n := (h n)\<lparr>prv := At p\<rparr>)"
  define h' where "h' = (h1(p := (h1 p)\<lparr>nxt := At n\<rparr>))(e := \<lparr>nxt = Poison1, prv = Poison2\<rparr>)"
  have h': "x \<noteq> e \<Longrightarrow> nxt (h' x) = (if x = p then At n else nxt (h x))"
    "x \<noteq> e \<Longrightarrow> prv (h' x) = (if x = n then At p else prv (h x))" for x
    by (simp_all add: h'_def h1_def)
  have del: "list_del e h = Some h'"
    using c(2,3) by (simp add: list_del_def list_del_between_def set_prv_def set_nxt_def h'_def h1_def)
  have "chain h' (us @ [p])"
  proof (subst chain_cong [of _ h' h])
    show "nxt (h' x) = nxt (h x)" if "x \<in> set (butlast (us @ [p]))" for x
    proof -
      have "x \<in> set (head # as)" using that unfolding u by simp
      moreover have "x \<noteq> p" using that d(1) unfolding u by auto
      ultimately show ?thesis using d(4) h'(1) [of x] by auto
    qed
    show "prv (h' x) = prv (h x)" if "x \<in> set (tl (us @ [p]))" for x
    proof -
      have "x \<in> set as" using that u by (metis list.sel(3))
      then have "x \<noteq> n" "x \<noteq> e" using pn(2) d by auto
      then show ?thesis by (simp add: h')
    qed
  qed (use c(1) in simp)
  moreover have "chain h' (n # vs)"
  proof (subst chain_cong [of _ h' h])
    show "nxt (h' x) = nxt (h x)" if "x \<in> set (butlast (n # vs))" for x
    proof -
      have "x \<in> set bs" using that v by (metis butlast_snoc)
      then have "x \<noteq> p" "x \<noteq> e" using pn(1) d by auto
      then show ?thesis by (simp add: h')
    qed
    show "prv (h' x) = prv (h x)" if "x \<in> set (tl (n # vs))" for x
    proof -
      have "x \<in> set (bs @ [head])" using that unfolding v by simp
      moreover have "x \<noteq> n" using that d(2) unfolding v by auto
      ultimately show ?thesis using d(5) h'(2) [of x] by auto
    qed
  qed (use c(4) in simp)
  ultimately have "chain h' (us @ p # n # vs)" using np by (simp add: chain_mid h')
  moreover have "head # (as @ bs) @ [head] = us @ p # n # vs" using u v by simp
  ultimately have "chain h' (head # (as @ bs) @ [head])" by simp
  then have "dll h' head (as @ bs)" using assms by (auto simp: dll_def)
  moreover have "\<forall>x. x \<notin> set (head # as @ e # bs) \<longrightarrow> h' x = h x"
    using pn by (auto simp: h'_def h1_def)
  ultimately show ?thesis using del by (auto simp: h'_def)
qed

text \<open>Deleting every node of a ring, front to back, leaves the empty ring.\<close>

lemma list_del_all_dll:
  "dll h head xs \<Longrightarrow>
   \<exists>h'. list_del_all head (nxt (h head)) h = Some h' \<and> dll h' head []
     \<and> (\<forall>x. x \<notin> set (head # xs) \<longrightarrow> h' x = h x)"
proof (induction xs arbitrary: h)
  case Nil
  then show ?case by (auto simp: dll_def list_del_all_At)
next
  case (Cons e xs)
  obtain h1 where h1: "list_del e h = Some h1" "dll h1 head xs"
      "\<forall>x. x \<notin> set (head # e # xs) \<longrightarrow> h1 x = h x"
    using list_del_dll [of h head "[]" e xs] Cons.prems by auto
  obtain n vs where v: "xs @ [head] = n # vs" by (cases xs) auto
  have n: "nxt (h head) = At e" "e \<noteq> head" "nxt (h e) = At n"
    using Cons.prems v by (auto simp: dll_def)
  have "nxt (h1 head) = At n" using h1(2) v by (cases xs) (auto simp: dll_def)
  then obtain h' where "list_del_all head (At n) h1 = Some h'" "dll h' head []"
      "\<forall>x. x \<notin> set (head # xs) \<longrightarrow> h' x = h1 x"
    using Cons.IH [OF h1(2)] by auto
  with h1 n show ?case by (auto simp: list_del_all_At)
qed

subsection \<open>Lists of tasks\<close>

text \<open>
  The interface the scheduler code uses: one list head and the node a task embeds for it. Its
  laws only say that the nodes of different tasks are different and none is the head.
\<close>

locale task_ring =
  fixes head :: lnode and mk :: "tid \<Rightarrow> lnode"
  assumes mk_inj: "mk a = mk b \<longleftrightarrow> a = b" and mk_head: "mk a \<noteq> head"
begin

lemma in_map_mk: "mk t \<in> set (map mk ts) \<longleftrightarrow> t \<in> set ts"
  by (auto simp: mk_inj)

lemma distinct_tasks: "dll h head (map mk ts) \<Longrightarrow> distinct ts"
  by (auto simp: dll_def distinct_map)

lemma visits: "dll h head (map mk ts) \<Longrightarrow> list_for_each h head = Some (map mk ts)"
  by (rule list_for_each_dll)

lemma insert_sorted:
  assumes "dll h head (map mk ts)" and "t \<notin> set ts" and "\<And>x. stop (mk x) \<longleftrightarrow> S x"
  shows "\<exists>n h'. list_search stop h head (nxt (h head)) = Some n \<and> list_add_tail (mk t) n h = Some h'
    \<and> dll h' head (map mk (takeWhile (\<lambda>x. \<not> S x) ts @ t # dropWhile (\<lambda>x. \<not> S x) ts))
    \<and> (\<forall>x. x \<noteq> head \<and> x \<notin> mk ` insert t (set ts) \<longrightarrow> h' x = h x)"
proof -
  let ?as = "takeWhile (\<lambda>x. \<not> S x) ts" and ?bs = "dropWhile (\<lambda>x. \<not> S x) ts"
  have dw: "dropWhile (\<lambda>x. \<not> stop x) (map mk ts) = map mk ?bs"
    by (simp add: dropWhile_map o_def assms(3))
  have split: "map mk ts = map mk ?as @ map mk ?bs" by (simp flip: map_append)
  have new: "mk t \<notin> set (head # map mk ?as @ map mk ?bs)"
    using assms(2) by (simp add: mk_head split [symmetric] del: set_map) (simp add: in_map_mk del: set_map)
  obtain h' where h': "list_add_tail (mk t) (hd (map mk ?bs @ [head])) h = Some h'"
      "dll h' head (map mk ?as @ mk t # map mk ?bs)"
      "\<forall>x. x \<notin> set (mk t # head # map mk ?as @ map mk ?bs) \<longrightarrow> h' x = h x"
    using list_add_tail_dll [OF _ new] assms(1) split by auto
  have "list_search stop h head (nxt (h head)) = Some (hd (map mk ?bs @ [head]))"
    using list_search_dll [OF assms(1), of stop] dw by simp
  moreover have "h' x = h x" if "x \<noteq> head" "x \<notin> mk ` insert t (set ts)" for x
    using h'(3) that by (auto dest: set_takeWhileD set_dropWhileD)
  ultimately show ?thesis using h'(1,2) by (intro exI conjI) auto
qed

lemma remove:
  assumes "dll h head (map mk ts)" and "t \<in> set ts"
  shows "\<exists>h'. list_del (mk t) h = Some h' \<and> dll h' head (map mk (remove1 t ts))
    \<and> h' (mk t) = \<lparr>nxt = Poison1, prv = Poison2\<rparr>
    \<and> (\<forall>x. x \<noteq> head \<and> x \<notin> mk ` set ts \<longrightarrow> h' x = h x)"
proof -
  obtain as bs where ts: "ts = as @ t # bs" "t \<notin> set as" using split_list_first [OF assms(2)] by blast
  obtain h' where h': "list_del (mk t) h = Some h'" "dll h' head (map mk as @ map mk bs)"
      "h' (mk t) = \<lparr>nxt = Poison1, prv = Poison2\<rparr>"
      "\<forall>x. x \<notin> set (head # map mk as @ mk t # map mk bs) \<longrightarrow> h' x = h x"
    using list_del_dll [of h head "map mk as" "mk t" "map mk bs"] assms(1) ts by auto
  moreover have "remove1 t ts = as @ bs" using ts by (simp add: remove1_append)
  moreover have "h' x = h x" if "x \<noteq> head" "x \<notin> mk ` set ts" for x
    using h'(4) that ts by auto
  ultimately show ?thesis by auto
qed

lemma clear:
  assumes "dll h head (map mk ts)"
  shows "\<exists>h'. list_del_all head (nxt (h head)) h = Some h' \<and> dll h' head (map mk [])
    \<and> (\<forall>x. x \<noteq> head \<and> x \<notin> mk ` set ts \<longrightarrow> h' x = h x)"
proof -
  obtain h' where h': "list_del_all head (nxt (h head)) h = Some h'" "dll h' head []"
      "\<forall>x. x \<notin> set (head # map mk ts) \<longrightarrow> h' x = h x"
    using list_del_all_dll [OF assms] by blast
  moreover have "h' x = h x" if "x \<noteq> head" "x \<notin> mk ` set ts" for x
    using h'(3) that by auto
  ultimately show ?thesis by auto
qed

lemma init: "dll (INIT_LIST_HEAD head h) head (map mk [])"
  by (simp add: dll_INIT)

lemma other_list: "dll h head (map mk ts) \<Longrightarrow> (\<And>x. x = head \<or> x \<in> mk ` set ts \<Longrightarrow> h' x = h x) \<Longrightarrow>
    dll h' head (map mk ts)"
  by (erule dll_frame) auto

end

text \<open>The list of all periodic tasks, and the list of each CPU.\<close>

interpretation periodic: task_ring PHead PNode
  by unfold_locales simp_all

interpretation percpu: task_ring "CHead c" CNode for c
  by unfold_locales simp_all

text \<open>\<open>container_of\<close> for the two embedded nodes.\<close>

fun periodic_owner :: "lnode \<Rightarrow> tid option" where
  "periodic_owner (PNode t) = Some t"
| "periodic_owner _ = None"

fun percpu_owner :: "lnode \<Rightarrow> tid option" where
  "percpu_owner (CNode t) = Some t"
| "percpu_owner _ = None"

text \<open>
  C40. \<open>list_add_tail\<close> and \<open>list_del\<close> of \<open>list.h\<close> implement insertion and deletion in a sequence: on a
  well-formed ring, adding a fresh node before the first node of \<open>bs\<close> (before the head when \<open>bs\<close>
  is empty) never faults and a traversal then meets it exactly there; deleting it again never
  faults and gives the old sequence back.
\<close>

theorem list_ring_insert_delete:
  assumes "dll h head (as @ bs)" and "new \<notin> set (head # as @ bs)"
  shows "\<exists>h1 h2. list_add_tail new (hd (bs @ [head])) h = Some h1
    \<and> list_for_each h1 head = Some (as @ new # bs)
    \<and> list_del new h1 = Some h2 \<and> list_for_each h2 head = Some (as @ bs)"
proof -
  obtain h1 where h1: "list_add_tail new (hd (bs @ [head])) h = Some h1" "dll h1 head (as @ new # bs)"
    using list_add_tail_dll [OF assms] by blast
  obtain h2 where "list_del new h1 = Some h2" "dll h2 head (as @ bs)"
    using list_del_dll [OF h1(2)] by blast
  with h1 show ?thesis by (blast intro: list_for_each_dll)
qed

theorem list_ring_insert_delete_witness:
  "\<exists>h1 h2. list_add_tail (PNode 7) PHead (INIT_LIST_HEAD PHead zero_heap) = Some h1
    \<and> list_for_each h1 PHead = Some [PNode 7]
    \<and> list_del (PNode 7) h1 = Some h2 \<and> list_for_each h2 PHead = Some []"
  using list_ring_insert_delete [of "INIT_LIST_HEAD PHead zero_heap" PHead "[]" "[]" "PNode 7"] dll_INIT
  by simp

text \<open>
  Adding a node that is already in the list destroys the ring: when the only element of a
  list is added once more at its tail, the node points to itself and no traversal of the list
  ever returns.
\<close>

lemma list_add_tail_twice_hangs:
  assumes "dll h head [x]"
  shows "\<exists>h'. list_add_tail x head h = Some h' \<and> list_for_each h' head = None"
proof -
  define h1 where "h1 = h(head := (h head)\<lparr>prv := At x\<rparr>)"
  define h' where "h' = h1(x := \<lparr>nxt = At x, prv = At x\<rparr>)"
  have d: "head \<noteq> x" "nxt (h head) = At x" "prv (h head) = At x"
    using assms by (simp_all add: dll_def)
  have add: "list_add_tail x head h = Some h'"
    using d by (auto simp: list_add_tail_def list_add_between_def set_prv_def set_nxt_def h'_def h1_def
        fun_eq_iff both_links)
  have loop: "list_walk h' head (At x) \<noteq> Some ns" for ns
  proof
    assume s: "list_walk h' head (At x) = Some ns"
    with d obtain ms where "list_walk h' head (At x) = Some ms" "ns = x # ms"
      by (subst (asm) list_walk_At) (auto simp: h'_def bind_eq_Some_conv)
    with s show False by simp
  qed
  then have "list_for_each h' head = None"
    using d by (cases "list_walk h' head (At x)") (simp_all add: list_for_each_def h'_def h1_def)
  with add show ?thesis by blast
qed

end
