(* ===== verification/KTime.thy ===== *)
theory KTime
  imports Prelude
begin

text \<open>
  The kernel's time values and the 64-bit divisions behind them: \<open>struct timespec\<close> and its
  operations (\<open>include/linux/time.h\<close>, \<open>kernel/time.c\<close>), \<open>ktime_t\<close> in its scalar form (ARM sets
  \<open>CONFIG_KTIME_SCALAR\<close>), \<open>__div64_32\<close> and \<open>div_s64_rem\<close> of \<open>lib/div64.c\<close>, and
  \<open>convert_to_usecs\<close> of \<open>kernel/sched.c\<close>.
\<close>

subsection \<open>Division of 64-bit values\<close>

text \<open>
  \<open>__div64_32\<close> is the shift-and-subtract division the real-time code calls directly. The
  first loop doubles \<open>b\<close> and \<open>d\<close>, the second halves them again.
\<close>

function div64_scale :: "u64 \<Rightarrow> u64 \<Rightarrow> u64 \<Rightarrow> u64 \<times> u64" where
  "div64_scale rem b d =
     (if 0 <s b \<and> b < rem then div64_scale rem (b + b) (d + d) else (b, d))"
  by pat_completeness auto
termination
proof (relation "measure (\<lambda>(rem, b, d). 2 ^ 64 - unat b)", simp)
  fix rem b d :: u64
  assume "0 <s b \<and> b < rem"
  then have s: "0 < sint b" by (simp add: word_sless_alt)
  then have "0 < unat b" "unat b < 2 ^ 63"
    using sint_nonneg_unat [of b] by (linarith, simp)
  moreover from this have "unat (b + b) = unat b + unat b" by (intro unat_plus) simp
  ultimately show "((rem, b + b, d + d), rem, b, d) \<in> measure (\<lambda>(rem, b, d). 2 ^ 64 - unat b)"
    by simp
qed

function div64_sub :: "u64 \<Rightarrow> u64 \<Rightarrow> u64 \<Rightarrow> u64 \<Rightarrow> u64 \<times> u64" where
  "div64_sub rem b d res =
     (let (rem, res) = (if b \<le> rem then (rem - b, res + d) else (rem, res));
          b = drop_bit 1 b;
          d = drop_bit 1 d
      in if d \<noteq> 0 then div64_sub rem b d res else (res, rem))"
  by pat_completeness auto
termination
proof (relation "measure (\<lambda>(rem, b, d, res). unat d)", simp)
  fix rem b d res :: u64 and x rem' res' and b' d' :: u64
  assume "d' = drop_bit 1 d" "d' \<noteq> 0"
  then have "unat d' = unat d div 2" "unat d' \<noteq> 0"
    by (simp only: unat_half One_nat_def) (use \<open>d' \<noteq> 0\<close> in \<open>simp add: unat_eq_zero\<close>)
  then show "((rem', b', d', res'), rem, b, d, res) \<in> measure (\<lambda>(rem, b, d, res). unat d)"
    by simp
qed

declare div64_scale.simps [simp del] div64_sub.simps [simp del]

definition div64_32 :: "u64 \<Rightarrow> u32 \<Rightarrow> u64 \<times> u32" where
  "div64_32 n base =
     (let rem = n;
          b = (ucast base :: u64);
          high = (ucast (drop_bit 32 rem) :: u32);
          (res, rem) =
            (if base \<le> high then
               let high = high div base
               in (push_bit 32 (ucast high), rem - push_bit 32 (ucast (high * base)))
             else (0, rem));
          (b, d) = div64_scale rem b 1;
          (res, rem) = div64_sub rem b d res
      in (res, ucast rem))"

text \<open>
  \<open>do_div\<close>, as \<open>arch/arm/include/asm/div64.h\<close> documents its own semantics, and the signed
  division built on it.
\<close>

definition do_div :: "u64 \<Rightarrow> u32 \<Rightarrow> u64 \<times> u32" where
  "do_div n base = (n div ucast base, ucast (n mod ucast base))"

definition div_s64_rem :: "s64 \<Rightarrow> s32 \<Rightarrow> s64 \<times> s32" where
  "div_s64_rem dividend divisor =
     (let absd = (if divisor <s 0 then - divisor else divisor) in
      if dividend <s 0 then
        let (quotient, remainder) = do_div (- dividend) absd;
            remainder = - remainder
        in (if 0 <s divisor then - quotient else quotient, remainder)
      else
        let (quotient, remainder) = do_div dividend absd
        in (if divisor <s 0 then - quotient else quotient, remainder))"

subsection \<open>Time values\<close>

record timespec =
  tv_sec :: s32
  tv_nsec :: s32

abbreviation NSEC_PER_SEC :: int where "NSEC_PER_SEC \<equiv> 1000000000"

definition timespec_compare :: "timespec \<Rightarrow> timespec \<Rightarrow> s32" where
  "timespec_compare lhs rhs =
     (if tv_sec lhs <s tv_sec rhs then - 1
      else if tv_sec rhs <s tv_sec lhs then 1
      else tv_nsec lhs - tv_nsec rhs)"

text \<open>The two loops of \<open>set_normalized_timespec\<close>.\<close>

function norm_carry :: "s32 \<Rightarrow> s64 \<Rightarrow> s32 \<times> s64" where
  "norm_carry sec nsec =
     (if 1000000000 \<le>s nsec then norm_carry (sec + 1) (nsec - 1000000000) else (sec, nsec))"
  by pat_completeness auto
termination
proof (relation "measure (\<lambda>(sec, nsec). unat nsec)", simp)
  fix sec :: s32 and nsec :: s64
  assume "1000000000 \<le>s nsec"
  then have s: "1000000000 \<le> sint nsec" by (simp add: word_sle_eq)
  then have "sint nsec = int (unat nsec)" by (intro sint_nonneg_unat) simp
  with s have "1000000000 \<le> unat nsec" by linarith
  then have "unat (nsec - 1000000000) = unat nsec - 1000000000"
    by (simp add: unat_sub word_le_nat_alt)
  with \<open>1000000000 \<le> unat nsec\<close>
  show "((sec + 1, nsec - 1000000000), sec, nsec) \<in> measure (\<lambda>(sec, nsec). unat nsec)"
    by simp
qed

function norm_borrow :: "s32 \<Rightarrow> s64 \<Rightarrow> s32 \<times> s64" where
  "norm_borrow sec nsec =
     (if nsec <s 0 then norm_borrow (sec - 1) (nsec + 1000000000) else (sec, nsec))"
  by pat_completeness auto

termination
proof (relation "measure (\<lambda>(sec, nsec). nat (- sint nsec))", simp)
  fix sec :: s32 and nsec :: s64
  assume "nsec <s 0"
  then have s: "sint nsec < 0" by (simp add: word_sless_alt)
  moreover have "- (2 ^ 63) \<le> sint nsec" using sint_ge [of nsec] by simp
  ultimately have "sint (nsec + 1000000000) = sint nsec + 1000000000"
    by (subst sint_plus) simp_all
  with s show "((sec - 1, nsec + 1000000000), sec, nsec) \<in> measure (\<lambda>(sec, nsec). nat (- sint nsec))"
    by simp
qed

declare norm_carry.simps [simp del] norm_borrow.simps [simp del]

definition set_normalized_timespec :: "s32 \<Rightarrow> s64 \<Rightarrow> timespec" where
  "set_normalized_timespec sec nsec =
     (let (sec, nsec) = norm_carry sec nsec;
          (sec, nsec) = norm_borrow sec nsec
      in \<lparr>tv_sec = sec, tv_nsec = ucast nsec\<rparr>)"

definition timespec_add :: "timespec \<Rightarrow> timespec \<Rightarrow> timespec" where
  "timespec_add lhs rhs =
     set_normalized_timespec (tv_sec lhs + tv_sec rhs) (scast (tv_nsec lhs + tv_nsec rhs))"

definition timespec_sub :: "timespec \<Rightarrow> timespec \<Rightarrow> timespec" where
  "timespec_sub lhs rhs =
     set_normalized_timespec (tv_sec lhs - tv_sec rhs) (scast (tv_nsec lhs - tv_nsec rhs))"

definition timespec_to_ns :: "timespec \<Rightarrow> s64" where
  "timespec_to_ns ts = scast (tv_sec ts) * 1000000000 + scast (tv_nsec ts)"

definition ns_to_timespec :: "s64 \<Rightarrow> timespec" where
  "ns_to_timespec nsec =
     (if nsec = 0 then \<lparr>tv_sec = 0, tv_nsec = 0\<rparr>
      else
        let (q, rem) = div_s64_rem nsec 1000000000;
            sec = (ucast q :: s32)
        in if rem <s 0 then \<lparr>tv_sec = sec - 1, tv_nsec = rem + 1000000000\<rparr>
           else \<lparr>tv_sec = sec, tv_nsec = rem\<rparr>)"

text \<open>\<open>ktime_t\<close>, scalar: nanoseconds in 64 bits. \<open>ktime_set\<close> takes its nanoseconds unsigned.\<close>

type_synonym ktime = s64

definition ktime_set :: "s32 \<Rightarrow> u32 \<Rightarrow> ktime" where
  "ktime_set secs nsecs = scast secs * 1000000000 + ucast nsecs"

definition timespec_to_ktime :: "timespec \<Rightarrow> ktime" where
  "timespec_to_ktime ts = ktime_set (tv_sec ts) (tv_nsec ts)"

definition KTIME_SEC_MAX :: s32 where
  "KTIME_SEC_MAX = 2147483647"

definition ktime_add_safe :: "ktime \<Rightarrow> ktime \<Rightarrow> ktime" where
  "ktime_add_safe lhs rhs =
     (let res = lhs + rhs in
      if res <s 0 \<or> res <s lhs \<or> res <s rhs then ktime_set KTIME_SEC_MAX 0 else res)"

text \<open>\<open>convert_to_usecs\<close> of \<open>kernel/sched.c\<close>: all in \<open>long\<close>, so the product wraps.\<close>

definition convert_to_usecs :: "timespec \<Rightarrow> s32" where
  "convert_to_usecs time = tv_sec time * 1000000 + s_div (tv_nsec time) 1000"

subsection \<open>The division is a division\<close>

lemma scaled_not_positive:
  fixes b :: u64
  assumes "\<not> 0 <s b" "0 < unat b"
  shows "2 ^ 63 \<le> unat b"
proof (rule ccontr)
  assume "\<not> 2 ^ 63 \<le> unat b"
  then have "sint b = int (unat b)" by (intro sint_of_unat) simp
  with assms show False by (simp only: word_sless_alt sint_0 of_nat_0_less_iff not_True_eq_False)
qed

lemma div64_scale_spec:
  assumes "div64_scale rem b d = (b', d')"
    and "unat d = 2 ^ j" and "unat b = B * 2 ^ j" and "0 < B"
  shows "\<exists>k. unat d' = 2 ^ k \<and> unat b' = B * 2 ^ k \<and> unat rem < 2 * unat b'"
  using assms
proof (induction rem b d arbitrary: j rule: div64_scale.induct)
  case (1 rem b d)
  have posb: "0 < unat b" using 1(4,5) by simp
  show ?case
  proof (cases "0 <s b \<and> b < rem")
    case True
    then have "0 < sint b" by (simp add: word_sless_alt)
    then have b63: "unat b < 2 ^ 63" using sint_nonneg_unat(1) [of b] by simp
    have "2 ^ j \<le> unat b" using 1(4,5) by simp
    then have "unat d < 2 ^ 63" using b63 1(3) by linarith
    then have "unat (d + d) = 2 ^ Suc j" using 1(3) by (subst unat_plus) simp_all
    moreover have "unat (b + b) = B * 2 ^ Suc j" using b63 1(4) by (subst unat_plus) simp_all
    moreover have "div64_scale rem (b + b) (d + d) = (b', d')"
      using 1(2) True by (simp add: div64_scale.simps [of rem b d])
    ultimately show ?thesis using 1(1) [OF True] 1(5) by blast
  next
    case False
    then have eq: "b' = b" "d' = d" using 1(2) by (auto simp: div64_scale.simps [of rem b d])
    have "unat rem < 2 * unat b"
    proof (cases "0 <s b")
      case True
      with False have "unat rem \<le> unat b" by (simp add: word_less_nat_alt)
      with posb show ?thesis by simp
    next
      case False
      then have "2 ^ 63 \<le> unat b" using posb by (rule scaled_not_positive)
      moreover have "unat rem < 2 ^ 64" using unat_lt64 [of rem] by simp
      ultimately show ?thesis by simp
    qed
    with eq 1(3,4) show ?thesis by blast
  qed
qed

lemma div64_sub_spec:
  assumes "unat d = 2 ^ k" and "unat b = B * 2 ^ k" and "unat rem < 2 * unat b"
    and "unat res * B + unat rem = N" and "N < 2 ^ 64" and "0 < B"
    and "div64_sub rem b d res = (q, r)"
  shows "unat q * B + unat r = N \<and> unat r < B"
  using assms
proof (induction k arbitrary: rem b d res)
  case 0
  have "unat (drop_bit 1 d) = 0" using 0(1) by (simp add: unat_half)
  then have d0: "drop_bit 1 d = 0" by (simp only: unat_eq_zero)
  show ?case
  proof (cases "b \<le> rem")
    case True
    then have "unat b \<le> unat rem" by (simp add: word_le_nat_alt)
    have "unat (rem - b) = unat rem - unat b" using True by (simp add: unat_sub)
    moreover have "unat res < 2 ^ 64 - 1"
    proof -
      have "unat res + 1 \<le> unat res * B + unat rem"
        using 0(2,6) \<open>unat b \<le> unat rem\<close> by (cases B) auto
      then show ?thesis using 0(4,5) by linarith
    qed
    then have "unat (res + d) = unat res + 1" using 0(1) by (subst unat_plus) simp_all
    ultimately show ?thesis
      using 0 d0 True \<open>unat b \<le> unat rem\<close> by (auto simp: div64_sub.simps [of rem b d res] algebra_simps)
  next
    case False
    then show ?thesis
      using 0 d0 by (auto simp: div64_sub.simps [of rem b d res] word_le_nat_alt)
  qed
next
  case (Suc k)
  have d': "unat (drop_bit 1 d) = 2 ^ k" using Suc(2) by (simp add: unat_half)
  then have dn: "drop_bit 1 d \<noteq> 0" by (metis power_not_zero unat_0 zero_neq_numeral)
  have b': "unat (drop_bit 1 b) = B * 2 ^ k" using Suc(3) by (simp add: unat_half)
  show ?case
  proof (cases "b \<le> rem")
    case True
    then have le: "unat b \<le> unat rem" by (simp add: word_le_nat_alt)
    have r: "unat (rem - b) = unat rem - unat b" using True by (simp add: unat_sub)
    have "unat res + unat d \<le> unat res * B + unat rem"
      using le Suc(2,3,7) by (cases B) auto
    then have q: "unat (res + d) = unat res + unat d" using Suc(5,6) by (intro unat_plus) simp
    have "unat (res + d) * B + unat (rem - b) = N"
      using q r le Suc(2,3,5) by (simp add: algebra_simps)
    moreover have "unat (rem - b) < 2 * unat (drop_bit 1 b)"
      using r le Suc(3,4) b' by simp
    moreover have "div64_sub (rem - b) (drop_bit 1 b) (drop_bit 1 d) (res + d) = (q, r)"
      using Suc(8) True dn by (simp add: div64_sub.simps [of rem b d res])
    ultimately show ?thesis using Suc(1) [OF d' b'] Suc(6,7) by blast
  next
    case False
    then have "unat rem < 2 * unat (drop_bit 1 b)" using b' Suc(3) by (simp add: word_le_nat_alt)
    moreover have "div64_sub rem (drop_bit 1 b) (drop_bit 1 d) res = (q, r)"
      using Suc(8) False dn by (simp add: div64_sub.simps [of rem b d res])
    ultimately show ?thesis using Suc(1) [OF d' b'] Suc(5,6,7) by blast
  qed
qed

text \<open>The first reduction of \<open>__div64_32\<close>: the upper half is divided in 32 bits.\<close>

lemma div64_reduce_spec:
  fixes n :: u64 and base :: u32
  assumes "0 < unat base" and "high = (ucast (drop_bit 32 n) :: u32)" and "base \<le> high"
  shows "unat (push_bit 32 (ucast (high div base)) :: u64) * unat base
         + unat (n - push_bit 32 (ucast ((high div base) * base))) = unat n"
proof -
  let ?H = "unat n div 2 ^ 32"
  let ?q = "unat (high div base)"
  have "unat n < 2 ^ 64" using unat_lt64 [of n] by simp
  then have "?H < 2 ^ 32" by (simp add: less_mult_imp_div_less)
  then have h: "unat high = ?H"
    by (simp only: assms(2)) (subst unat_ucast_small; simp add: unat_drop)
  then have q: "?q = ?H div unat base" by (simp add: unat_div_distrib)
  have qb: "?q * unat base \<le> ?H" by (simp add: q)
  then have "unat ((high div base) * base) = ?q * unat base"
    using \<open>?H < 2 ^ 32\<close> by (intro unat_times) simp
  then have m: "unat (push_bit 32 (ucast ((high div base) * base)) :: u64) = ?q * unat base * 2 ^ 32"
    using le_less_trans [OF qb \<open>?H < 2 ^ 32\<close>]
    by (subst unat_push_bit; simp add: unat_ucast_small mult.commute)
  have "?H * 2 ^ 32 \<le> unat n" by simp
  with qb have "?q * unat base * 2 ^ 32 \<le> unat n" by (meson mult_le_mono1 order_trans)
  with m have s: "unat (n - push_bit 32 (ucast ((high div base) * base))) = unat n - ?q * unat base * 2 ^ 32"
    by (simp add: unat_sub word_le_nat_alt)
  have "?q < 2 ^ 32" using unat_lt32 [of "high div base"] by simp
  then have "unat (push_bit 32 (ucast (high div base)) :: u64) = ?q * 2 ^ 32"
    by (subst unat_push_bit; simp add: unat_ucast_small)
  with s \<open>?q * unat base * 2 ^ 32 \<le> unat n\<close> show ?thesis by simp
qed

lemma div64_32_unat:
  assumes "base \<noteq> 0" and "div64_32 n base = (q, r)"
  shows "unat q = unat n div unat base" and "unat r = unat n mod unat base"
proof -
  let ?high = "ucast (drop_bit 32 n) :: u32"
  have B: "0 < unat base" using assms(1) by (simp add: unat_gt_0)
  obtain res rem :: u64 where red:
    "(if base \<le> ?high then
        (push_bit 32 (ucast (?high div base)), n - push_bit 32 (ucast ((?high div base) * base)))
      else (0, n)) = (res, rem)"
    by (cases "base \<le> ?high") auto
  have inv: "unat res * unat base + unat rem = unat n"
    using red div64_reduce_spec [OF B, of ?high n] by (auto split: if_splits)
  obtain b d where sc: "div64_scale rem (ucast base) 1 = (b, d)" by fastforce
  have "unat (ucast base :: u64) = unat base * 2 ^ 0"
    by simp
  then obtain k where k: "unat d = 2 ^ k" "unat b = unat base * 2 ^ k" "unat rem < 2 * unat b"
    using div64_scale_spec [OF sc, of 0 "unat base"] B by auto
  obtain q' r' where sub: "div64_sub rem b d res = (q', r')" by fastforce
  have "unat n < 2 ^ 64" using unat_lt64 [of n] by simp
  then have fin: "unat q' * unat base + unat r' = unat n" "unat r' < unat base"
    using div64_sub_spec [OF k inv _ B sub] by auto
  have "q = q'" "r = ucast r'"
    using assms(2) red sc sub by (auto simp: div64_32_def Let_def split: if_splits)
  moreover have "unat (ucast r' :: u32) = unat r'"
    using fin(2) unat_lt32 [of base] by (intro unat_ucast_small) simp
  moreover have "unat n div unat base = unat q'" "unat n mod unat base = unat r'"
    using fin by (auto simp flip: fin(1))
  ultimately show "unat q = unat n div unat base" and "unat r = unat n mod unat base"
    by simp_all
qed

lemma fst_div64_32_unat: "base \<noteq> 0 \<Longrightarrow> unat (fst (div64_32 n base)) = unat n div unat base"
  using div64_32_unat(1) [of base n] by (cases "div64_32 n base") simp

text \<open>
  C39. For every dividend and every nonzero divisor the shift-and-subtract loops of
  \<open>__div64_32\<close> compute exactly the quotient and remainder that \<open>do_div\<close> documents.
\<close>

theorem div64_32_is_do_div:
  assumes "base \<noteq> 0"
  shows "div64_32 n base = do_div n base"
proof -
  obtain q r where e: "div64_32 n base = (q, r)" by fastforce
  have b: "unat (ucast base :: u64) = unat base" by simp
  have "q = n div ucast base"
    using div64_32_unat(1) [OF assms e] b by (simp add: word_unat_eq_iff unat_div_distrib)
  moreover have "r = ucast (n mod ucast base)"
  proof (rule word_unat_eq_iff [THEN iffD2])
    have "unat n mod unat base < 2 ^ 32"
      using assms unat_lt32 [of base] by (meson mod_less_divisor order_less_trans unat_gt_0)
    then show "unat r = unat (ucast (n mod ucast base) :: u32)"
      using div64_32_unat(2) [OF assms e] b by (subst unat_ucast_small) (simp_all add: unat_mod_distrib)
  qed
  ultimately show ?thesis by (simp add: e do_div_def)
qed

theorem div64_32_is_do_div_witness: "div64_32 5000000000 7 = do_div 5000000000 7"
  by (rule div64_32_is_do_div) simp

subsection \<open>Normalisation\<close>

text \<open>The number of nanoseconds a \<open>timespec\<close> stands for, and the normal form of \<open>tv_nsec\<close>.\<close>

definition ts_ns :: "timespec \<Rightarrow> int" where
  "ts_ns ts = sint (tv_sec ts) * NSEC_PER_SEC + sint (tv_nsec ts)"

definition ts_normal :: "timespec \<Rightarrow> bool" where
  "ts_normal ts \<longleftrightarrow> 0 \<le> sint (tv_nsec ts) \<and> sint (tv_nsec ts) < NSEC_PER_SEC"

lemma norm_carry_spec:
  "0 \<le> sint nsec \<Longrightarrow>
   norm_carry sec nsec
     = (sec + word_of_int (sint nsec div NSEC_PER_SEC), word_of_int (sint nsec mod NSEC_PER_SEC))"
proof (induction sec nsec rule: norm_carry.induct)
  case (1 sec nsec)
  show ?case
  proof (cases "1000000000 \<le>s nsec")
    case True
    then have ge: "1000000000 \<le> sint nsec" by (simp add: word_sle_eq)
    then have d: "sint (nsec - 1000000000) = sint nsec - 1000000000"
      using sint_lt [of nsec] by (subst sint_minus) simp_all
    have dm: "(sint nsec - 1000000000) div 1000000000 + 1 = sint nsec div 1000000000"
      "(sint nsec - 1000000000) mod 1000000000 = sint nsec mod 1000000000"
      using div_add_self2 [of "1000000000::int" "sint nsec - 1000000000"]
        mod_add_self2 [of "sint nsec - 1000000000" 1000000000] by simp_all
    have "norm_carry sec nsec = norm_carry (sec + 1) (nsec - 1000000000)"
      using True by (simp add: norm_carry.simps [of sec nsec])
    also have "\<dots> = (sec + 1 + word_of_int ((sint nsec - 1000000000) div 1000000000),
                    word_of_int ((sint nsec - 1000000000) mod 1000000000))"
      using 1(1) [OF True] ge d by simp
    also have "\<dots> = (sec + word_of_int ((sint nsec - 1000000000) div 1000000000 + 1),
                    word_of_int (sint nsec mod 1000000000))"
      by (simp add: dm(2))
    finally show ?thesis by (simp only: dm(1))
  next
    case False
    then have "sint nsec < 1000000000" by (simp add: word_sle_eq)
    with 1(2) False show ?thesis
      by (simp add: norm_carry.simps [of sec nsec] mod_pos_pos_trivial div_pos_pos_trivial)
  qed
qed

lemma norm_carry_neg: "sint nsec < 0 \<Longrightarrow> norm_carry sec nsec = (sec, nsec)"
  by (simp add: norm_carry.simps [of sec nsec] word_sle_eq)

lemma norm_borrow_nonneg: "0 \<le> sint nsec \<Longrightarrow> norm_borrow sec nsec = (sec, nsec)"
  by (simp add: norm_borrow.simps [of sec nsec] word_sless_alt)

lemma norm_borrow_spec:
  "sint nsec < NSEC_PER_SEC \<Longrightarrow>
   norm_borrow sec nsec
     = (sec + word_of_int (sint nsec div NSEC_PER_SEC), word_of_int (sint nsec mod NSEC_PER_SEC))"
proof (induction sec nsec rule: norm_borrow.induct)
  case (1 sec nsec)
  show ?case
  proof (cases "nsec <s 0")
    case True
    then have lt: "sint nsec < 0" by (simp add: word_sless_alt)
    then have d: "sint (nsec + 1000000000) = sint nsec + 1000000000"
      using sint_ge [of nsec] by (subst sint_plus) simp_all
    have dm: "(sint nsec + 1000000000) div 1000000000 - 1 = sint nsec div 1000000000"
      "(sint nsec + 1000000000) mod 1000000000 = sint nsec mod 1000000000"
      by simp_all
    have "norm_borrow sec nsec = norm_borrow (sec - 1) (nsec + 1000000000)"
      using True by (simp add: norm_borrow.simps [of sec nsec])
    also have "\<dots> = (sec - 1 + word_of_int ((sint nsec + 1000000000) div 1000000000),
                    word_of_int ((sint nsec + 1000000000) mod 1000000000))"
      using 1(1) [OF True] lt d by simp
    also have "\<dots> = (sec + word_of_int ((sint nsec + 1000000000) div 1000000000 - 1),
                    word_of_int (sint nsec mod 1000000000))"
      by (simp add: dm(2))
    finally show ?thesis by (simp only: dm(1))
  next
    case False
    then have "0 \<le> sint nsec" by (simp add: word_sless_alt)
    with 1(2) show ?thesis
      by (simp add: norm_borrow_nonneg mod_pos_pos_trivial div_pos_pos_trivial)
  qed
qed

lemma nsec_word_small: "0 \<le> m \<Longrightarrow> m < NSEC_PER_SEC \<Longrightarrow> sint (word_of_int m :: s64) = m"
  by (rule sint_word_of_int) simp_all

lemma norm_borrow_small:
  "0 \<le> m \<Longrightarrow> m < NSEC_PER_SEC \<Longrightarrow> norm_borrow sec (word_of_int m) = (sec, word_of_int m)"
  by (rule norm_borrow_nonneg) (simp only: nsec_word_small)

text \<open>
  \<open>set_normalized_timespec\<close> in closed form, for every 64-bit nanosecond count: the loops carry
  its floor quotient into the seconds (modulo \<open>2 ^ 32\<close>, as the field wraps).
\<close>

lemma set_normalized_timespec_closed_form:
  "set_normalized_timespec sec nsec =
     \<lparr>tv_sec = sec + word_of_int (sint nsec div NSEC_PER_SEC),
      tv_nsec = word_of_int (sint nsec mod NSEC_PER_SEC)\<rparr>"
proof (cases "0 \<le> sint nsec")
  case True
  have "norm_borrow (sec + word_of_int (sint nsec div NSEC_PER_SEC)) (word_of_int (sint nsec mod NSEC_PER_SEC))
      = (sec + word_of_int (sint nsec div NSEC_PER_SEC), word_of_int (sint nsec mod NSEC_PER_SEC))"
    by (intro norm_borrow_small pos_mod_sign pos_mod_bound) simp_all
  then show ?thesis
    by (simp only: set_normalized_timespec_def norm_carry_spec [OF True] Let_def split ucast_word_of_int)
next
  case False
  then have "sint nsec < 0" "sint nsec < NSEC_PER_SEC" by simp_all
  then show ?thesis
    by (simp only: set_normalized_timespec_def norm_carry_neg norm_borrow_spec Let_def split ucast_word_of_int)
qed

subsection \<open>Nanoseconds and back\<close>

lemma do_div_int:
  assumes "0 \<le> N" "N < 2 ^ 64"
  shows "do_div (word_of_int N) 1000000000
       = (word_of_int (N div NSEC_PER_SEC), word_of_int (N mod NSEC_PER_SEC))"
proof -
  have u: "uint (word_of_int N :: u64) = N"
    using assms by (simp add: uint_word_of_int_eq take_bit_int_eq_self)
  have c: "(ucast (1000000000 :: u32) :: u64) = 1000000000" by simp
  have d: "(word_of_int N :: u64) div 1000000000 = word_of_int (N div NSEC_PER_SEC)"
    using u by (simp add: word_div_def)
  have m: "(word_of_int N :: u64) mod 1000000000 = word_of_int (N mod NSEC_PER_SEC)"
    using u by (simp add: word_mod_def)
  show ?thesis by (simp only: do_div_def c d m ucast_word_of_int)
qed

lemma floor_neg_nsec:
  fixes N :: int
  shows "(- N) div NSEC_PER_SEC = - (N div NSEC_PER_SEC) - (if N mod NSEC_PER_SEC = 0 then 0 else 1)"
    and "(- N) mod NSEC_PER_SEC = (if N mod NSEC_PER_SEC = 0 then 0 else NSEC_PER_SEC - N mod NSEC_PER_SEC)"
  by (simp_all add: zdiv_zminus1_eq_if zmod_zminus1_eq_if)

lemma neg_rem_sless:
  "0 \<le> m \<Longrightarrow> m < NSEC_PER_SEC \<Longrightarrow> (- word_of_int m :: s32) <s 0 \<longleftrightarrow> m \<noteq> 0"
proof -
  assume "0 \<le> m" "m < NSEC_PER_SEC"
  then have "sint (word_of_int (- m) :: s32) = - m" by (intro sint_word_of_int) simp_all
  then show ?thesis using \<open>0 \<le> m\<close> by (auto simp: word_sless_alt)
qed

lemma nonneg_rem_sless:
  "0 \<le> m \<Longrightarrow> m < NSEC_PER_SEC \<Longrightarrow> \<not> (word_of_int m :: s32) <s 0"
proof -
  assume "0 \<le> m" "m < NSEC_PER_SEC"
  then have "sint (word_of_int m :: s32) = m" by (intro sint_word_of_int) simp_all
  then show ?thesis using \<open>0 \<le> m\<close> by (simp add: word_sless_alt)
qed

lemma ns_to_timespec_neg:
  assumes "0 < N" "N < 2 ^ 64" "nsec = word_of_int (- N)" "sint nsec < 0"
  shows "ns_to_timespec nsec
       = \<lparr>tv_sec = word_of_int ((- N) div NSEC_PER_SEC), tv_nsec = word_of_int ((- N) mod NSEC_PER_SEC)\<rparr>"
proof -
  have q: "div_s64_rem nsec 1000000000
         = (- word_of_int (N div NSEC_PER_SEC), - word_of_int (N mod NSEC_PER_SEC))"
    using assms do_div_int [of N] by (simp add: div_s64_rem_def word_sless_alt)
  have "nsec \<noteq> 0" using assms(4) by auto
  define m where "m = N mod NSEC_PER_SEC"
  have m: "0 \<le> m" "m < NSEC_PER_SEC" unfolding m_def by simp_all
  show ?thesis
    using \<open>nsec \<noteq> 0\<close> neg_rem_sless [OF m]
    by (simp add: ns_to_timespec_def q floor_neg_nsec ucast_neg_word_of_int flip: m_def)
qed

lemma ns_to_timespec_nonneg:
  assumes "sint nsec = N" "0 \<le> N"
  shows "ns_to_timespec nsec
       = \<lparr>tv_sec = word_of_int (N div NSEC_PER_SEC), tv_nsec = word_of_int (N mod NSEC_PER_SEC)\<rparr>"
proof (cases "nsec = 0")
  case True
  with assms show ?thesis by (simp add: ns_to_timespec_def)
next
  case False
  have n: "nsec = word_of_int N" using assms(1) by auto
  have "N < 2 ^ 64" using sint_lt [of nsec] assms(1) by simp
  then have q: "div_s64_rem nsec 1000000000
         = (word_of_int (N div NSEC_PER_SEC), word_of_int (N mod NSEC_PER_SEC))"
    using assms do_div_int [of N] n by (simp add: div_s64_rem_def word_sless_alt)
  define m where "m = N mod NSEC_PER_SEC"
  have m: "0 \<le> m" "m < NSEC_PER_SEC" unfolding m_def by simp_all
  show ?thesis
    using False nonneg_rem_sless [OF m]
    by (simp add: ns_to_timespec_def q ucast_word_of_int flip: m_def)
qed

text \<open>
  \<open>ns_to_timespec\<close> splits every signed 64-bit count into floor seconds and a remainder in
  \<open>[0, 10^9)\<close>; the sign correction after the truncating division makes the remainder
  nonnegative.
\<close>

lemma ns_to_timespec_floor:
  "ns_to_timespec nsec =
     \<lparr>tv_sec = word_of_int (sint nsec div NSEC_PER_SEC),
      tv_nsec = word_of_int (sint nsec mod NSEC_PER_SEC)\<rparr>"
proof (cases "0 \<le> sint nsec")
  case True
  then show ?thesis by (rule ns_to_timespec_nonneg [OF refl])
next
  case False
  have "0 < - sint nsec" "- sint nsec < 2 ^ 64" using False sint_ge [of nsec] by simp_all
  then show ?thesis using ns_to_timespec_neg [of "- sint nsec" nsec] False by simp
qed

lemma sint_scast_up [simp]: "sint (scast (a :: s32) :: s64) = sint a"
  by (rule sint_up_scast) (simp add: is_up)

lemma sint32_bounds: "- 2147483648 \<le> sint (a :: s32)" "sint (a :: s32) < 2147483648"
  using sint_ge [of a] sint_lt [of a] by simp_all

lemma sint_wrap32:
  "- 2147483648 \<le> k \<Longrightarrow> k < 2147483648 \<Longrightarrow> sint (word_of_int k :: s32) = k"
  by (rule sint_word_of_int) simp_all

lemma sint_nsec_part:
  "sint (word_of_int (k mod NSEC_PER_SEC) :: s32) = k mod NSEC_PER_SEC"
  by (rule sint_wrap32; rule order_trans [OF _ pos_mod_sign] less_trans [OF pos_mod_bound]) simp_all

lemma ts_ns_normalized:
  assumes "- 2147483648 \<le> sint sec + sint nsec div NSEC_PER_SEC"
    and "sint sec + sint nsec div NSEC_PER_SEC < 2147483648"
  shows "ts_ns (set_normalized_timespec sec nsec) = sint sec * NSEC_PER_SEC + sint nsec"
    and "ts_normal (set_normalized_timespec sec nsec)"
proof -
  let ?r = "set_normalized_timespec sec nsec"
  have "tv_sec ?r = word_of_int (sint sec + sint nsec div NSEC_PER_SEC)"
    by (simp add: set_normalized_timespec_closed_form)
  then have s: "sint (tv_sec ?r) = sint sec + sint nsec div NSEC_PER_SEC"
    using assms by (simp only: sint_wrap32)
  have n: "sint (tv_nsec ?r) = sint nsec mod NSEC_PER_SEC"
    by (simp only: set_normalized_timespec_closed_form timespec.select_convs sint_nsec_part)
  have "(sint sec + sint nsec div NSEC_PER_SEC) * NSEC_PER_SEC + sint nsec mod NSEC_PER_SEC
      = sint sec * NSEC_PER_SEC + sint nsec"
    using div_mult_mod_eq [of "sint nsec" NSEC_PER_SEC] by (simp add: distrib_right)
  then show "ts_ns ?r = sint sec * NSEC_PER_SEC + sint nsec"
    by (simp only: ts_ns_def s n)
  show "ts_normal ?r" by (simp add: ts_normal_def n)
qed

lemma nsec_sum_carry:
  fixes x y :: int
  assumes "0 \<le> x" "x < NSEC_PER_SEC" "0 \<le> y" "y < NSEC_PER_SEC"
  shows "0 \<le> (x + y) div NSEC_PER_SEC" and "(x + y) div NSEC_PER_SEC \<le> 1"
    and "- 1 \<le> (x - y) div NSEC_PER_SEC" and "(x - y) div NSEC_PER_SEC \<le> 0"
proof -
  show "0 \<le> (x + y) div NSEC_PER_SEC" using assms by (simp add: pos_imp_zdiv_nonneg_iff)
  show "(x + y) div NSEC_PER_SEC \<le> 1"
    using zdiv_mono1 [of "x + y" "1999999999" NSEC_PER_SEC] assms by simp
  show "- 1 \<le> (x - y) div NSEC_PER_SEC"
    using zdiv_mono1 [of "- 1000000000" "x - y" NSEC_PER_SEC] assms by simp
  show "(x - y) div NSEC_PER_SEC \<le> 0"
    using zdiv_mono1 [of "x - y" "999999999" NSEC_PER_SEC] assms by simp
qed

definition timespec_valid :: "timespec \<Rightarrow> bool" where
  "timespec_valid ts \<longleftrightarrow> 0 \<le>s tv_sec ts \<and> tv_nsec ts < 1000000000"

lemma timespec_valid_normal:
  "timespec_valid ts \<longleftrightarrow> 0 \<le> sint (tv_sec ts) \<and> ts_normal ts"
proof -
  have "tv_nsec ts < 1000000000 \<longleftrightarrow> ts_normal ts"
  proof
    assume "tv_nsec ts < 1000000000"
    then have u: "unat (tv_nsec ts) < 1000000000" by (simp add: word_less_nat_alt)
    then have "sint (tv_nsec ts) = int (unat (tv_nsec ts))" by (intro sint_of_unat) simp
    with u show "ts_normal ts" unfolding ts_normal_def by linarith
  next
    assume n: "ts_normal ts"
    then have "sint (tv_nsec ts) = int (unat (tv_nsec ts))"
      by (intro sint_nonneg_unat) (simp add: ts_normal_def)
    with n have "unat (tv_nsec ts) < 1000000000" unfolding ts_normal_def by linarith
    then show "tv_nsec ts < 1000000000" by (simp add: word_less_nat_alt)
  qed
  then show ?thesis by (simp add: timespec_valid_def word_sle_eq)
qed

lemma timespec_add_exact:
  assumes "timespec_valid a" "timespec_valid b"
    and "sint (tv_sec a) + sint (tv_sec b) + 1 < 2147483648"
  shows "ts_ns (timespec_add a b) = ts_ns a + ts_ns b" and "ts_normal (timespec_add a b)"
proof -
  have v: "0 \<le> sint (tv_sec a)" "0 \<le> sint (tv_sec b)"
      "0 \<le> sint (tv_nsec a)" "sint (tv_nsec a) < NSEC_PER_SEC"
      "0 \<le> sint (tv_nsec b)" "sint (tv_nsec b) < NSEC_PER_SEC"
    using assms(1,2) by (simp_all add: timespec_valid_normal ts_normal_def)
  have n: "sint (tv_nsec a + tv_nsec b) = sint (tv_nsec a) + sint (tv_nsec b)"
    using v by (simp add: sint_plus)
  have s: "sint (tv_sec a + tv_sec b) = sint (tv_sec a) + sint (tv_sec b)"
    using v assms(3) by (simp add: sint_plus)
  have "ts_ns (timespec_add a b)
      = (sint (tv_sec a) + sint (tv_sec b)) * NSEC_PER_SEC + (sint (tv_nsec a) + sint (tv_nsec b))"
    and "ts_normal (timespec_add a b)"
    using ts_ns_normalized [of "tv_sec a + tv_sec b" "scast (tv_nsec a + tv_nsec b)"]
      nsec_sum_carry(1,2) [OF v(3-6)] v(1,2) assms(3)
    unfolding timespec_add_def sint_scast_up n s by linarith+
  then show "ts_ns (timespec_add a b) = ts_ns a + ts_ns b" and "ts_normal (timespec_add a b)"
    by (simp_all add: ts_ns_def algebra_simps)
qed

lemma timespec_sub_exact:
  assumes "timespec_valid a" "timespec_valid b"
  shows "ts_ns (timespec_sub a b) = ts_ns a - ts_ns b" and "ts_normal (timespec_sub a b)"
proof -
  have v: "0 \<le> sint (tv_sec a)" "0 \<le> sint (tv_sec b)"
      "0 \<le> sint (tv_nsec a)" "sint (tv_nsec a) < NSEC_PER_SEC"
      "0 \<le> sint (tv_nsec b)" "sint (tv_nsec b) < NSEC_PER_SEC"
    using assms by (simp_all add: timespec_valid_normal ts_normal_def)
  have n: "sint (tv_nsec a - tv_nsec b) = sint (tv_nsec a) - sint (tv_nsec b)"
    using v by (simp add: sint_minus)
  have s: "sint (tv_sec a - tv_sec b) = sint (tv_sec a) - sint (tv_sec b)"
    using v sint32_bounds [of "tv_sec a"] sint32_bounds [of "tv_sec b"] by (simp add: sint_minus)
  have "ts_ns (timespec_sub a b)
      = (sint (tv_sec a) - sint (tv_sec b)) * NSEC_PER_SEC + (sint (tv_nsec a) - sint (tv_nsec b))"
    and "ts_normal (timespec_sub a b)"
    using ts_ns_normalized [of "tv_sec a - tv_sec b" "scast (tv_nsec a - tv_nsec b)"]
      nsec_sum_carry(3,4) [OF v(3-6)] v(1,2) sint32_bounds [of "tv_sec a"] sint32_bounds [of "tv_sec b"]
    unfolding timespec_sub_def sint_scast_up n s by linarith+
  then show "ts_ns (timespec_sub a b) = ts_ns a - ts_ns b" and "ts_normal (timespec_sub a b)"
    by (simp_all add: ts_ns_def algebra_simps)
qed

text \<open>
  On valid operands \<open>timespec_add\<close> and \<open>timespec_sub\<close> are exact in nanoseconds and return a
  normalised value, as long as the sum of the seconds (and one carry) fits the field; the
  difference always fits. The budget accounting of the scheduler rests on these two.
\<close>

lemma timespec_add_sub_exact:
  assumes "timespec_valid a" "timespec_valid b"
    and "sint (tv_sec a) + sint (tv_sec b) + 1 < 2147483648"
  shows "ts_ns (timespec_add a b) = ts_ns a + ts_ns b \<and> ts_normal (timespec_add a b)
    \<and> ts_ns (timespec_sub a b) = ts_ns a - ts_ns b \<and> ts_normal (timespec_sub a b)"
  using timespec_add_exact [OF assms] timespec_sub_exact [OF assms(1,2)] by blast

lemma timespec_to_ns_int: "timespec_to_ns ts = word_of_int (ts_ns ts)"
  by (simp add: timespec_to_ns_def ts_ns_def)

lemma sint_timespec_to_ns: "sint (timespec_to_ns ts) = ts_ns ts"
  unfolding timespec_to_ns_int
proof (rule sint_word_of_int)
  have p: "(2 :: int) ^ (LENGTH(64) - 1) = 9223372036854775808" by simp
  show "- (2 ^ (LENGTH(64) - 1)) \<le> ts_ns ts" "ts_ns ts < 2 ^ (LENGTH(64) - 1)"
    using sint32_bounds [of "tv_sec ts"] sint32_bounds [of "tv_nsec ts"]
    unfolding p ts_ns_def by linarith+
qed

lemma ts_ns_split:
  assumes "ts_normal ts"
  shows "ts_ns ts div NSEC_PER_SEC = sint (tv_sec ts)"
    and "ts_ns ts mod NSEC_PER_SEC = sint (tv_nsec ts)"
proof -
  define r where "r = sint (tv_nsec ts)"
  have r: "0 \<le> r" "r < NSEC_PER_SEC" using assms by (simp_all add: ts_normal_def r_def)
  have e: "ts_ns ts = r + sint (tv_sec ts) * NSEC_PER_SEC" by (simp add: ts_ns_def r_def)
  show "ts_ns ts div NSEC_PER_SEC = sint (tv_sec ts)"
    unfolding e using div_mult_self1 [of NSEC_PER_SEC r "sint (tv_sec ts)"] div_pos_pos_trivial [OF r]
    by linarith
  show "ts_ns ts mod NSEC_PER_SEC = sint (tv_nsec ts)"
    unfolding e mod_mult_self1 mod_pos_pos_trivial [OF r] by (simp only: r_def)
qed

text \<open>
  Converting a normalised \<open>timespec\<close> (of either sign) to nanoseconds and back gives it back,
  and a nanosecond count whose seconds fit 32 bits survives the other way round.
\<close>

lemma timespec_ns_roundtrip:
  assumes "ts_normal ts"
    and "- 2147483648 \<le> sint n div NSEC_PER_SEC" "sint n div NSEC_PER_SEC < 2147483648"
  shows "ns_to_timespec (timespec_to_ns ts) = ts \<and> timespec_to_ns (ns_to_timespec n) = n"
proof
  show "ns_to_timespec (timespec_to_ns ts) = ts"
    using assms(1) by (simp add: ns_to_timespec_floor sint_timespec_to_ns ts_ns_split)
  have "ts_ns (ns_to_timespec n) = sint n div NSEC_PER_SEC * NSEC_PER_SEC + sint n mod NSEC_PER_SEC"
    by (simp only: ts_ns_def ns_to_timespec_floor timespec.select_convs sint_wrap32 [OF assms(2,3)]
        sint_nsec_part)
  then show "timespec_to_ns (ns_to_timespec n) = n"
    by (simp only: timespec_to_ns_int div_mult_mod_eq of_int_sint scast_id)
qed

lemma timespec_compare_order:
  assumes "ts_normal a" "ts_normal b"
  shows "0 <s timespec_compare a b \<longleftrightarrow> ts_ns b < ts_ns a"
    and "timespec_compare a b = 0 \<longleftrightarrow> ts_ns a = ts_ns b"
proof -
  have n: "sint (tv_nsec a - tv_nsec b) = sint (tv_nsec a) - sint (tv_nsec b)"
    using assms by (simp add: ts_normal_def sint_minus)
  have e: "tv_nsec a - tv_nsec b = 0 \<longleftrightarrow> sint (tv_nsec a) = sint (tv_nsec b)"
    by (simp add: word_eq_iff_signed)
  have lt: "ts_ns a < ts_ns b" if "sint (tv_sec a) < sint (tv_sec b)" "ts_normal a" "ts_normal b" for a b
    using that unfolding ts_ns_def ts_normal_def by linarith
  consider (less) "sint (tv_sec a) < sint (tv_sec b)" | (greater) "sint (tv_sec b) < sint (tv_sec a)"
    | (equal) "sint (tv_sec a) = sint (tv_sec b)" by linarith
  then have "(0 <s timespec_compare a b \<longleftrightarrow> ts_ns b < ts_ns a)
    \<and> (timespec_compare a b = 0 \<longleftrightarrow> ts_ns a = ts_ns b)"
  proof cases
    case less
    then have "timespec_compare a b = - 1" by (simp add: timespec_compare_def word_sless_alt)
    with lt [OF less assms] show ?thesis by (simp add: word_sless_alt)
  next
    case greater
    then have "timespec_compare a b = 1" by (simp add: timespec_compare_def word_sless_alt)
    with lt [OF greater assms(2,1)] show ?thesis by (simp add: word_sless_alt)
  next
    case equal
    then have "timespec_compare a b = tv_nsec a - tv_nsec b"
      by (simp add: timespec_compare_def word_sless_alt)
    with n e equal show ?thesis by (simp add: word_sless_alt ts_ns_def)
  qed
  then show "0 <s timespec_compare a b \<longleftrightarrow> ts_ns b < ts_ns a"
    and "timespec_compare a b = 0 \<longleftrightarrow> ts_ns a = ts_ns b" by simp_all
qed

subsection \<open>Microseconds\<close>

lemma unat_convert_to_usecs:
  assumes n: "ts_normal p" and sec: "0 \<le> sint (tv_sec p)" "sint (tv_sec p) < 2147"
  shows "int (unat (convert_to_usecs p)) = ts_ns p div 1000" "unat (convert_to_usecs p) < 2 ^ 31"
proof -
  define S N where "S = unat (tv_sec p)" and "N = unat (tv_nsec p)"
  have s: "sint (tv_sec p) = int S" "sint (tv_nsec p) = int N"
    using sint_nonneg_unat(2) [OF sec(1)] sint_nonneg_unat(2) [of "tv_nsec p"] n
    by (simp_all only: S_def N_def ts_normal_def)
  have S: "S < 2147" using sec(2) s(1) by simp
  have N: "N < 1000000000" using n s(2) by (simp add: ts_normal_def)
  have m: "unat (tv_sec p * 1000000) = S * 1000000"
    using S by (subst unat_times) (simp_all add: S_def)
  have d: "unat (s_div (tv_nsec p) 1000) = N div 1000"
    using N by (subst unat_s_div) (simp_all add: N_def)
  have N': "N div 1000 < 1000000" using N by (simp add: div_less_iff_less_mult)
  have u: "unat (convert_to_usecs p) = S * 1000000 + N div 1000"
    unfolding convert_to_usecs_def using S N' by (subst unat_plus) (simp_all add: m d)
  have "(int S * NSEC_PER_SEC + int N) div 1000 = int S * 1000000 + int N div 1000"
    using div_mult_self1 [of 1000 "int N" "int S * 1000000"] by (simp add: add.commute)
  then show "int (unat (convert_to_usecs p)) = ts_ns p div 1000"
    unfolding u ts_ns_def s by (simp add: zdiv_int)
  show "unat (convert_to_usecs p) < 2 ^ 31" using S N' by (simp add: u)
qed

text \<open>
  \<open>convert_to_usecs\<close> rounds a normalised time below 2147 seconds down to whole microseconds,
  and its 32-bit result wraps for longer ones: 2148 seconds come out negative.
\<close>

lemma convert_to_usecs_exact:
  assumes "ts_normal p" "0 \<le> sint (tv_sec p)" "sint (tv_sec p) < 2147"
  shows "sint (convert_to_usecs p) = ts_ns p div 1000 \<and>
    convert_to_usecs \<lparr>tv_sec = 2148, tv_nsec = 0\<rparr> <s 0"
proof
  note u = unat_convert_to_usecs [OF assms]
  have "sint (convert_to_usecs p) = int (unat (convert_to_usecs p))"
    by (rule sint_of_unat) (use u(2) in simp)
  then show "sint (convert_to_usecs p) = ts_ns p div 1000" by (simp only: u(1))
  show "convert_to_usecs \<lparr>tv_sec = 2148, tv_nsec = 0\<rparr> <s 0" by code_simp
qed

end
