(* ===== verification/HrTimer.thy ===== *)
theory HrTimer
  imports KTime
begin

unbundle bit_operations_syntax

text \<open>
  High-resolution timers as the real-time code uses them (\<open>kernel/hrtimer.c\<close>,
  \<open>include/linux/hrtimer.h\<close>): arming, cancelling and forwarding one timer. The red-black tree
  of a clock base is represented by the \<open>HRTIMER_STATE_ENQUEUED\<close> bit of the timer's own state,
  the reprogramming of the event device is left out. \<open>now\<close> is the reading of the base's clock
  and \<open>res\<close> its resolution.
\<close>

datatype timer_fn = NoFn | BudgetFn | PeriodFn

record hrtimer =
  h_state :: u32
  h_expires :: ktime
  h_soft :: ktime
  h_fn :: timer_fn

abbreviation (input) HRTIMER_STATE_INACTIVE :: u32 where "HRTIMER_STATE_INACTIVE \<equiv> 0"
abbreviation (input) HRTIMER_STATE_ENQUEUED :: u32 where "HRTIMER_STATE_ENQUEUED \<equiv> 1"
abbreviation (input) HRTIMER_STATE_CALLBACK :: u32 where "HRTIMER_STATE_CALLBACK \<equiv> 2"

datatype hrtimer_restart = HRTIMER_NORESTART | HRTIMER_RESTART

definition hrtimer_active :: "hrtimer \<Rightarrow> bool" where
  "hrtimer_active timer \<longleftrightarrow> h_state timer \<noteq> HRTIMER_STATE_INACTIVE"

definition hrtimer_is_queued :: "hrtimer \<Rightarrow> bool" where
  "hrtimer_is_queued timer \<longleftrightarrow> h_state timer AND HRTIMER_STATE_ENQUEUED \<noteq> 0"

definition hrtimer_callback_running :: "hrtimer \<Rightarrow> bool" where
  "hrtimer_callback_running timer \<longleftrightarrow> h_state timer AND HRTIMER_STATE_CALLBACK \<noteq> 0"

definition hrtimer_init :: "hrtimer \<Rightarrow> hrtimer" where
  "hrtimer_init timer = \<lparr>h_state = 0, h_expires = 0, h_soft = 0, h_fn = NoFn\<rparr>"

text \<open>\<open>__remove_hrtimer\<close>: off the queue if it is on it, and the new state in any case.\<close>

definition remove_hrtimer_to :: "hrtimer \<Rightarrow> u32 \<Rightarrow> hrtimer" where
  "remove_hrtimer_to timer newstate = timer\<lparr>h_state := newstate\<rparr>"

definition remove_hrtimer :: "hrtimer \<Rightarrow> int \<times> hrtimer" where
  "remove_hrtimer timer =
     (if hrtimer_is_queued timer
      then (1, remove_hrtimer_to timer (h_state timer AND HRTIMER_STATE_CALLBACK))
      else (0, timer))"

definition enqueue_hrtimer :: "hrtimer \<Rightarrow> hrtimer" where
  "enqueue_hrtimer timer = timer\<lparr>h_state := h_state timer OR HRTIMER_STATE_ENQUEUED\<rparr>"

definition hrtimer_set_expires_range_ns :: "hrtimer \<Rightarrow> ktime \<Rightarrow> ktime \<Rightarrow> hrtimer" where
  "hrtimer_set_expires_range_ns timer time delta =
     timer\<lparr>h_soft := time, h_expires := ktime_add_safe time delta\<rparr>"

text \<open>\<open>hrtimer_start(timer, tim, HRTIMER_MODE_REL)\<close>: relative to the clock, no slack.\<close>

definition hrtimer_start :: "ktime \<Rightarrow> hrtimer \<Rightarrow> ktime \<Rightarrow> int \<times> hrtimer" where
  "hrtimer_start now timer tim =
     (let (ret, timer) = remove_hrtimer timer;
          tim = ktime_add_safe tim now;
          timer = hrtimer_set_expires_range_ns timer tim 0
      in (ret, enqueue_hrtimer timer))"

definition hrtimer_try_to_cancel :: "hrtimer \<Rightarrow> int \<times> hrtimer" where
  "hrtimer_try_to_cancel timer =
     (if \<not> hrtimer_callback_running timer then remove_hrtimer timer else (- 1, timer))"

text \<open>
  \<open>hrtimer_cancel\<close> spins until the callback has finished. Seen from the caller alone, with
  nothing else running, a set callback bit stays set: the call does not return.
\<close>

definition hrtimer_cancel :: "hrtimer \<Rightarrow> (int \<times> hrtimer) option" where
  "hrtimer_cancel timer =
     (let (ret, timer) = hrtimer_try_to_cancel timer in
      if 0 \<le> ret then Some (ret, timer) else None)"

text \<open>
  The 64-bit division of \<open>ktime_divns\<close>: the divisor is shifted right, arithmetically, until
  its upper half is zero, which a negative one never is.
\<close>

partial_function (option) divns_shift :: "s64 \<Rightarrow> nat \<Rightarrow> (s64 \<times> nat) option" where
  "divns_shift d sft =
     (if signed_drop_bit 32 d \<noteq> 0 then divns_shift (signed_drop_bit 1 d) (sft + 1)
      else Some (d, sft))"

definition ktime_divns :: "ktime \<Rightarrow> s64 \<Rightarrow> u64 option" where
  "ktime_divns kt d = do {
     (d, sft) \<leftarrow> divns_shift d 0;
     Some (fst (do_div (drop_bit sft kt) (ucast d)))
   }"

definition hrtimer_add_expires :: "hrtimer \<Rightarrow> ktime \<Rightarrow> hrtimer" where
  "hrtimer_add_expires timer time =
     timer\<lparr>h_expires := ktime_add_safe (h_expires timer) time,
           h_soft := ktime_add_safe (h_soft timer) time\<rparr>"

definition hrtimer_add_expires_ns :: "hrtimer \<Rightarrow> u64 \<Rightarrow> hrtimer" where
  "hrtimer_add_expires_ns timer ns =
     timer\<lparr>h_expires := h_expires timer + ns, h_soft := h_soft timer + ns\<rparr>"

definition hrtimer_forward :: "ktime \<Rightarrow> hrtimer \<Rightarrow> ktime \<Rightarrow> ktime \<Rightarrow> (u64 \<times> hrtimer) option" where
  "hrtimer_forward res timer now interval =
     (let delta = now - h_expires timer in
      if delta <s 0 then Some (0, timer)
      else
        let interval = (if interval <s res then res else interval) in
        if interval \<le>s delta then do {
          orun \<leftarrow> ktime_divns delta interval;
          let timer = hrtimer_add_expires_ns timer (interval * orun) in
          if now <s h_expires timer then Some (orun, timer)
          else Some (orun + 1, hrtimer_add_expires timer interval)
        }
        else Some (1, hrtimer_add_expires timer interval))"

subsection \<open>Arming and cancelling\<close>

lemma and_callback_not_queued: "(s AND HRTIMER_STATE_CALLBACK) AND HRTIMER_STATE_ENQUEUED = 0"
proof -
  have "(s AND HRTIMER_STATE_CALLBACK) AND HRTIMER_STATE_ENQUEUED
      = s AND (HRTIMER_STATE_CALLBACK AND HRTIMER_STATE_ENQUEUED)"
    by (rule and.assoc)
  then show ?thesis by simp
qed

lemma remove_hrtimer_dequeues [simp]: "\<not> hrtimer_is_queued (snd (remove_hrtimer timer))"
  by (auto simp: remove_hrtimer_def remove_hrtimer_to_def hrtimer_is_queued_def and_callback_not_queued)

lemma remove_hrtimer_callback [simp]:
  "hrtimer_callback_running (snd (remove_hrtimer timer)) = hrtimer_callback_running timer"
  by (auto simp: remove_hrtimer_def remove_hrtimer_to_def hrtimer_callback_running_def and.assoc)

lemma remove_hrtimer_fields [simp]:
  "h_fn (snd (remove_hrtimer timer)) = h_fn timer"
  "h_expires (snd (remove_hrtimer timer)) = h_expires timer"
  by (simp_all add: remove_hrtimer_def remove_hrtimer_to_def)

lemma enqueue_hrtimer_queued [simp]: "hrtimer_is_queued (enqueue_hrtimer timer)"
proof -
  have "(h_state timer OR 1) AND 1 = (1 :: u32)"
    by (rule bit_eqI) (auto simp: bit_simps)
  then show ?thesis by (simp add: enqueue_hrtimer_def hrtimer_is_queued_def)
qed

lemma hrtimer_cancel_cases:
  "hrtimer_cancel timer =
     (if hrtimer_callback_running timer then None else Some (remove_hrtimer timer))"
  by (auto simp: hrtimer_cancel_def hrtimer_try_to_cancel_def remove_hrtimer_def Let_def)

subsection \<open>Forwarding\<close>

lemma sint_sdrop: "sint (signed_drop_bit n (d :: s64)) = sint d div 2 ^ n"
  by (simp add: sint_signed_drop_bit_eq drop_bit_eq_div)

lemma sdrop_nonneg:
  fixes d :: s64
  assumes "0 \<le> sint d"
  shows "0 \<le> sint (signed_drop_bit n d)" "unat (signed_drop_bit n d) = unat d div 2 ^ n"
proof -
  show n: "0 \<le> sint (signed_drop_bit n d)"
    using assms by (simp only: sint_sdrop) (rule pos_imp_zdiv_nonneg_iff [THEN iffD2], simp_all)
  have "int (unat (signed_drop_bit n d)) = int (unat d) div 2 ^ n"
    by (simp only: sint_sdrop flip: sint_nonneg_unat(2) [OF n] sint_nonneg_unat(2) [OF assms])
  also have "\<dots> = int (unat d div 2 ^ n)" by (simp only: zdiv_int of_nat_power of_nat_numeral)
  finally show "unat (signed_drop_bit n d) = unat d div 2 ^ n" by (simp only: of_nat_eq_iff)
qed

lemma divns_shift_spec:
  "0 \<le> sint d \<Longrightarrow>
   \<exists>d' k. divns_shift d sft = Some (d', sft + k) \<and> unat d' = unat d div 2 ^ k \<and>
          unat d' < 2 ^ 32 \<and> (0 < k \<longrightarrow> 2 ^ 31 \<le> unat d')"
proof (induction "unat d" arbitrary: d sft rule: less_induct)
  case less
  have u: "unat (signed_drop_bit 32 d) = unat d div 2 ^ 32"
    using sdrop_nonneg(2) [OF less.prems, of 32] .
  show ?case
  proof (cases "signed_drop_bit 32 d = 0")
    case True
    then have "unat d < 2 ^ 32" using u by (simp add: div_eq_0_iff)
    with True show ?thesis by (intro exI [of _ d] exI [of _ 0]) (simp add: divns_shift.simps)
  next
    case False
    then have "unat d div 2 ^ 32 \<noteq> 0" by (metis u unat_eq_zero)
    then have big: "2 ^ 32 \<le> unat d" by (simp add: div_eq_0_iff)
    define e where "e = signed_drop_bit 1 d"
    have e: "0 \<le> sint e" "unat e = unat d div 2"
      using sdrop_nonneg [OF less.prems, of 1] by (simp_all add: e_def)
    have half: "2 ^ 31 \<le> unat e" using e(2) big by simp
    have "unat e < unat d" using e(2) big by simp
    from less.hyps [OF this e(1), of "sft + 1"]
    obtain d' k where k: "divns_shift e (sft + 1) = Some (d', sft + 1 + k)"
      "unat d' = unat e div 2 ^ k" "unat d' < 2 ^ 32" "0 < k \<longrightarrow> 2 ^ 31 \<le> unat d'" by blast
    have "divns_shift d sft = Some (d', sft + Suc k)"
      using False k(1) by (subst divns_shift.simps) (simp add: e_def)
    moreover have "unat d' = unat d div 2 ^ Suc k"
      by (simp only: k(2) e(2) power_Suc div_mult2_eq)
    moreover have "2 ^ 31 \<le> unat d'"
      using k(2,4) half by (cases k) simp_all
    ultimately show ?thesis using k(3) by blast
  qed
qed

text \<open>The shifted quotient is never below the exact one, and at most twice its size.\<close>

lemma shifted_quotient:
  fixes a b k :: nat
  assumes "0 < b div 2 ^ k"
  shows "a div b \<le> (a div 2 ^ k) div (b div 2 ^ k)"
    and "b * ((a div 2 ^ k) div (b div 2 ^ k)) \<le> 2 * a"
proof -
  define p where "p = (2 :: nat) ^ k"
  define c where "c = b div p"
  have p: "0 < p" by (simp add: p_def)
  have c: "0 < c" using assms by (simp add: c_def p_def)
  have "c * p \<le> b" by (simp add: c_def)
  then have "a div b * c * p \<le> a div b * b" by (simp add: mult.assoc)
  also have "\<dots> \<le> a" by simp
  finally have "a div b * c \<le> a div p" using p by (simp add: less_eq_div_iff_mult_less_eq)
  then show "a div b \<le> (a div 2 ^ k) div (b div 2 ^ k)"
    using c by (simp add: less_eq_div_iff_mult_less_eq c_def p_def)
  have "b = c * p + b mod p" by (simp add: c_def)
  moreover have "b mod p < p" using p by simp
  moreover have "p \<le> c * p" using c by simp
  ultimately have "b \<le> 2 * (c * p)" by linarith
  then have "b * (a div p div c) \<le> 2 * (c * p) * (a div p div c)" by (rule mult_right_mono) simp
  also have "\<dots> = 2 * (p * (c * (a div p div c)))" by (simp add: ac_simps)
  also have "\<dots> \<le> 2 * (p * (a div p))" by simp
  also have "\<dots> \<le> 2 * a" by simp
  finally show "b * ((a div 2 ^ k) div (b div 2 ^ k)) \<le> 2 * a" by (simp add: c_def p_def)
qed

lemma ktime_divns_spec:
  assumes "0 < sint d"
  shows "\<exists>q. ktime_divns kt d = Some q \<and> unat kt div unat d \<le> unat q \<and>
             unat d * unat q \<le> 2 * unat kt \<and> (unat d < 2 ^ 32 \<longrightarrow> unat q = unat kt div unat d)"
proof -
  have d: "0 < unat d" using assms sint_nonneg_unat(2) [of d] by linarith
  from assms have nn: "0 \<le> sint d" by simp
  from divns_shift_spec [OF nn, of 0]
  obtain d' k where k: "divns_shift d 0 = Some (d', k)" "unat d' = unat d div 2 ^ k"
    "unat d' < 2 ^ 32" "0 < k \<longrightarrow> 2 ^ 31 \<le> unat d'" by auto
  have pos: "0 < unat d div 2 ^ k"
  proof (cases "k = 0")
    case False
    with k(4) have "2 ^ 31 \<le> unat d'" by simp
    then show ?thesis unfolding k(2) by (rule less_le_trans [rotated]) simp
  qed (use d in simp)
  define q where "q = fst (do_div (drop_bit k kt) (ucast d'))"
  have q: "unat q = unat kt div 2 ^ k div (unat d div 2 ^ k)"
    using k(3) by (simp add: q_def do_div_def unat_div_distrib unat_drop unat_ucast_small k(2))
  have "k = 0" if "unat d < 2 ^ 32"
  proof (rule ccontr)
    assume "k \<noteq> 0"
    then have "2 ^ 31 \<le> unat d div 2 ^ k" using k(2,4) by simp
    then have "2 ^ 31 * 2 ^ k \<le> unat d" by (simp add: less_eq_div_iff_mult_less_eq)
    moreover have "(2 :: nat) ^ 31 * 2 ^ 1 \<le> 2 ^ 31 * 2 ^ k"
      using \<open>k \<noteq> 0\<close> by (intro mult_left_mono power_increasing) simp_all
    ultimately show False using that by simp
  qed
  then have exact: "unat d < 2 ^ 32 \<longrightarrow> unat q = unat kt div unat d" by (simp add: q)
  have "ktime_divns kt d = Some q" by (simp add: ktime_divns_def k(1) q_def)
  with exact shifted_quotient [OF pos, of "unat kt"] show ?thesis
    by (intro exI [of _ q] conjI) (simp_all only: q)
qed

lemma ktime_add_safe_exact:
  assumes "0 \<le> sint a" "0 \<le> sint b" "sint a + sint b < 2 ^ 63"
  shows "sint (ktime_add_safe a b) = sint a + sint b"
proof -
  have "sint (a + b) = sint a + sint b" using assms by (intro sint_plus) simp_all
  with assms show ?thesis by (simp add: ktime_add_safe_def Let_def word_sless_alt)
qed

lemma sint_of_unat64: "unat (a :: s64) < 2 ^ 63 \<Longrightarrow> sint a = int (unat a)"
  using sint_of_unat [of a] by simp

lemma forward_quotient:
  fixes e i q n :: int
  assumes "(n - e) div i \<le> q" "e + i * q \<le> n" "0 < i"
  shows "n < e + i * (q + 1)" "q = (n - e) div i"
proof -
  have "i * q \<le> n - e" using assms(2) by simp
  then have "i * q div i \<le> (n - e) div i" using assms(3) by (rule zdiv_mono1)
  then have "q \<le> (n - e) div i" using assms(3) by simp
  then show q: "q = (n - e) div i" using assms(1) by simp
  have "n - e < i * ((n - e) div i) + i"
    using pos_mod_bound [OF assms(3), of "n - e"] mult_div_mod_eq [of i "n - e"] by linarith
  then show "n < e + i * (q + 1)" unfolding q by (simp add: distrib_left)
qed

text \<open>A timer that is overdue by at least an interval.\<close>

lemma hrtimer_forward_overdue:
  fixes timer :: hrtimer and now iv :: ktime
  defines "e \<equiv> h_expires timer"
  assumes e: "0 \<le> sint e" and n: "sint now < 2 ^ 61" and i: "0 < sint iv" "sint iv < 2 ^ 61"
    and late: "sint iv \<le> sint now - sint e" and res: "\<not> iv <s res"
  shows "\<exists>orun timer'. hrtimer_forward res timer now iv = Some (orun, timer') \<and>
           sint now < sint (h_expires timer') \<and>
           sint (h_expires timer') = sint e + sint iv * int (unat orun) \<and>
           (sint iv < 2 ^ 32 \<longrightarrow> sint (h_expires timer') \<le> sint now + sint iv)"
proof -
  define dl where "dl = now - e"
  have dl: "sint dl = sint now - sint e" unfolding dl_def using e n late i by (intro sint_minus) simp_all
  have dlu: "sint dl = int (unat dl)" using dl late i by (intro sint_nonneg_unat) simp
  have ivu: "sint iv = int (unat iv)" using i by (intro sint_nonneg_unat) simp
  from ktime_divns_spec [OF i(1), of dl]
  obtain q where q: "ktime_divns dl iv = Some q" "unat dl div unat iv \<le> unat q"
    "unat iv * unat q \<le> 2 * unat dl" "unat iv < 2 ^ 32 \<longrightarrow> unat q = unat dl div unat iv" by blast
  have "int (unat dl) < int (2 ^ 61)" using dl dlu e n by (simp del: of_nat_unat)
  then have ub: "unat dl < 2 ^ 61" by (simp only: of_nat_less_iff)
  then have "unat iv * unat q < 2 ^ 62" using q(3) by simp
  then have pu: "unat (iv * q) = unat iv * unat q" by (intro unat_times) simp
  have ps: "sint (iv * q) = sint iv * int (unat q)"
    using \<open>unat iv * unat q < 2 ^ 62\<close> by (subst sint_of_unat64) (simp_all add: pu ivu)
  have "int (unat iv * unat q) \<le> int (2 * unat dl)" using q(3) by (simp only: of_nat_le_iff)
  then have pb: "sint iv * int (unat q) \<le> 2 * (sint now - sint e)"
    unfolding dl [symmetric] dlu ivu by (simp only: of_nat_mult of_nat_numeral)
  have pb0: "0 \<le> sint iv * int (unat q)" using i by simp
  define t1 where "t1 = hrtimer_add_expires_ns timer (iv * q)"
  have s1: "sint (h_expires t1) = sint e + sint iv * int (unat q)"
  proof -
    have "0 \<le> sint e + sint (iv * q)" using e pb0 ps by linarith
    moreover have "sint e + sint (iv * q) < 2 ^ 62"
      using e n pb ps by (simp del: of_nat_unat)
    ultimately have "sint (e + iv * q) = sint e + sint (iv * q)" by (intro sint_plus) simp_all
    then show ?thesis by (simp add: t1_def hrtimer_add_expires_ns_def e_def ps)
  qed
  have dq: "(sint now - sint e) div sint iv \<le> int (unat q)"
    using q(2) unfolding dl [symmetric] dlu ivu by (simp only: of_nat_le_iff flip: zdiv_int)
  show ?thesis
  proof (cases "now <s h_expires t1")
    case True
    have "hrtimer_forward res timer now iv = Some (q, t1)"
      using True q(1) res late i dl
      by (simp add: hrtimer_forward_def Let_def e_def [symmetric] dl_def [symmetric] t1_def
          word_sless_alt word_sle_eq)
    moreover have "sint now < sint (h_expires t1)" using True by (simp add: word_sless_alt)
    moreover have "\<not> sint iv < 2 ^ 32"
    proof
      assume "sint iv < 2 ^ 32"
      then have "int (unat iv) < int (2 ^ 32)" using ivu by (simp del: of_nat_unat)
      then have "unat iv < 2 ^ 32" by (simp only: of_nat_less_iff)
      then have "unat iv * unat q \<le> unat dl" using q(4) by simp
      then have "sint iv * int (unat q) \<le> sint dl"
        unfolding dlu ivu by (simp only: of_nat_le_iff flip: of_nat_mult)
      with s1 dl \<open>sint now < sint (h_expires t1)\<close> show False by linarith
    qed
    ultimately show ?thesis using s1 by blast
  next
    case False
    then have le: "sint e + sint iv * int (unat q) \<le> sint now"
      using s1 by (simp add: word_sless_alt not_less)
    note fq = forward_quotient [OF dq le i(1)]
    define t2 where "t2 = hrtimer_add_expires t1 iv"
    have s2: "sint (h_expires t2) = sint e + sint iv * int (unat q) + sint iv"
      unfolding t2_def hrtimer_add_expires_def using s1 e n i pb0 le
      by (simp add: ktime_add_safe_exact)
    have q1: "int (unat (q + 1)) = int (unat q) + 1"
    proof -
      have "int (unat q) = int (unat dl div unat iv)"
        by (simp only: fq(2) dl [symmetric] dlu ivu zdiv_int)
      then have "unat q \<le> unat dl" by (simp only: of_nat_eq_iff div_le_dividend)
      then show ?thesis using ub by (subst unat_plus) (simp_all del: of_nat_unat)
    qed
    have "hrtimer_forward res timer now iv = Some (q + 1, t2)"
      using False q(1) res late i dl
      by (simp add: hrtimer_forward_def Let_def e_def [symmetric] dl_def [symmetric] t1_def t2_def
          word_sless_alt word_sle_eq)
    moreover have "sint now < sint (h_expires t2)"
      using fq(1) s2 by (simp only: distrib_left mult_1_right)
    moreover have "sint (h_expires t2) = sint e + sint iv * int (unat (q + 1))"
      by (simp only: s2 q1 distrib_left mult_1_right add.assoc)
    moreover have "sint (h_expires t2) \<le> sint now + sint iv" using s2 le by simp
    ultimately show ?thesis by blast
  qed
qed

text \<open>A timer that has expired by less than an interval, or not at all.\<close>

lemma hrtimer_forward_recent:
  fixes timer :: hrtimer and now iv :: ktime
  defines "e \<equiv> h_expires timer"
  assumes e: "0 \<le> sint e" "sint e \<le> sint now" and n: "sint now < 2 ^ 61"
    and i: "0 < sint iv" "sint iv < 2 ^ 61"
    and late: "sint now - sint e < sint iv" and res: "\<not> iv <s res"
  shows "hrtimer_forward res timer now iv = Some (1, hrtimer_add_expires timer iv)"
    and "sint (h_expires (hrtimer_add_expires timer iv)) = sint e + sint iv"
proof -
  have dl: "sint (now - e) = sint now - sint e" using e n i by (intro sint_minus) simp_all
  show "hrtimer_forward res timer now iv = Some (1, hrtimer_add_expires timer iv)"
    using e late res
    by (simp add: hrtimer_forward_def Let_def e_def [symmetric] word_sless_alt word_sle_eq dl)
  show "sint (h_expires (hrtimer_add_expires timer iv)) = sint e + sint iv"
    using e n i by (simp add: hrtimer_add_expires_def e_def [symmetric] ktime_add_safe_exact)
qed

lemma hrtimer_forward_future:
  assumes "0 \<le> sint now" "sint now < sint (h_expires timer)"
  shows "hrtimer_forward res timer now iv = Some (0, timer)"
proof -
  have "sint (now - h_expires timer) = sint now - sint (h_expires timer)"
    using assms sint_less [of "h_expires timer"] by (intro sint_minus) simp_all
  with assms show ?thesis by (simp add: hrtimer_forward_def Let_def word_sless_alt)
qed

lemma hrtimer_forward_grid:
  fixes timer :: hrtimer and now iv res :: ktime
  assumes e: "0 \<le> sint (h_expires timer)" and n: "0 \<le> sint now" "sint now < 2 ^ 61"
    and i: "0 < sint iv" "sint iv < 2 ^ 61" and res: "\<not> iv <s res"
  shows "\<exists>orun timer'. hrtimer_forward res timer now iv = Some (orun, timer') \<and>
           sint now < sint (h_expires timer') \<and>
           sint (h_expires timer') = sint (h_expires timer) + sint iv * int (unat orun) \<and>
           (sint iv < 2 ^ 32 \<longrightarrow>
              sint (h_expires timer') \<le> max (sint (h_expires timer)) (sint now + sint iv))"
proof -
  consider (future) "sint now < sint (h_expires timer)"
    | (recent) "sint (h_expires timer) \<le> sint now" "sint now - sint (h_expires timer) < sint iv"
    | (overdue) "sint iv \<le> sint now - sint (h_expires timer)"
    by linarith
  then show ?thesis
  proof cases
    case future
    with hrtimer_forward_future [OF n(1) future] show ?thesis by simp
  next
    case recent
    note r = hrtimer_forward_recent [OF e recent(1) n(2) i recent(2) res]
    show ?thesis using recent r(2) by (simp add: r(1))
  next
    case overdue
    from hrtimer_forward_overdue [OF e n(2) i overdue res] show ?thesis
      by (metis max.coboundedI2)
  qed
qed

text \<open>
  C25. Forwarding a timer always comes back and always moves the expiry past \<open>now\<close>, on the
  grid of the interval, by the number of intervals it returns; an interval below \<open>2 ^ 32\<close>
  nanoseconds, for which the division is exact, lands on the first grid point after \<open>now\<close>.
  This is what \<open>period_timer_callback\<close> relies on when it restarts itself: the shifted,
  approximate division of \<open>ktime_divns\<close> never leaves the expiry in the past.
\<close>

theorem hrtimer_forward_past_now:
  fixes timer :: hrtimer and now iv res :: ktime
  assumes e: "0 \<le> sint (h_expires timer)" and n: "0 \<le> sint now" "sint now < 2 ^ 61"
    and i: "0 < sint iv" "sint iv < 2 ^ 61" and res: "\<not> iv <s res"
  shows "\<exists>orun timer'. hrtimer_forward res timer now iv = Some (orun, timer') \<and>
           sint now < sint (h_expires timer') \<and>
           sint (h_expires timer') = sint (h_expires timer) + sint iv * int (unat orun) \<and>
           (sint iv < 2 ^ 32 \<longrightarrow>
              sint (h_expires timer') \<le> max (sint (h_expires timer)) (sint now + sint iv))"
  using assms by (rule hrtimer_forward_grid)

theorem hrtimer_forward_past_now_witness:
  "\<exists>orun timer'. hrtimer_forward 1 \<lparr>h_state = 2, h_expires = 1000, h_soft = 1000, h_fn = PeriodFn\<rparr>
        20000000000 6000000000 = Some (orun, timer') \<and>
     20000000000 < sint (h_expires timer') \<and>
     sint (h_expires timer') = 1000 + 6000000000 * int (unat orun)"
  using hrtimer_forward_past_now
      [of "\<lparr>h_state = 2, h_expires = 1000, h_soft = 1000, h_fn = PeriodFn\<rparr>" 20000000000 6000000000 1]
  by (simp add: word_sless_alt)

end
