(* ===== verification/Kernel.thy ===== *)
theory Kernel
  imports KList HrTimer
begin

unbundle bit_operations_syntax

text \<open>
  The kernel state the real-time extensions work on: the fields they add to
  \<open>struct task_struct\<close> and the scheduler fields they read or write
  (\<open>include/linux/sched.h\<close>), the globals of \<open>kernel/sched.c\<close>, the task list and its lock,
  the per-task spin lock, the clocks and the \<open>cpufreq\<close> policies; and the kernel services the
  extensions call: waking a task, changing its policy, setting its affinity, looking it up.

  A task structure is named by a \<open>tid\<close> (its address). \<open>thread_group\<close> lists the other
  threads of a task in the order \<open>next_thread\<close> visits them, so
  \<open>do { ... } while_each_thread(g, t)\<close> is a fold over \<open>g # thread_group g\<close>.
\<close>

subsection \<open>Task structures\<close>

datatype sched_class = FairClass | RtClass | StopClass

text \<open>
  The log buffer of a task: unset, \<open>size\<close> bytes of \<open>vmalloc\<close> memory holding the data points
  written so far, or memory already given back to \<open>vfree\<close>.
\<close>

datatype logbuf = NoBuf | Buf u32 "nat \<Rightarrow> timespec option" | Freed

record task_struct =
  pid :: int
  tgid :: int
  comm :: string
  group_leader :: tid
  state :: u32
  need_resched :: bool
  on_rq :: bool
  on_cpu :: int
  mm :: bool
  thread_bound :: bool
  is_stop :: bool
  cpus_allowed :: u32
  policy :: int
  sched_reset_on_fork :: bool
  static_prio :: int
  normal_prio :: int
  prio :: int
  rt_priority :: int
  sched_class :: sched_class
  pi_waiter :: "int option"
  compute_time :: timespec
  exec_time :: timespec
  budget_time :: timespec
  budget_timer :: hrtimer
  time_period :: timespec
  is_budget_set :: int
  task_spin_lock :: bool
  period_timer :: hrtimer
  user_pid :: int
  buf :: logbuf
  is_log_enabled :: int
  buf_offset :: s32
  no_data_points :: s32
  min_budget_time :: timespec
  pmclock_freq :: u32
  alpha :: u32
  cpu_no :: int
  has_freq_lock :: int

abbreviation (input) TASK_RUNNING :: u32 where "TASK_RUNNING \<equiv> 0"
abbreviation (input) TASK_INTERRUPTIBLE :: u32 where "TASK_INTERRUPTIBLE \<equiv> 1"
abbreviation (input) TASK_UNINTERRUPTIBLE :: u32 where "TASK_UNINTERRUPTIBLE \<equiv> 2"
abbreviation (input) TASK_WAKING :: u32 where "TASK_WAKING \<equiv> 256"
abbreviation (input) TASK_ALL :: u32 where "TASK_ALL \<equiv> 15"

abbreviation (input) SCHED_NORMAL :: int where "SCHED_NORMAL \<equiv> 0"
abbreviation (input) SCHED_FIFO :: int where "SCHED_FIFO \<equiv> 1"
abbreviation (input) SCHED_RR :: int where "SCHED_RR \<equiv> 2"
abbreviation (input) SCHED_BATCH :: int where "SCHED_BATCH \<equiv> 3"
abbreviation (input) SCHED_IDLE :: int where "SCHED_IDLE \<equiv> 5"

abbreviation (input) MAX_RT_PRIO :: int where "MAX_RT_PRIO \<equiv> 100"
abbreviation (input) MAX_USER_RT_PRIO :: int where "MAX_USER_RT_PRIO \<equiv> 100"

abbreviation (input) EPERM :: int where "EPERM \<equiv> 1"
abbreviation (input) ESRCH :: int where "ESRCH \<equiv> 3"
abbreviation (input) EFAULT :: int where "EFAULT \<equiv> 14"
abbreviation (input) EINVAL :: int where "EINVAL \<equiv> 22"

subsection \<open>The kernel state\<close>

datatype rwlock = Unlocked | Readers nat | Writer

record cpufreq_policy =
  cpuinfo_max_freq :: u32
  pol_min :: u32
  pol_max :: u32
  pol_cur :: u32

text \<open>Calls that leave the modelled part, in the order they are made (latest first).\<close>

datatype kevent =
    DriverTarget nat u32
  | SendSig tid int

record kst =
  tasks :: "tid \<Rightarrow> task_struct"
  pid_task :: "int \<Rightarrow> tid option"
  thread_group :: "tid \<Rightarrow> tid list"
  process_list :: "tid list"
  current :: tid
  tasklist_lock :: rwlock
  lists :: heap
  periodic_tasks_size :: int
  per_cpu_list_size :: "nat \<Rightarrow> int"
  cpu_util :: "nat \<Rightarrow> s32"
  bin_packing_scheme :: int
  is_bin_packing_set :: int
  global_sysclock :: int
  power_scheme :: int
  is_freq_lock_taken :: int
  mono_clock :: ktime
  raw_clock :: timespec
  freq_table :: "u32 list"
  cpufreq :: "nat \<Rightarrow> cpufreq_policy option"
  policy_refs :: "nat \<Rightarrow> nat"
  cpu_active_mask :: u32
  cpuset_allowed :: "tid \<Rightarrow> u32"
  sched_permitted :: "tid \<Rightarrow> bool"
  security_retval :: "tid \<Rightarrow> int"
  events :: "kevent list"

definition upd_task :: "tid \<Rightarrow> (task_struct \<Rightarrow> task_struct) \<Rightarrow> kst \<Rightarrow> kst" where
  "upd_task t f s = s\<lparr>tasks := (tasks s)(t := f (tasks s t))\<rparr>"

lemma tasks_upd_task [simp]:
  "tasks (upd_task t f s) u = (if u = t then f (tasks s t) else tasks s u)"
  by (simp add: upd_task_def)

lemma upd_task_frame [simp]:
  "pid_task (upd_task t f s) = pid_task s"
  "thread_group (upd_task t f s) = thread_group s"
  "process_list (upd_task t f s) = process_list s"
  "current (upd_task t f s) = current s"
  "tasklist_lock (upd_task t f s) = tasklist_lock s"
  "lists (upd_task t f s) = lists s"
  "periodic_tasks_size (upd_task t f s) = periodic_tasks_size s"
  "per_cpu_list_size (upd_task t f s) = per_cpu_list_size s"
  "cpu_util (upd_task t f s) = cpu_util s"
  "bin_packing_scheme (upd_task t f s) = bin_packing_scheme s"
  "is_bin_packing_set (upd_task t f s) = is_bin_packing_set s"
  "global_sysclock (upd_task t f s) = global_sysclock s"
  "power_scheme (upd_task t f s) = power_scheme s"
  "is_freq_lock_taken (upd_task t f s) = is_freq_lock_taken s"
  "mono_clock (upd_task t f s) = mono_clock s"
  "raw_clock (upd_task t f s) = raw_clock s"
  "freq_table (upd_task t f s) = freq_table s"
  "cpufreq (upd_task t f s) = cpufreq s"
  "policy_refs (upd_task t f s) = policy_refs s"
  "cpu_active_mask (upd_task t f s) = cpu_active_mask s"
  "cpuset_allowed (upd_task t f s) = cpuset_allowed s"
  "sched_permitted (upd_task t f s) = sched_permitted s"
  "security_retval (upd_task t f s) = security_retval s"
  "events (upd_task t f s) = events s"
  by (simp_all add: upd_task_def)

subsection \<open>Locks\<close>

text \<open>
  Taking a lock that is already held by the same thread of control never returns. (Other
  processors are not part of the state; a lock they hold only delays the caller.)
\<close>

definition write_lock :: "kst \<Rightarrow> kst option" where
  "write_lock s = (if tasklist_lock s = Unlocked then Some (s\<lparr>tasklist_lock := Writer\<rparr>) else None)"

definition write_unlock :: "kst \<Rightarrow> kst" where
  "write_unlock s = s\<lparr>tasklist_lock := Unlocked\<rparr>"

definition read_lock :: "kst \<Rightarrow> kst option" where
  "read_lock s =
     (case tasklist_lock s of
        Unlocked \<Rightarrow> Some (s\<lparr>tasklist_lock := Readers 1\<rparr>)
      | Readers n \<Rightarrow> Some (s\<lparr>tasklist_lock := Readers (n + 1)\<rparr>)
      | Writer \<Rightarrow> None)"

definition read_unlock :: "kst \<Rightarrow> kst" where
  "read_unlock s =
     (case tasklist_lock s of
        Readers n \<Rightarrow> s\<lparr>tasklist_lock := (if n \<le> 1 then Unlocked else Readers (n - 1))\<rparr>
      | _ \<Rightarrow> s)"

definition spin_lock :: "tid \<Rightarrow> kst \<Rightarrow> kst option" where
  "spin_lock t s =
     (if task_spin_lock (tasks s t) then None
      else Some (upd_task t (\<lambda>p. p\<lparr>task_spin_lock := True\<rparr>) s))"

definition spin_unlock :: "tid \<Rightarrow> kst \<Rightarrow> kst" where
  "spin_unlock t s = upd_task t (\<lambda>p. p\<lparr>task_spin_lock := False\<rparr>) s"

subsection \<open>Threads\<close>

definition each_thread :: "tid \<Rightarrow> (tid \<Rightarrow> kst \<Rightarrow> kst) \<Rightarrow> kst \<Rightarrow> kst" where
  "each_thread g body s = fold body (g # thread_group s g) s"

definition set_task_state :: "tid \<Rightarrow> u32 \<Rightarrow> kst \<Rightarrow> kst" where
  "set_task_state t v = upd_task t (\<lambda>p. p\<lparr>state := v\<rparr>)"

definition set_tsk_need_resched :: "tid \<Rightarrow> kst \<Rightarrow> kst" where
  "set_tsk_need_resched t = upd_task t (\<lambda>p. p\<lparr>need_resched := True\<rparr>)"

definition clear_tsk_need_resched :: "tid \<Rightarrow> kst \<Rightarrow> kst" where
  "clear_tsk_need_resched t = upd_task t (\<lambda>p. p\<lparr>need_resched := False\<rparr>)"

definition find_task_by_vpid :: "int \<Rightarrow> kst \<Rightarrow> tid option" where
  "find_task_by_vpid nr s = pid_task s nr"

subsection \<open>Waking up\<close>

text \<open>
  \<open>ttwu_do_wakeup\<close> marks the task runnable. \<open>try_to_wake_up\<close> ends with it in three ways:
  the task is still on its run queue; or \<open>on_cpu\<close> says that a processor is still switching
  away from it and, ARM enabling interrupts over the switch, it is activated in place; or
  it goes through \<open>TASK_WAKING\<close> and the run queue that \<open>select_task_rq\<close> picks. The choice of
  the processor and the run queues themselves are not part of the state.
\<close>

definition ttwu_do_wakeup :: "tid \<Rightarrow> kst \<Rightarrow> kst" where
  "ttwu_do_wakeup t = upd_task t (\<lambda>p. p\<lparr>state := TASK_RUNNING\<rparr>)"

definition ttwu_remote :: "tid \<Rightarrow> kst \<Rightarrow> int \<times> kst" where
  "ttwu_remote t s = (if on_rq (tasks s t) then (1, ttwu_do_wakeup t s) else (0, s))"

definition ttwu_activate :: "tid \<Rightarrow> kst \<Rightarrow> kst" where
  "ttwu_activate t = upd_task t (\<lambda>p. p\<lparr>on_rq := True\<rparr>)"

definition ttwu_do_activate :: "tid \<Rightarrow> kst \<Rightarrow> kst" where
  "ttwu_do_activate t s = ttwu_do_wakeup t (ttwu_activate t s)"

definition ttwu_activate_remote :: "tid \<Rightarrow> kst \<Rightarrow> int \<times> kst" where
  "ttwu_activate_remote t s =
     (if on_cpu (tasks s t) \<noteq> 0 then (1, ttwu_do_wakeup t (ttwu_activate t s)) else (0, s))"

definition try_to_wake_up :: "tid \<Rightarrow> u32 \<Rightarrow> kst \<Rightarrow> int \<times> kst" where
  "try_to_wake_up t st s =
     (if state (tasks s t) AND st = 0 then (0, s)
      else if on_rq (tasks s t) then (1, snd (ttwu_remote t s))
      else if on_cpu (tasks s t) \<noteq> 0 then (1, snd (ttwu_activate_remote t s))
      else (1, ttwu_do_activate t (set_task_state t TASK_WAKING s)))"

definition wake_up_process :: "tid \<Rightarrow> kst \<Rightarrow> int \<times> kst" where
  "wake_up_process t s = try_to_wake_up t TASK_ALL s"

subsection \<open>Changing the policy\<close>

definition rt_policy :: "int \<Rightarrow> bool" where
  "rt_policy pol \<longleftrightarrow> pol = SCHED_FIFO \<or> pol = SCHED_RR"

definition task_has_rt_policy :: "task_struct \<Rightarrow> bool" where
  "task_has_rt_policy p = rt_policy (policy p)"

definition rt_prio :: "int \<Rightarrow> bool" where
  "rt_prio pr \<longleftrightarrow> pr < MAX_RT_PRIO"

definition normal_prio_of :: "task_struct \<Rightarrow> int" where
  "normal_prio_of p =
     (if task_has_rt_policy p then MAX_RT_PRIO - 1 - rt_priority p else static_prio p)"

definition rt_mutex_getprio :: "task_struct \<Rightarrow> int" where
  "rt_mutex_getprio p =
     (case pi_waiter p of None \<Rightarrow> normal_prio p | Some w \<Rightarrow> min w (normal_prio p))"

definition setscheduler :: "task_struct \<Rightarrow> int \<Rightarrow> int \<Rightarrow> task_struct" where
  "setscheduler p pol pr =
     (let p = p\<lparr>policy := pol, rt_priority := pr\<rparr>;
          p = p\<lparr>normal_prio := normal_prio_of p\<rparr>;
          p = p\<lparr>prio := rt_mutex_getprio p\<rparr>
      in p\<lparr>sched_class := (if rt_prio (prio p) then RtClass else FairClass)\<rparr>)"

text \<open>
  \<open>__sched_setscheduler\<close> with \<open>user = false\<close>: the permission checks are for user requests
  only. A negative \<open>policy\<close> keeps the task's own. The last lines take the task off its run
  queue and put it back, which leaves \<open>on_rq\<close> as it was.
\<close>

abbreviation (input) SCHED_RESET_ON_FORK :: int where "SCHED_RESET_ON_FORK \<equiv> 1073741824"

definition sched_setscheduler_nocheck :: "tid \<Rightarrow> int \<Rightarrow> int \<Rightarrow> kst \<Rightarrow> int \<times> kst" where
  "sched_setscheduler_nocheck t pol pr s =
     (let p = tasks s t;
          reset_on_fork = (if pol < 0 then sched_reset_on_fork p
                           else pol AND SCHED_RESET_ON_FORK \<noteq> 0);
          bad_policy = (0 \<le> pol \<and> (pol AND NOT SCHED_RESET_ON_FORK) \<notin>
                          {SCHED_FIFO, SCHED_RR, SCHED_NORMAL, SCHED_BATCH, SCHED_IDLE});
          pol = (if pol < 0 then policy p else pol AND NOT SCHED_RESET_ON_FORK)
      in if bad_policy then (- EINVAL, s)
         else if pr < 0 \<or> (mm p \<and> MAX_USER_RT_PRIO - 1 < pr) \<or> (\<not> mm p \<and> MAX_RT_PRIO - 1 < pr)
         then (- EINVAL, s)
         else if rt_policy pol \<noteq> (pr \<noteq> 0) then (- EINVAL, s)
         else if is_stop p then (- EINVAL, s)
         else if pol = policy p \<and> (\<not> rt_policy pol \<or> pr = rt_priority p) then (0, s)
         else (0, upd_task t (\<lambda>p. setscheduler (p\<lparr>sched_reset_on_fork := reset_on_fork\<rparr>) pol pr) s))"

subsection \<open>Affinity\<close>

definition set_cpus_allowed_ptr :: "tid \<Rightarrow> u32 \<Rightarrow> kst \<Rightarrow> int \<times> kst" where
  "set_cpus_allowed_ptr t new_mask s =
     (if cpus_allowed (tasks s t) = new_mask then (0, s)
      else if new_mask AND cpu_active_mask s = 0 then (- EINVAL, s)
      else if thread_bound (tasks s t) \<and> t \<noteq> current s then (- EINVAL, s)
      else (0, upd_task t (\<lambda>p. p\<lparr>cpus_allowed := new_mask\<rparr>) s))"

text \<open>
  The cpumasks need no allocation on a four-processor kernel. The mask handed on is inside
  \<open>cpuset_allowed\<close>, which nothing changes here, so the \<open>again\<close> loop is not entered.
\<close>

definition find_process_by_pid :: "int \<Rightarrow> kst \<Rightarrow> tid option" where
  "find_process_by_pid nr s = (if nr \<noteq> 0 then find_task_by_vpid nr s else Some (current s))"

definition sched_setaffinity :: "int \<Rightarrow> u32 \<Rightarrow> kst \<Rightarrow> int \<times> kst" where
  "sched_setaffinity nr in_mask s =
     (case find_process_by_pid nr s of
        None \<Rightarrow> (- ESRCH, s)
      | Some t \<Rightarrow>
          if \<not> sched_permitted s t then (- EPERM, s)
          else if security_retval s t \<noteq> 0 then (security_retval s t, s)
          else set_cpus_allowed_ptr t (in_mask AND cpuset_allowed s t) s)"

subsection \<open>The cpufreq policies\<close>

text \<open>\<open>cpufreq_cpu_get\<close> takes a reference to the policy it returns, \<open>cpufreq_cpu_put\<close> drops one.\<close>

definition cpufreq_cpu_get :: "nat \<Rightarrow> kst \<Rightarrow> cpufreq_policy option \<times> kst" where
  "cpufreq_cpu_get cpu s =
     (case cpufreq s cpu of
        None \<Rightarrow> (None, s)
      | Some pol \<Rightarrow> (Some pol, s\<lparr>policy_refs := (policy_refs s)(cpu := policy_refs s cpu + 1)\<rparr>))"

definition cpufreq_cpu_put :: "nat \<Rightarrow> kst \<Rightarrow> kst" where
  "cpufreq_cpu_put cpu s = s\<lparr>policy_refs := (policy_refs s)(cpu := policy_refs s cpu - 1)\<rparr>"

definition driver_target :: "nat \<Rightarrow> u32 \<Rightarrow> kst \<Rightarrow> kst" where
  "driver_target cpu target_freq s = s\<lparr>events := DriverTarget cpu target_freq # events s\<rparr>"

definition cpufreq_driver_target :: "nat \<Rightarrow> u32 \<Rightarrow> kst \<Rightarrow> kst" where
  "cpufreq_driver_target cpu target_freq s =
     (let (pol, s) = cpufreq_cpu_get cpu s in
      case pol of None \<Rightarrow> s | Some _ \<Rightarrow> cpufreq_cpu_put cpu (driver_target cpu target_freq s))"

definition set_policy_limits :: "nat \<Rightarrow> u32 \<Rightarrow> u32 \<Rightarrow> kst \<Rightarrow> kst" where
  "set_policy_limits cpu mx mn s =
     s\<lparr>cpufreq := (cpufreq s)(cpu := map_option (\<lambda>p. p\<lparr>pol_max := mx, pol_min := mn\<rparr>) (cpufreq s cpu))\<rparr>"

subsection \<open>Forking\<close>

text \<open>
  \<open>dup_task_struct\<close> copies the whole structure, so the child starts with its parent's list
  nodes, timers and flags; \<open>__sched_fork\<close> and \<open>sched_fork\<close> then reset what they name.
\<close>

definition dup_task_struct :: "tid \<Rightarrow> tid \<Rightarrow> kst \<Rightarrow> kst" where
  "dup_task_struct orig new s =
     s\<lparr>tasks := (tasks s)(new := (tasks s orig)\<lparr>need_resched := False\<rparr>),
       lists := (lists s)(PNode new := lists s (PNode orig), CNode new := lists s (CNode orig))\<rparr>"

definition mk_ts :: "int \<Rightarrow> int \<Rightarrow> timespec" where
  "mk_ts sec nsec = \<lparr>tv_sec = word_of_int sec, tv_nsec = word_of_int nsec\<rparr>"

definition sched_fork_init :: "task_struct \<Rightarrow> task_struct" where
  "sched_fork_init p =
     p\<lparr>on_rq := False, compute_time := mk_ts 0 0, exec_time := mk_ts 0 0, budget_time := mk_ts (- 1) (- 1),
       min_budget_time := mk_ts (- 1) (- 1), is_log_enabled := 0, has_freq_lock := 0,
       task_spin_lock := False\<rparr>"

definition sched_fork :: "tid \<Rightarrow> kst \<Rightarrow> kst" where
  "sched_fork t s =
     (let p = (sched_fork_init (tasks s t))\<lparr>state := TASK_RUNNING\<rparr>;
          p = (if sched_reset_on_fork p then
                 let p = (if policy p = SCHED_FIFO \<or> policy p = SCHED_RR
                          then p\<lparr>policy := SCHED_NORMAL, normal_prio := static_prio p\<rparr> else p);
                     p = (if static_prio p - 120 < 0
                          then p\<lparr>static_prio := 120, normal_prio := 120\<rparr> else p)
                 in p\<lparr>sched_reset_on_fork := False\<rparr>
               else p);
          p = p\<lparr>prio := normal_prio (tasks s (current s))\<rparr>;
          p = (if \<not> rt_prio (prio p) then p\<lparr>sched_class := FairClass\<rparr> else p)
      in upd_task t (\<lambda>_. p\<lparr>on_cpu := 0\<rparr>) s)"

subsection \<open>The state after boot\<close>

text \<open>
  The initial values of the globals, and a task structure as \<open>__sched_fork\<close> leaves it for a
  task without real-time attributes. The clocks are at zero, one \<open>cpufreq\<close> policy covers all
  processors, and every processor is active.
\<close>

definition zero_timer :: hrtimer where
  "zero_timer = \<lparr>h_state = 0, h_expires = 0, h_soft = 0, h_fn = NoFn\<rparr>"

definition plain_task :: "tid \<Rightarrow> task_struct" where
  "plain_task t =
     \<lparr>pid = int t, tgid = int t, comm = ''task'', group_leader = t, state = TASK_RUNNING,
      need_resched = False, on_rq = True, on_cpu = 0, mm = True, thread_bound = False, is_stop = False,
      cpus_allowed = 15, policy = SCHED_NORMAL, sched_reset_on_fork = False,
      static_prio = 120, normal_prio = 120, prio = 120, rt_priority = 0, sched_class = FairClass,
      pi_waiter = None, compute_time = mk_ts 0 0, exec_time = mk_ts 0 0, budget_time = mk_ts (- 1) (- 1),
      budget_timer = zero_timer, time_period = mk_ts 0 0, is_budget_set = 0, task_spin_lock = False,
      period_timer = zero_timer, user_pid = 0, buf = NoBuf, is_log_enabled = 0, buf_offset = 0,
      no_data_points = 0, min_budget_time = mk_ts (- 1) (- 1), pmclock_freq = 0, alpha = 0,
      cpu_no = 0, has_freq_lock = 0\<rparr>"

definition boot :: kst where
  "boot =
     \<lparr>tasks = plain_task, pid_task = (\<lambda>n. if 0 < n then Some (nat n) else None),
      thread_group = (\<lambda>_. []), process_list = [1], current = 1, tasklist_lock = Unlocked,
      lists = zero_heap, periodic_tasks_size = 0, per_cpu_list_size = (\<lambda>_. 0),
      cpu_util = (\<lambda>_. 1000), bin_packing_scheme = - 1, is_bin_packing_set = 0,
      global_sysclock = 0, power_scheme = 0, is_freq_lock_taken = 0, mono_clock = 0,
      raw_clock = mk_ts 0 0, freq_table = [51000, 640000, 1300000],
      cpufreq = (\<lambda>_. Some \<lparr>cpuinfo_max_freq = 1300000, pol_min = 51000, pol_max = 1300000, pol_cur = 640000\<rparr>),
      policy_refs = (\<lambda>_. 1), cpu_active_mask = 15, cpuset_allowed = (\<lambda>_. 15),
      sched_permitted = (\<lambda>_. True), security_retval = (\<lambda>_. 0), events = []\<rparr>"

subsection \<open>What the services do\<close>

lemma lock_simps [simp]:
  "tasklist_lock s = Unlocked \<Longrightarrow> write_lock s = Some (s\<lparr>tasklist_lock := Writer\<rparr>)"
  "tasklist_lock s \<noteq> Unlocked \<Longrightarrow> write_lock s = None"
  "tasklist_lock s = Unlocked \<Longrightarrow> read_lock s = Some (s\<lparr>tasklist_lock := Readers 1\<rparr>)"
  by (simp_all add: write_lock_def read_lock_def)

lemma wake_up_process_simps:
  "wake_up_process t s =
     (if state (tasks s t) AND TASK_ALL = 0 then (0, s)
      else (1, upd_task t (\<lambda>p. p\<lparr>state := TASK_RUNNING, on_rq := True\<rparr>) s))"
  by (auto simp: wake_up_process_def try_to_wake_up_def ttwu_remote_def ttwu_activate_remote_def
      ttwu_do_activate_def ttwu_do_wakeup_def ttwu_activate_def set_task_state_def upd_task_def
      fun_upd_def fun_eq_iff)

lemma wake_up_process_state:
  "state (tasks (snd (wake_up_process t s)) u) =
     (if u = t \<and> state (tasks s t) AND TASK_ALL \<noteq> 0 then TASK_RUNNING else state (tasks s u))"
  by (simp add: wake_up_process_simps)

end
