(* ===== verification/TaskLists.thy ===== *)
theory TaskLists
  imports Kernel
begin

text \<open>
  The list of all periodic tasks and the lists of the four processors
  (\<open>add_periodic_task\<close>, \<open>del_periodic_task\<close>, \<open>add_task_to_cpu\<close>, \<open>del_task_cpu\<close>,
  \<open>clear_cpu_lists\<close> of \<open>kernel/sched.c\<close>), with the invariant that ties a list to its counter
  and its order to the periods of the tasks.
\<close>

abbreviation (input) MAX_CPU :: nat where "MAX_CPU \<equiv> 4"

subsection \<open>Operations\<close>

text \<open>The tasks a traversal of a list visits: \<open>list_for_each\<close> with \<open>container_of\<close>.\<close>

definition periodic_tasks :: "kst \<Rightarrow> tid list option" where
  "periodic_tasks s = do { ns \<leftarrow> list_for_each (lists s) PHead; those (map periodic_owner ns) }"

definition cpu_tasks :: "nat \<Rightarrow> kst \<Rightarrow> tid list option" where
  "cpu_tasks cpu s = do { ns \<leftarrow> list_for_each (lists s) (CHead cpu); those (map percpu_owner ns) }"

text \<open>Where the insertion loops break: at the first task with a longer period.\<close>

definition longer_period :: "kst \<Rightarrow> tid \<Rightarrow> tid \<Rightarrow> bool" where
  "longer_period s new u \<longleftrightarrow>
     0 <s timespec_compare (time_period (tasks s u)) (time_period (tasks s new))"

fun break_at :: "(tid \<Rightarrow> bool) \<Rightarrow> tid option \<Rightarrow> bool" where
  "break_at P (Some u) = P u"
| "break_at P None = False"

definition add_periodic_task :: "tid \<Rightarrow> kst \<Rightarrow> kst option" where
  "add_periodic_task new s =
     (let s = (if periodic_tasks_size s = 0 then s\<lparr>lists := INIT_LIST_HEAD PHead (lists s)\<rparr> else s);
          s = s\<lparr>periodic_tasks_size := periodic_tasks_size s + 1\<rparr>
      in do {
        pos \<leftarrow> list_search (\<lambda>n. break_at (longer_period s new) (periodic_owner n))
                 (lists s) PHead (nxt (lists s PHead));
        h \<leftarrow> list_add_tail (PNode new) pos (lists s);
        Some (s\<lparr>lists := h\<rparr>)
      })"

definition del_periodic_task :: "tid \<Rightarrow> kst \<Rightarrow> kst option" where
  "del_periodic_task entry s =
     (if 0 < periodic_tasks_size s then
        let s = s\<lparr>periodic_tasks_size := periodic_tasks_size s - 1\<rparr> in
        do { h \<leftarrow> list_del (PNode entry) (lists s); Some (s\<lparr>lists := h\<rparr>) }
      else Some s)"

definition add_task_to_cpu :: "tid \<Rightarrow> nat \<Rightarrow> kst \<Rightarrow> kst option" where
  "add_task_to_cpu new cpu s =
     (let s = (if per_cpu_list_size s cpu = 0
               then s\<lparr>lists := INIT_LIST_HEAD (CHead cpu) (lists s)\<rparr> else s);
          s = s\<lparr>per_cpu_list_size := (per_cpu_list_size s)(cpu := per_cpu_list_size s cpu + 1)\<rparr>
      in do {
        pos \<leftarrow> list_search (\<lambda>n. break_at (longer_period s new) (percpu_owner n))
                 (lists s) (CHead cpu) (nxt (lists s (CHead cpu)));
        h \<leftarrow> list_add_tail (CNode new) pos (lists s);
        Some (s\<lparr>lists := h\<rparr>)
      })"

definition del_task_cpu :: "tid \<Rightarrow> nat \<Rightarrow> kst \<Rightarrow> kst option" where
  "del_task_cpu entry cpu s =
     (if 0 < per_cpu_list_size s cpu then
        let s = s\<lparr>per_cpu_list_size := (per_cpu_list_size s)(cpu := per_cpu_list_size s cpu - 1)\<rparr> in
        do { h \<leftarrow> list_del (CNode entry) (lists s); Some (s\<lparr>lists := h\<rparr>) }
      else Some s)"

definition clear_cpu_list :: "nat \<Rightarrow> kst \<Rightarrow> kst option" where
  "clear_cpu_list i s = do {
     h \<leftarrow> (if 0 < per_cpu_list_size s i
           then list_del_all (CHead i) (nxt (lists s (CHead i))) (lists s) else Some (lists s));
     Some (s\<lparr>lists := h, per_cpu_list_size := (per_cpu_list_size s)(i := 0),
             cpu_util := (cpu_util s)(i := 1000)\<rparr>)
   }"

definition clear_cpu_lists :: "kst \<Rightarrow> kst option" where
  "clear_cpu_lists s = foldo clear_cpu_list [0..<MAX_CPU] s"

subsection \<open>The invariant\<close>

text \<open>
  The counter is the length of the list, an unused list head may be uninitialised, and the
  tasks are in the order of their periods.
\<close>

definition period_ns :: "kst \<Rightarrow> tid \<Rightarrow> int" where
  "period_ns s t = ts_ns (time_period (tasks s t))"

definition period_normal :: "kst \<Rightarrow> tid \<Rightarrow> bool" where
  "period_normal s t \<longleftrightarrow> ts_normal (time_period (tasks s t))"

definition periodic_inv :: "kst \<Rightarrow> tid list \<Rightarrow> bool" where
  "periodic_inv s ts \<longleftrightarrow>
     periodic_tasks_size s = int (length ts) \<and> distinct ts \<and>
     (ts \<noteq> [] \<longrightarrow> dll (lists s) PHead (map PNode ts)) \<and>
     (\<forall>t \<in> set ts. period_normal s t) \<and> sorted (map (period_ns s) ts)"

definition cpu_inv :: "kst \<Rightarrow> nat \<Rightarrow> tid list \<Rightarrow> bool" where
  "cpu_inv s cpu ts \<longleftrightarrow>
     per_cpu_list_size s cpu = int (length ts) \<and> distinct ts \<and>
     (ts \<noteq> [] \<longrightarrow> dll (lists s) (CHead cpu) (map CNode ts)) \<and>
     (\<forall>t \<in> set ts. period_normal s t) \<and> sorted (map (period_ns s) ts)"

lemma those_map_Some: "(\<And>x. x \<in> set xs \<Longrightarrow> f x = Some (g x)) \<Longrightarrow> those (map f xs) = Some (map g xs)"
  by (induction xs) auto

lemma those_periodic_owner [simp]: "those (map (periodic_owner \<circ> PNode) ts) = Some ts"
  using those_map_Some [of ts "periodic_owner \<circ> PNode" id] by simp

lemma those_percpu_owner [simp]: "those (map (percpu_owner \<circ> CNode) ts) = Some ts"
  using those_map_Some [of ts "percpu_owner \<circ> CNode" id] by simp

lemma periodic_tasks_dll: "dll (lists s) PHead (map PNode ts) \<Longrightarrow> periodic_tasks s = Some ts"
  by (simp add: periodic_tasks_def periodic.visits)

lemma cpu_tasks_dll: "dll (lists s) (CHead cpu) (map CNode ts) \<Longrightarrow> cpu_tasks cpu s = Some ts"
  by (simp add: cpu_tasks_def percpu.visits)

lemma periodic_inv_tasks: "periodic_inv s ts \<Longrightarrow> ts \<noteq> [] \<Longrightarrow> periodic_tasks s = Some ts"
  by (simp add: periodic_inv_def periodic_tasks_dll)

lemma cpu_inv_tasks: "cpu_inv s cpu ts \<Longrightarrow> ts \<noteq> [] \<Longrightarrow> cpu_tasks cpu s = Some ts"
  by (simp add: cpu_inv_def cpu_tasks_dll)

subsection \<open>Insertion keeps the order\<close>

text \<open>Where the loop inserts: behind the tasks with a period up to the new one's.\<close>

definition insert_by_period :: "kst \<Rightarrow> tid \<Rightarrow> tid list \<Rightarrow> tid list" where
  "insert_by_period s t ts =
     takeWhile (\<lambda>u. period_ns s u \<le> period_ns s t) ts @ t # dropWhile (\<lambda>u. period_ns s u \<le> period_ns s t) ts"

lemma longer_period_ns:
  "period_normal s t \<Longrightarrow> period_normal s u \<Longrightarrow> longer_period s t u \<longleftrightarrow> period_ns s t < period_ns s u"
  by (simp add: longer_period_def period_normal_def period_ns_def timespec_compare_order)

lemma set_insert_by_period [simp]: "set (insert_by_period s t ts) = insert t (set ts)"
proof -
  have "set (takeWhile P ts) \<union> set (dropWhile P ts) = set ts" for P
    by (metis set_append takeWhile_dropWhile_id)
  then show ?thesis by (auto simp: insert_by_period_def)
qed

lemma mset_insert_by_period [simp]: "mset (insert_by_period s t ts) = add_mset t (mset ts)"
proof -
  have "mset (takeWhile P ts) + mset (dropWhile P ts) = mset ts" for P
    by (metis mset_append takeWhile_dropWhile_id)
  then show ?thesis by (simp add: insert_by_period_def)
qed

lemma length_insert_by_period [simp]: "length (insert_by_period s t ts) = Suc (length ts)"
  by (metis mset_insert_by_period size_add_mset size_mset)

lemma distinct_insert_by_period: "t \<notin> set ts \<Longrightarrow> distinct ts \<Longrightarrow> distinct (insert_by_period s t ts)"
  by (metis distinct.simps(2) mset.simps(2) mset_eq_imp_distinct_iff mset_insert_by_period)

lemma sorted_takeWhile_le:
  "sorted (map f ts) \<Longrightarrow> x \<in> set (dropWhile (\<lambda>u. f u \<le> (k :: int)) ts) \<Longrightarrow> k < f x"
proof (induction ts)
  case (Cons t ts)
  then show ?case by (cases "f t \<le> k") fastforce+
qed simp

lemma sorted_insert_by_period:
  assumes "sorted (map (period_ns s) ts)"
  shows "sorted (map (period_ns s) (insert_by_period s t ts))"
proof -
  let ?a = "takeWhile (\<lambda>u. period_ns s u \<le> period_ns s t) ts"
  let ?b = "dropWhile (\<lambda>u. period_ns s u \<le> period_ns s t) ts"
  have "sorted (map (period_ns s) (?a @ ?b))" using assms by simp
  then have "sorted (map (period_ns s) ?a)" "sorted (map (period_ns s) ?b)"
    by (simp_all only: map_append sorted_append)
  moreover have "\<forall>x \<in> set ?a. period_ns s x \<le> period_ns s t" by (auto dest: set_takeWhileD)
  moreover have "\<forall>x \<in> set ?b. period_ns s t < period_ns s x"
    using sorted_takeWhile_le [OF assms] by blast
  ultimately show ?thesis by (fastforce simp: insert_by_period_def sorted_append)
qed

lemma split_longer:
  assumes "period_normal s t" "\<forall>u \<in> set ts. period_normal s u"
  shows "takeWhile (\<lambda>u. \<not> longer_period s t u) ts @ t # dropWhile (\<lambda>u. \<not> longer_period s t u) ts
    = insert_by_period s t ts"
proof -
  have e: "\<not> longer_period s t u \<longleftrightarrow> period_ns s u \<le> period_ns s t" if "u \<in> set ts" for u
    using assms that by (simp add: longer_period_ns not_less)
  have "takeWhile (\<lambda>u. \<not> longer_period s t u) ts = takeWhile (\<lambda>u. period_ns s u \<le> period_ns s t) ts"
    "dropWhile (\<lambda>u. \<not> longer_period s t u) ts = dropWhile (\<lambda>u. period_ns s u \<le> period_ns s t) ts"
    using e by (auto intro!: takeWhile_cong dropWhile_cong)
  then show ?thesis by (simp add: insert_by_period_def)
qed

text \<open>Reading the list and its counter only, the invariant is kept by everything else.\<close>

lemma longer_period_tasks [simp]:
  "longer_period (s\<lparr>lists := h\<rparr>) = longer_period s"
  "longer_period (s\<lparr>periodic_tasks_size := n\<rparr>) = longer_period s"
  "longer_period (s\<lparr>per_cpu_list_size := m\<rparr>) = longer_period s"
  by (simp_all add: longer_period_def fun_eq_iff)

lemma period_views [simp]:
  "period_ns (s\<lparr>lists := h\<rparr>) = period_ns s" "period_normal (s\<lparr>lists := h\<rparr>) = period_normal s"
  "period_ns (s\<lparr>periodic_tasks_size := n\<rparr>) = period_ns s"
  "period_normal (s\<lparr>periodic_tasks_size := n\<rparr>) = period_normal s"
  "period_ns (s\<lparr>per_cpu_list_size := m\<rparr>) = period_ns s"
  "period_normal (s\<lparr>per_cpu_list_size := m\<rparr>) = period_normal s"
  "period_ns (s\<lparr>cpu_util := c\<rparr>) = period_ns s" "period_normal (s\<lparr>cpu_util := c\<rparr>) = period_normal s"
  by (simp_all add: period_ns_def period_normal_def fun_eq_iff)

text \<open>
  What the insertion code needs of a list, whichever it is: the node of a task leads back to
  the task.
\<close>

locale task_list = task_ring +
  fixes owner :: "lnode \<Rightarrow> tid option"
  assumes owner_mk: "owner (mk t) = Some t"
begin

lemma search_and_add:
  assumes "dll h head (map mk ts)" "t \<notin> set ts" "period_normal s t" "\<forall>u \<in> set ts. period_normal s u"
  shows "\<exists>n h'. list_search (\<lambda>n. break_at (longer_period s t) (owner n)) h head (nxt (h head)) = Some n
    \<and> list_add_tail (mk t) n h = Some h' \<and> dll h' head (map mk (insert_by_period s t ts))
    \<and> (\<forall>x. x \<noteq> head \<and> x \<notin> mk ` insert t (set ts) \<longrightarrow> h' x = h x)"
proof -
  have "break_at (longer_period s t) (owner (mk x)) \<longleftrightarrow> longer_period s t x" for x
    by (simp add: owner_mk)
  from insert_sorted [OF assms(1,2), of "\<lambda>n. break_at (longer_period s t) (owner n)", OF this]
  show ?thesis unfolding split_longer [OF assms(3,4)] .
qed

end

interpretation periodic_list: task_list PHead PNode periodic_owner
  by unfold_locales simp

interpretation cpu_list: task_list "CHead c" CNode percpu_owner for c
  by unfold_locales simp

lemma add_periodic_task_spec:
  assumes inv: "periodic_inv s ts" and t: "t \<notin> set ts" "period_normal s t"
  shows "\<exists>h. add_periodic_task t s = Some (s\<lparr>periodic_tasks_size := periodic_tasks_size s + 1, lists := h\<rparr>) \<and>
    periodic_inv (s\<lparr>periodic_tasks_size := periodic_tasks_size s + 1, lists := h\<rparr>) (insert_by_period s t ts) \<and>
    (\<forall>x. x \<noteq> PHead \<and> x \<notin> PNode ` insert t (set ts) \<longrightarrow> h x = lists s x)"
proof -
  define h0 where "h0 = (if periodic_tasks_size s = 0 then INIT_LIST_HEAD PHead (lists s) else lists s)"
  have d0: "dll h0 PHead (map PNode ts)"
    using inv periodic.init by (auto simp: h0_def periodic_inv_def)
  from inv have pn: "\<forall>u \<in> set ts. period_normal s u" by (simp add: periodic_inv_def)
  from periodic_list.search_and_add [OF d0 t pn] obtain n h where
    h: "list_search (\<lambda>n. break_at (longer_period s t) (periodic_owner n)) h0 PHead (nxt (h0 PHead)) = Some n"
    "list_add_tail (PNode t) n h0 = Some h" "dll h PHead (map PNode (insert_by_period s t ts))"
    "\<forall>x. x \<noteq> PHead \<and> x \<notin> PNode ` insert t (set ts) \<longrightarrow> h x = h0 x"
    by blast
  have "add_periodic_task t s = Some (s\<lparr>periodic_tasks_size := periodic_tasks_size s + 1, lists := h\<rparr>)"
    using h(1,2) by (auto simp: add_periodic_task_def h0_def)
  moreover have "periodic_inv (s\<lparr>periodic_tasks_size := periodic_tasks_size s + 1, lists := h\<rparr>) (insert_by_period s t ts)"
    using inv t h(3) by (simp add: periodic_inv_def distinct_insert_by_period sorted_insert_by_period)
  moreover have "\<forall>x. x \<noteq> PHead \<longrightarrow> h0 x = lists s x" by (simp add: h0_def INIT_LIST_HEAD_def)
  ultimately show ?thesis using h(4) by auto
qed

text \<open>The same on the list of a processor, whose state the other lists do not see.\<close>

abbreviation with_cpu_list :: "kst \<Rightarrow> nat \<Rightarrow> int \<Rightarrow> heap \<Rightarrow> kst" where
  "with_cpu_list s cpu n h \<equiv>
     s\<lparr>per_cpu_list_size := (per_cpu_list_size s)(cpu := n), lists := h\<rparr>"

lemma add_task_to_cpu_spec:
  assumes inv: "cpu_inv s cpu ts" and t: "t \<notin> set ts" "period_normal s t"
  shows "\<exists>h. add_task_to_cpu t cpu s = Some (with_cpu_list s cpu (per_cpu_list_size s cpu + 1) h) \<and>
    cpu_inv (with_cpu_list s cpu (per_cpu_list_size s cpu + 1) h) cpu (insert_by_period s t ts) \<and>
    (\<forall>x. x \<noteq> CHead cpu \<and> x \<notin> CNode ` insert t (set ts) \<longrightarrow> h x = lists s x)"
proof -
  define h0 where
    "h0 = (if per_cpu_list_size s cpu = 0 then INIT_LIST_HEAD (CHead cpu) (lists s) else lists s)"
  have d0: "dll h0 (CHead cpu) (map CNode ts)"
    using inv percpu.init by (auto simp: h0_def cpu_inv_def)
  from inv have pn: "\<forall>u \<in> set ts. period_normal s u" by (simp add: cpu_inv_def)
  from cpu_list.search_and_add [OF d0 t pn] obtain n h where
    h: "list_search (\<lambda>n. break_at (longer_period s t) (percpu_owner n)) h0 (CHead cpu) (nxt (h0 (CHead cpu))) = Some n"
    "list_add_tail (CNode t) n h0 = Some h" "dll h (CHead cpu) (map CNode (insert_by_period s t ts))"
    "\<forall>x. x \<noteq> CHead cpu \<and> x \<notin> CNode ` insert t (set ts) \<longrightarrow> h x = h0 x"
    by blast
  have "add_task_to_cpu t cpu s = Some (with_cpu_list s cpu (per_cpu_list_size s cpu + 1) h)"
    using h(1,2) by (auto simp: add_task_to_cpu_def h0_def)
  moreover have "cpu_inv (with_cpu_list s cpu (per_cpu_list_size s cpu + 1) h) cpu (insert_by_period s t ts)"
    using inv t h(3) by (simp add: cpu_inv_def distinct_insert_by_period sorted_insert_by_period)
  moreover have "\<forall>x. x \<noteq> CHead cpu \<longrightarrow> h0 x = lists s x" by (simp add: h0_def INIT_LIST_HEAD_def)
  ultimately show ?thesis using h(4) by auto
qed

lemma sorted_map_remove1: "sorted (map f xs) \<Longrightarrow> sorted (map f (remove1 x xs))"
  by (induction xs) (auto dest: notin_set_remove1 [THEN contrapos_np, rotated] set_remove1_subset [THEN subsetD])

lemma del_periodic_task_spec:
  assumes inv: "periodic_inv s ts" and t: "t \<in> set ts"
  shows "\<exists>h. del_periodic_task t s = Some (s\<lparr>periodic_tasks_size := periodic_tasks_size s - 1, lists := h\<rparr>) \<and>
    periodic_inv (s\<lparr>periodic_tasks_size := periodic_tasks_size s - 1, lists := h\<rparr>) (remove1 t ts) \<and>
    (\<forall>x. x \<noteq> PHead \<and> x \<notin> PNode ` set ts \<longrightarrow> h x = lists s x)"
proof -
  have d: "dll (lists s) PHead (map PNode ts)" using inv t by (auto simp: periodic_inv_def)
  from periodic.remove [OF this t] obtain h where h: "list_del (PNode t) (lists s) = Some h"
    "dll h PHead (map PNode (remove1 t ts))"
    "\<forall>x. x \<noteq> PHead \<and> x \<notin> PNode ` set ts \<longrightarrow> h x = lists s x" by blast
  have "0 < length ts" using t by auto
  then have sz: "0 < periodic_tasks_size s" using inv by (simp add: periodic_inv_def)
  have "del_periodic_task t s = Some (s\<lparr>periodic_tasks_size := periodic_tasks_size s - 1, lists := h\<rparr>)"
    using h(1) sz by (simp add: del_periodic_task_def)
  moreover have "periodic_inv (s\<lparr>periodic_tasks_size := periodic_tasks_size s - 1, lists := h\<rparr>) (remove1 t ts)"
    using inv t h(2) \<open>0 < length ts\<close> set_remove1_subset [of t ts]
    by (auto simp: periodic_inv_def length_remove1 sorted_map_remove1 of_nat_diff Suc_le_eq)
  ultimately show ?thesis using h(3) by auto
qed

lemma del_task_cpu_spec:
  assumes inv: "cpu_inv s cpu ts" and t: "t \<in> set ts"
  shows "\<exists>h. del_task_cpu t cpu s = Some (with_cpu_list s cpu (per_cpu_list_size s cpu - 1) h) \<and>
    cpu_inv (with_cpu_list s cpu (per_cpu_list_size s cpu - 1) h) cpu (remove1 t ts) \<and>
    (\<forall>x. x \<noteq> CHead cpu \<and> x \<notin> CNode ` set ts \<longrightarrow> h x = lists s x)"
proof -
  have d: "dll (lists s) (CHead cpu) (map CNode ts)" using inv t by (auto simp: cpu_inv_def)
  from percpu.remove [OF this t] obtain h where h: "list_del (CNode t) (lists s) = Some h"
    "dll h (CHead cpu) (map CNode (remove1 t ts))"
    "\<forall>x. x \<noteq> CHead cpu \<and> x \<notin> CNode ` set ts \<longrightarrow> h x = lists s x" by blast
  have len: "0 < length ts" using t by auto
  then have sz: "0 < per_cpu_list_size s cpu" using inv by (simp add: cpu_inv_def)
  have "del_task_cpu t cpu s = Some (with_cpu_list s cpu (per_cpu_list_size s cpu - 1) h)"
    using h(1) sz by (simp add: del_task_cpu_def)
  moreover have "cpu_inv (with_cpu_list s cpu (per_cpu_list_size s cpu - 1) h) cpu (remove1 t ts)"
    using inv t h(2) len set_remove1_subset [of t ts]
    by (auto simp: cpu_inv_def length_remove1 sorted_map_remove1 of_nat_diff Suc_le_eq)
  ultimately show ?thesis using h(3) by auto
qed

subsection \<open>Clearing\<close>

text \<open>All four processor lists at once: they share no task.\<close>

definition cpus_inv :: "kst \<Rightarrow> (nat \<Rightarrow> tid list) \<Rightarrow> bool" where
  "cpus_inv s q \<longleftrightarrow> (\<forall>c < MAX_CPU. cpu_inv s c (q c)) \<and>
     (\<forall>c < MAX_CPU. \<forall>d < MAX_CPU. c \<noteq> d \<longrightarrow> set (q c) \<inter> set (q d) = {})"

lemma cpu_inv_frame:
  assumes "cpu_inv s c ts"
    and "per_cpu_list_size s' c = per_cpu_list_size s c"
    and "\<And>x. x = CHead c \<or> x \<in> CNode ` set ts \<Longrightarrow> lists s' x = lists s x"
    and "\<And>t. t \<in> set ts \<Longrightarrow> time_period (tasks s' t) = time_period (tasks s t)"
  shows "cpu_inv s' c ts"
proof -
  have p: "period_ns s' t = period_ns s t" "period_normal s' t = period_normal s t" if "t \<in> set ts" for t
    using assms(4) [OF that] by (simp_all add: period_ns_def period_normal_def)
  then have m: "map (period_ns s') ts = map (period_ns s) ts" by simp
  have "dll (lists s') (CHead c) (map CNode ts)" if "dll (lists s) (CHead c) (map CNode ts)"
    using that assms(3) by (rule percpu.other_list)
  with assms(1,2) p show ?thesis unfolding cpu_inv_def m by simp
qed

lemma periodic_inv_frame:
  assumes "periodic_inv s ts"
    and "periodic_tasks_size s' = periodic_tasks_size s"
    and "\<And>x. x = PHead \<or> x \<in> PNode ` set ts \<Longrightarrow> lists s' x = lists s x"
    and "\<And>t. t \<in> set ts \<Longrightarrow> time_period (tasks s' t) = time_period (tasks s t)"
  shows "periodic_inv s' ts"
proof -
  have p: "period_ns s' t = period_ns s t" "period_normal s' t = period_normal s t" if "t \<in> set ts" for t
    using assms(4) [OF that] by (simp_all add: period_ns_def period_normal_def)
  then have m: "map (period_ns s') ts = map (period_ns s) ts" by simp
  have "dll (lists s') PHead (map PNode ts)" if "dll (lists s) PHead (map PNode ts)"
    using that assms(3) by (rule periodic.other_list)
  with assms(1,2) p show ?thesis unfolding periodic_inv_def m by simp
qed

lemma clear_cpu_list_spec:
  assumes "cpu_inv s c ts"
  shows "\<exists>h. clear_cpu_list c s = Some ((with_cpu_list s c 0 h)\<lparr>cpu_util := (cpu_util s)(c := 1000)\<rparr>) \<and>
    (\<forall>x. x \<noteq> CHead c \<and> x \<notin> CNode ` set ts \<longrightarrow> h x = lists s x)"
proof (cases "ts = []")
  case True
  with assms show ?thesis by (intro exI [of _ "lists s"]) (simp add: clear_cpu_list_def cpu_inv_def)
next
  case False
  with assms have d: "dll (lists s) (CHead c) (map CNode ts)" and sz: "0 < per_cpu_list_size s c"
    by (simp_all add: cpu_inv_def)
  from percpu.clear [OF d] obtain h where "list_del_all (CHead c) (nxt (lists s (CHead c))) (lists s) = Some h"
    "\<forall>x. x \<noteq> CHead c \<and> x \<notin> CNode ` set ts \<longrightarrow> h x = lists s x" by blast
  with sz show ?thesis by (intro exI [of _ h]) (simp add: clear_cpu_list_def)
qed

lemma cpu_inv_empty: "per_cpu_list_size s c = 0 \<Longrightarrow> cpu_inv s c []"
  by (simp add: cpu_inv_def)

lemma clear_cpu_list_keeps:
  assumes "cpus_inv s q" "c < MAX_CPU" "clear_cpu_list c s = Some s'"
  shows "cpus_inv s' (q(c := []))" and "cpu_util s' = (cpu_util s)(c := 1000)"
    and "tasks s' = tasks s" and "periodic_tasks_size s' = periodic_tasks_size s"
    and "\<And>t. lists s' PHead = lists s PHead \<and> lists s' (PNode t) = lists s (PNode t)"
proof -
  from assms have ci: "cpu_inv s c (q c)" by (simp add: cpus_inv_def)
  from clear_cpu_list_spec [OF ci] assms(3) obtain h where
    s': "s' = (with_cpu_list s c 0 h)\<lparr>cpu_util := (cpu_util s)(c := 1000)\<rparr>"
    and fr: "\<And>x. x \<noteq> CHead c \<Longrightarrow> x \<notin> CNode ` set (q c) \<Longrightarrow> h x = lists s x" by auto
  have "cpu_inv s' d (q d)" if "d < MAX_CPU" "d \<noteq> c" for d
  proof (rule cpu_inv_frame [of s])
    show "cpu_inv s d (q d)" using assms that by (simp add: cpus_inv_def)
    have "set (q c) \<inter> set (q d) = {}" using assms that by (auto simp: cpus_inv_def)
    then show "lists s' x = lists s x" if "x = CHead d \<or> x \<in> CNode ` set (q d)" for x
      using that \<open>d \<noteq> c\<close> by (auto simp: s' intro!: fr)
  qed (use that in \<open>simp_all add: s'\<close>)
  moreover have "cpu_inv s' c []" by (rule cpu_inv_empty) (simp add: s')
  ultimately show "cpus_inv s' (q(c := []))" using assms(1) by (auto simp: cpus_inv_def)
  show "lists s' PHead = lists s PHead \<and> lists s' (PNode t) = lists s (PNode t)" for t
    by (auto simp: s' intro!: fr)
  show "cpu_util s' = (cpu_util s)(c := 1000)" "tasks s' = tasks s"
    "periodic_tasks_size s' = periodic_tasks_size s"
    by (simp_all add: s')
qed

lemma clear_cpu_list_defined: "cpus_inv s q \<Longrightarrow> c < MAX_CPU \<Longrightarrow> clear_cpu_list c s \<noteq> None"
  using clear_cpu_list_spec by (fastforce simp: cpus_inv_def)

lemma clear_up_to:
  "n \<le> MAX_CPU \<Longrightarrow> cpus_inv s q \<Longrightarrow>
   \<exists>s'. foldo clear_cpu_list [0..<n] s = Some s' \<and> cpus_inv s' (\<lambda>c. if c < n then [] else q c) \<and>
     (\<forall>c. cpu_util s' c = (if c < n then 1000 else cpu_util s c)) \<and>
     tasks s' = tasks s \<and> periodic_tasks_size s' = periodic_tasks_size s \<and>
     (\<forall>t. lists s' PHead = lists s PHead \<and> lists s' (PNode t) = lists s (PNode t))"
proof (induction n)
  case (Suc n)
  then obtain s1 where s1: "foldo clear_cpu_list [0..<n] s = Some s1"
    "cpus_inv s1 (\<lambda>c. if c < n then [] else q c)"
    "\<forall>c. cpu_util s1 c = (if c < n then 1000 else cpu_util s c)"
    "tasks s1 = tasks s" "periodic_tasks_size s1 = periodic_tasks_size s"
    "\<forall>t. lists s1 PHead = lists s PHead \<and> lists s1 (PNode t) = lists s (PNode t)" by auto
  from Suc.prems have n: "n < MAX_CPU" by simp
  from clear_cpu_list_defined [OF s1(2) n] obtain s2 where s2: "clear_cpu_list n s1 = Some s2" by auto
  note k = clear_cpu_list_keeps [OF s1(2) n s2]
  have q: "(\<lambda>c. if c < n then [] else q c)(n := []) = (\<lambda>c. if c < Suc n then [] else q c)"
    by (auto simp: fun_eq_iff less_Suc_eq)
  show ?case
  proof (intro exI [of _ s2] conjI)
    show "foldo clear_cpu_list [0..<Suc n] s = Some s2" using s1(1) s2 by (simp add: foldo_append)
    show "cpus_inv s2 (\<lambda>c. if c < Suc n then [] else q c)" using k(1) by (simp only: q)
    show "\<forall>c. cpu_util s2 c = (if c < Suc n then 1000 else cpu_util s c)"
      using s1(3) by (simp add: k(2) less_Suc_eq)
  qed (use s1 k in simp_all)
qed simp


lemma boot_inv: "cpus_inv boot (\<lambda>_. [])" "periodic_inv boot []" "period_normal boot t"
  by (simp_all add: cpus_inv_def cpu_inv_def periodic_inv_def boot_def period_normal_def
      plain_task_def mk_ts_def ts_normal_def)

lemma boot_one_task: "\<exists>s. add_periodic_task t boot = Some s \<and> periodic_inv s [t] \<and> tasks s = tasks boot"
  using add_periodic_task_spec [OF boot_inv(2), of t] by (auto simp: boot_inv insert_by_period_def)


subsection \<open>Properties of the periodic list\<close>

lemma remove_inserted: "t \<notin> set ts \<Longrightarrow> remove1 t (insert_by_period s t ts) = ts"
  by (auto simp: insert_by_period_def remove1_append dest: set_takeWhileD)

text \<open>
  C16. The list of periodic tasks is a correct sorted store: adding a task that is not in it
  never faults, counts it, and puts it behind exactly the tasks whose period is not longer,
  so a traversal sees non-decreasing periods; deleting it again restores the list.
\<close>

theorem periodic_list_add_del:
  assumes "periodic_inv s ts" "t \<notin> set ts" "period_normal s t"
  shows "\<exists>s1 s2. add_periodic_task t s = Some s1 \<and> periodic_tasks s1 = Some (insert_by_period s t ts) \<and>
     sorted (map (period_ns s1) (insert_by_period s t ts)) \<and>
     periodic_tasks_size s1 = int (length ts) + 1 \<and>
     del_periodic_task t s1 = Some s2 \<and> periodic_inv s2 ts \<and> tasks s2 = tasks s"
proof -
  from add_periodic_task_spec [OF assms] obtain h where
    a: "add_periodic_task t s = Some (s\<lparr>periodic_tasks_size := periodic_tasks_size s + 1, lists := h\<rparr>)"
       "periodic_inv (s\<lparr>periodic_tasks_size := periodic_tasks_size s + 1, lists := h\<rparr>) (insert_by_period s t ts)"
    by blast
  define s1 where "s1 = s\<lparr>periodic_tasks_size := periodic_tasks_size s + 1, lists := h\<rparr>"
  from a have a: "add_periodic_task t s = Some s1" "periodic_inv s1 (insert_by_period s t ts)"
    by (simp_all add: s1_def)
  from del_periodic_task_spec [OF a(2), of t] obtain h2 where
    d: "del_periodic_task t s1 = Some (s1\<lparr>periodic_tasks_size := periodic_tasks_size s1 - 1, lists := h2\<rparr>)"
       "periodic_inv (s1\<lparr>periodic_tasks_size := periodic_tasks_size s1 - 1, lists := h2\<rparr>) ts"
    using assms(2) by (auto simp: remove_inserted)
  have "insert_by_period s t ts \<noteq> []" by (simp add: insert_by_period_def)
  with a(2) have "periodic_tasks s1 = Some (insert_by_period s t ts)" by (rule periodic_inv_tasks)
  moreover have "periodic_tasks_size s1 = int (length ts) + 1" "sorted (map (period_ns s1) (insert_by_period s t ts))"
    using a(2) by (simp_all add: periodic_inv_def)
  ultimately show ?thesis using a(1) d by (auto simp: s1_def)
qed

theorem periodic_list_add_del_witness:
  "\<exists>s1 s2. add_periodic_task 5 boot = Some s1 \<and> periodic_tasks s1 = Some [5] \<and>
     del_periodic_task 5 s1 = Some s2 \<and> periodic_tasks_size s2 = 0"
  using periodic_list_add_del [OF boot_inv(2), of 5]
  by (auto simp: boot_inv insert_by_period_def periodic_inv_def)

definition unlink :: "lnode \<Rightarrow> lnode \<Rightarrow> heap \<Rightarrow> heap" where
  "unlink a b h = (let h = h(b := (h b)\<lparr>prv := At a\<rparr>) in h(a := (h a)\<lparr>nxt := At b\<rparr>))"

lemma list_del_unlink:
  "prv (h e) = At a \<Longrightarrow> nxt (h e) = At b \<Longrightarrow>
   list_del e h = Some ((unlink a b h)(e := \<lparr>nxt = Poison1, prv = Poison2\<rparr>))"
  by (simp add: list_del_def list_del_between_def set_prv_def set_nxt_def unlink_def Let_def)

lemma unlink_other: "x \<noteq> c \<Longrightarrow> a \<noteq> c \<Longrightarrow> b \<noteq> c \<Longrightarrow> unlink a b (h(c := v)) x = unlink a b h x"
  by (auto simp: unlink_def Let_def)

lemma dll_neighbours:
  assumes "dll h head (as @ e # bs)"
  shows "\<exists>a b. prv (h e) = At a \<and> nxt (h e) = At b \<and> a \<in> set (head # as) \<and> b \<in> set (head # bs)"
proof -
  obtain us a where u: "head # as = us @ [a]" by (meson neq_Nil_conv rev_exhaust)
  obtain b vs where v: "bs @ [head] = b # vs" by (cases bs) auto
  have "head # (as @ e # bs) @ [head] = us @ a # e # b # vs"
    using u v by (metis append_Cons append_assoc append_Nil)
  then have "chain h (us @ a # e # b # vs)" using assms by (simp only: dll_def)
  then have "prv (h e) = At a" "nxt (h e) = At b" by (simp_all add: chain_mid)
  moreover have "a \<in> set (head # as)" by (simp only: u) simp
  moreover have "b \<in> set (bs @ [head])" by (simp only: v) simp
  ultimately show ?thesis by auto
qed

text \<open>
  C31. A forked child carries a copy of its parent's list node. Deleting the child's node from the
  list, as \<open>do_exit\<close> and \<open>cancelBudget\<close> do, takes the parent out of the list of periodic tasks.
\<close>

theorem forked_node_unlinks_parent:
  assumes inv: "periodic_inv s ts" and p: "p \<in> set ts" and c: "c \<notin> set ts"
  shows "\<exists>s'. del_periodic_task c (dup_task_struct p c s) = Some s' \<and> periodic_tasks s' = Some (remove1 p ts)"
proof -
  let ?h = "lists s" and ?poison = "\<lparr>nxt = Poison1, prv = Poison2\<rparr>"
  from p obtain us vs where ts: "ts = us @ p # vs" by (meson split_list)
  from inv p have d: "dll ?h PHead (map PNode ts)" and dist: "distinct ts" and sz: "0 < periodic_tasks_size s"
    by (auto simp: periodic_inv_def)
  from d ts dll_neighbours [of ?h PHead "map PNode us" "PNode p" "map PNode vs"] obtain a b where
    ab: "prv (?h (PNode p)) = At a" "nxt (?h (PNode p)) = At b"
    and ab': "a \<in> set (PHead # map PNode us)" "b \<in> set (PHead # map PNode vs)" by auto
  from ab' c have nc: "a \<noteq> PNode c" "b \<noteq> PNode c" "a \<noteq> CNode c" "b \<noteq> CNode c" by (auto simp: ts)
  define h1 where "h1 = ?h(PNode c := ?h (PNode p), CNode c := ?h (CNode p))"
  define h2 where "h2 = (unlink a b h1)(PNode c := ?poison)"
  have "list_del (PNode c) h1 = Some h2"
    unfolding h2_def by (rule list_del_unlink) (simp_all add: h1_def ab)
  then have del: "del_periodic_task c (dup_task_struct p c s)
      = Some ((dup_task_struct p c s)\<lparr>periodic_tasks_size := periodic_tasks_size s - 1, lists := h2\<rparr>)"
    using sz by (simp add: del_periodic_task_def dup_task_struct_def h1_def)
  have "dll ((unlink a b ?h)(PNode p := ?poison)) PHead (map PNode (remove1 p ts))"
    using periodic.remove [OF d p] list_del_unlink [of ?h "PNode p", OF ab] by auto
  then have "dll h2 PHead (map PNode (remove1 p ts))"
  proof (rule periodic.other_list)
    fix x assume "x = PHead \<or> x \<in> PNode ` set (remove1 p ts)"
    then have "x \<noteq> PNode p" "x \<noteq> PNode c" "x \<noteq> CNode c" using c dist by auto
    then show "h2 x = ((unlink a b ?h)(PNode p := ?poison)) x"
      by (simp add: h2_def h1_def unlink_other nc)
  qed
  then have "periodic_tasks ((dup_task_struct p c s)\<lparr>periodic_tasks_size := periodic_tasks_size s - 1, lists := h2\<rparr>)
      = Some (remove1 p ts)"
    by (intro periodic_tasks_dll) simp
  with del show ?thesis by blast
qed

theorem forked_node_unlinks_parent_witness:
  "\<exists>s s'. periodic_tasks s = Some [5] \<and> del_periodic_task 6 (dup_task_struct 5 6 s) = Some s' \<and>
     periodic_tasks s' = Some []"
proof -
  obtain s where s: "periodic_inv s [5]" using boot_one_task by blast
  have "periodic_tasks s = Some [5]" by (rule periodic_inv_tasks [OF s]) simp
  moreover obtain s' where "del_periodic_task 6 (dup_task_struct 5 6 s) = Some s'"
    "periodic_tasks s' = Some []" using forked_node_unlinks_parent [OF s, of 5 6] by auto
  ultimately show ?thesis by blast
qed

end
