(* ===== verification/FixedPriority.thy ===== *)
theory FixedPriority
  imports Prelude
begin

text \<open>
  What the admission test promises, written down without the test: periodic tasks given by
  worst-case execution time and period, released together at time 0, on one processor that
  runs, in every unit of time, the pending task that comes first in the list. \<open>backlog ts t\<close> is
  the work of each task that is released before \<open>t\<close> and not done at \<open>t\<close>.
\<close>

type_synonym ct = "nat \<times> nat"

definition release :: "ct list \<Rightarrow> nat \<Rightarrow> nat list \<Rightarrow> nat list" where
  "release ts t rem = map2 (\<lambda>(C, T) r. if t mod T = 0 then r + C else r) ts rem"

fun run :: "nat list \<Rightarrow> nat list" where
  "run [] = []"
| "run (r # rs) = (if 0 < r then (r - 1) # rs else r # run rs)"

fun backlog :: "ct list \<Rightarrow> nat \<Rightarrow> nat list" where
  "backlog ts 0 = map (\<lambda>_. 0) ts"
| "backlog ts (Suc t) = run (release ts t (backlog ts t))"

text \<open>The job that a task releases at time 0 is finished when its period ends.\<close>

definition meets_deadline :: "ct list \<Rightarrow> nat \<Rightarrow> bool" where
  "meets_deadline ts i \<longleftrightarrow> backlog ts (snd (ts ! i)) ! i = 0"

text \<open>The work released before \<open>t\<close>.\<close>

definition released :: "ct list \<Rightarrow> nat \<Rightarrow> nat" where
  "released ts t = sum_list (map (\<lambda>(C, T). cdiv t T * C) ts)"

lemma length_run [simp]: "length (run rs) = length rs"
  by (induction rs) auto

lemma length_release [simp]: "length rem = length ts \<Longrightarrow> length (release ts t rem) = length ts"
  by (simp add: release_def)

lemma length_backlog [simp]: "length (backlog ts t) = length ts"
  by (induction t) simp_all

lemma sum_run: "sum_list (run rs) = sum_list rs - 1"
  by (induction rs) auto

lemma run_take: "run (take k rs) = take k (run rs)"
proof (induction rs arbitrary: k)
  case (Cons r rs)
  then show ?case by (cases k) simp_all
qed simp

lemma release_take: "release (take k ts) t (take k rem) = take k (release ts t rem)"
  by (simp add: release_def take_map take_zip)

text \<open>A task is not disturbed by the tasks behind it.\<close>

lemma backlog_take: "backlog (take k ts) t = take k (backlog ts t)"
  by (induction t) (simp_all add: take_map release_take run_take)

lemma cdiv_Suc: "0 < T \<Longrightarrow> cdiv (Suc t) T = (if t mod T = 0 then cdiv t T + 1 else cdiv t T)"
  by (auto simp: cdiv_def div_Suc mod_Suc)

lemma released_Suc:
  "\<forall>x \<in> set ts. 0 < snd x \<Longrightarrow> length rem = length ts \<Longrightarrow>
   sum_list (release ts t rem) + released ts t = sum_list rem + released ts (Suc t)"
proof (induction ts arbitrary: rem)
  case (Cons x ts)
  then obtain r rs where rem: "rem = r # rs" "length rs = length ts" by (cases rem) auto
  have "sum_list (release ts t rs) + released ts t = sum_list rs + released ts (Suc t)"
    using Cons rem by simp
  moreover obtain C T where x: "x = (C, T)" by (cases x)
  moreover have "cdiv (Suc t) T * C = (if t mod T = 0 then cdiv t T * C + C else cdiv t T * C)"
    using Cons.prems(1) x by (simp add: cdiv_Suc)
  ultimately show ?case by (simp add: rem release_def released_def)
qed (simp add: release_def released_def)

lemma released_0 [simp]: "released ts 0 = 0"
  by (induction ts) (auto simp: released_def cdiv_def)

text \<open>While there is work, every unit of time does some of it.\<close>

lemma busy_accounting:
  assumes T: "\<forall>x \<in> set ts. 0 < snd x"
    and busy: "\<And>u. u < t \<Longrightarrow> 0 < sum_list (release ts u (backlog ts u))"
  shows "sum_list (backlog ts t) + t = released ts t"
  using busy
proof (induction t)
  case 0
  have "sum_list (map (\<lambda>_. 0 :: nat) ts) = 0" by (induction ts) auto
  then show ?case by simp
next
  case (Suc t)
  then have "sum_list (backlog ts t) + t = released ts t" by simp
  moreover have "sum_list (release ts t (backlog ts t)) + released ts t
      = sum_list (backlog ts t) + released ts (Suc t)"
    by (rule released_Suc [OF T]) simp
  moreover have "0 < sum_list (release ts t (backlog ts t))" using Suc.prems by simp
  ultimately show ?case by (simp add: sum_run)
qed

lemma nth_release:
  "i < length ts \<Longrightarrow> length rem = length ts \<Longrightarrow>
   release ts t rem ! i = (if t mod snd (ts ! i) = 0 then rem ! i + fst (ts ! i) else rem ! i)"
  by (simp add: release_def split: prod.split)

lemma nth_run_le: "run rs ! i \<le> rs ! i"
proof (induction rs arbitrary: i)
  case (Cons r rs)
  then show ?case by (cases i) auto
qed simp

text \<open>Once the first job is done, nothing is pending until the next release.\<close>

lemma stays_done:
  assumes "i < length ts" "0 < t" "t \<le> u" "u \<le> snd (ts ! i)" "backlog ts t ! i = 0"
  shows "backlog ts u ! i = 0"
  using assms(3,4)
proof (induction u rule: dec_induct)
  case (step u)
  then have "u mod snd (ts ! i) = u" "0 < u" using assms(2) by simp_all
  then have "release ts u (backlog ts u) ! i = 0" using step assms(1) by (simp add: nth_release)
  then show ?case using nth_run_le [of "release ts u (backlog ts u)" i] by simp
qed (use assms in simp)

lemma sum_pos_nth: "i < length xs \<Longrightarrow> 0 < xs ! i \<Longrightarrow> 0 < sum_list (xs :: nat list)"
  by (metis elem_le_sum_list less_le_trans)

text \<open>Enough time for all the work that is released: the first job gets done.\<close>

lemma enough_time_meets:
  assumes T: "\<forall>x \<in> set ts. 0 < snd x" and i: "i < length ts"
    and t: "0 < t" "t \<le> snd (ts ! i)" "released ts t \<le> t"
  shows "meets_deadline ts i"
proof -
  have "\<exists>u. 0 < u \<and> u \<le> t \<and> sum_list (backlog ts u) = 0"
  proof (rule ccontr)
    assume "\<nexists>u. 0 < u \<and> u \<le> t \<and> sum_list (backlog ts u) = 0"
    then have pend: "0 < sum_list (backlog ts u)" if "0 < u" "u \<le> t" for u
      using that by (meson gr0I)
    have "0 < sum_list (release ts u (backlog ts u))" if "u < t" for u
    proof -
      have "0 < sum_list (backlog ts (Suc u))" using pend [of "Suc u"] that by simp
      then show ?thesis by (simp add: sum_run)
    qed
    from busy_accounting [OF T this] have "sum_list (backlog ts t) + t = released ts t" .
    with pend [OF t(1) order_refl] t(3) show False by simp
  qed
  then obtain u where u: "0 < u" "u \<le> t" "sum_list (backlog ts u) = 0" by blast
  have "\<not> 0 < backlog ts u ! i" using u(3) sum_pos_nth [of i "backlog ts u"] i by (metis length_backlog less_irrefl)
  then have "backlog ts u ! i = 0" by simp
  moreover have "u \<le> snd (ts ! i)" using u(2) t(2) by simp
  ultimately show ?thesis
    unfolding meets_deadline_def using stays_done [OF i u(1) _ order_refl] by blast
qed

text \<open>The unit of time in which the last task of a list finishes leaves nothing pending.\<close>

lemma run_last_done:
  "rs \<noteq> [] \<Longrightarrow> 0 < last rs \<Longrightarrow> last (run rs) = 0 \<Longrightarrow> sum_list (run rs) = 0"
proof (induction rs)
  case (Cons r rs)
  show ?case
  proof (cases "rs = []")
    case True
    then show ?thesis using Cons.prems by (cases "0 < r") simp_all
  next
    case ne: False
    then have ne': "run rs \<noteq> []" using length_run [of rs] by (metis length_0_conv)
    show ?thesis
    proof (cases "0 < r")
      case True
      then have "last (run (r # rs)) = last (r # rs)" using ne by simp
      then show ?thesis using Cons.prems(2,3) by simp
    next
      case False
      then have e: "run (r # rs) = 0 # run rs" by simp
      have "sum_list (run rs) = 0"
      proof (rule Cons.IH)
        show "0 < last rs" using Cons.prems(2) ne by simp
        show "last (run rs) = 0" using Cons.prems(3) e ne' by simp
      qed fact
      then show ?thesis unfolding e by (simp only: sum_list.Cons add_0)
    qed
  qed
qed simp

lemma meets_needs_time:
  assumes T: "\<forall>x \<in> set ts. 0 < snd x" and ne: "ts \<noteq> []" and C: "0 < fst (last ts)"
    and m: "meets_deadline ts (length ts - 1)"
  shows "\<exists>t. 0 < t \<and> t \<le> snd (last ts) \<and> released ts t \<le> t"
proof -
  define i where "i = length ts - 1"
  have i: "i < length ts" "ts ! i = last ts" using ne by (simp_all add: i_def last_conv_nth)
  have pos: "0 < snd (last ts)" using T ne by simp
  define P where "P = (\<lambda>u. 0 < u \<and> backlog ts u ! i = 0)"
  define t where "t = (LEAST u. P u)"
  have ex: "P (snd (last ts))"
    using m pos i(2) unfolding P_def meets_deadline_def i_def by simp
  have "P t" unfolding t_def by (rule LeastI [of P, OF ex])
  moreover have "t \<le> snd (last ts)" unfolding t_def by (rule Least_le [of P, OF ex])
  ultimately have t: "0 < t" "backlog ts t ! i = 0" "t \<le> snd (last ts)" by (simp_all add: P_def)
  have before: "0 < backlog ts u ! i" if "0 < u" "u < t" for u
  proof -
    have "\<not> P u" using that(2) unfolding t_def by (rule not_less_Least)
    with that(1) show ?thesis by (simp add: P_def)
  qed
  have pend: "0 < release ts u (backlog ts u) ! i" if "u < t" for u
  proof (cases "u = 0")
    case True
    then show ?thesis using i C by (subst nth_release) simp_all
  next
    case False
    then show ?thesis using before [of u] that i(1) by (subst nth_release) simp_all
  qed
  have "0 < sum_list (release ts u (backlog ts u))" if "u < t" for u
    by (rule sum_pos_nth [of i]) (use pend [OF that] i(1) in simp_all)
  from busy_accounting [OF T this] have acc: "sum_list (backlog ts t) + t = released ts t" .
  obtain v where v: "t = Suc v" using t(1) by (cases t) auto
  define rs where "rs = release ts v (backlog ts v)"
  have len: "length rs = length ts" "length (run rs) = length ts" by (simp_all add: rs_def)
  then have ne': "rs \<noteq> []" "run rs \<noteq> []" using ne by (metis length_0_conv)+
  then have rs: "rs \<noteq> []" "last rs = rs ! i" "last (run rs) = run rs ! i"
    by (simp_all add: last_conv_nth len i_def)
  have "sum_list (run rs) = 0"
    using rs pend [of v] t(2) v by (intro run_last_done) (simp_all add: rs_def)
  then have "sum_list (backlog ts t) = 0" by (simp only: v backlog.simps rs_def)
  then have "released ts t = t" using acc by (simp only: add_0)
  with t show ?thesis by auto
qed

lemma meets_deadline_prefix:
  "i < length ts \<Longrightarrow> meets_deadline (take (i + 1) ts) i \<longleftrightarrow> meets_deadline ts i"
  by (simp add: meets_deadline_def backlog_take)

text \<open>The exact criterion, for one task of a list.\<close>

lemma meets_deadline_iff:
  assumes T: "\<forall>x \<in> set ts. 0 < fst x \<and> 0 < snd x" and i: "i < length ts"
  shows "meets_deadline ts i \<longleftrightarrow> (\<exists>t. 0 < t \<and> t \<le> snd (ts ! i) \<and> released (take (i + 1) ts) t \<le> t)"
proof -
  let ?ys = "take (i + 1) ts"
  have sub: "set ?ys \<subseteq> set ts" by (rule set_take_subset)
  have T': "\<forall>x \<in> set ?ys. 0 < snd x" using T sub by blast
  have len: "length ?ys = Suc i" using i by simp
  then have ne: "?ys \<noteq> []" by (metis length_0_conv nat.distinct(1))
  have nth: "?ys ! i = ts ! i" using i by simp
  have last: "last ?ys = ts ! i" using last_conv_nth [OF ne] nth by (simp only: len diff_Suc_1)
  have "meets_deadline ?ys i \<longleftrightarrow> (\<exists>t. 0 < t \<and> t \<le> snd (ts ! i) \<and> released ?ys t \<le> t)"
  proof
    assume "meets_deadline ?ys i"
    then have "meets_deadline ?ys (length ?ys - 1)" by (simp only: len diff_Suc_1)
    moreover have "0 < fst (last ?ys)" using T i by (simp only: last) simp
    ultimately show "\<exists>t. 0 < t \<and> t \<le> snd (ts ! i) \<and> released ?ys t \<le> t"
      using meets_needs_time [OF T' ne] by (simp only: last)
  next
    assume "\<exists>t. 0 < t \<and> t \<le> snd (ts ! i) \<and> released ?ys t \<le> t"
    then obtain t where t: "0 < t" "t \<le> snd (ts ! i)" "released ?ys t \<le> t" by blast
    show "meets_deadline ?ys i"
      using enough_time_meets [OF T' _ t(1) _ t(3), of i] t(2) by (simp only: len nth)
  qed
  then show ?thesis using meets_deadline_prefix [OF i] by simp
qed

subsection \<open>Ties do not matter\<close>

lemma released_mset: "released ts t = sum_mset (image_mset (\<lambda>(C, T). cdiv t T * C) (mset ts))"
  by (simp add: released_def flip: sum_mset_sum_list mset_map)

lemma released_mono:
  assumes "mset xs \<subseteq># mset ys"
  shows "released xs t \<le> released ys t"
proof -
  obtain D where "mset ys = mset xs + D" using assms by (metis mset_subset_eq_exists_conv)
  then show ?thesis by (simp add: released_mset)
qed

lemma take_count_filter:
  "sorted (map f xs) \<Longrightarrow> take (length (filter (\<lambda>x. f x \<le> (k :: nat)) xs)) xs = filter (\<lambda>x. f x \<le> k) xs"
proof (induction xs)
  case (Cons x xs)
  show ?case
  proof (cases "f x \<le> k")
    case False
    then have "\<forall>y \<in> set xs. \<not> f y \<le> k" using Cons.prems by fastforce
    then show ?thesis using False by simp
  qed (use Cons in simp)
qed simp

text \<open>
  Two lists of the same tasks in the order of their periods differ only in how they order
  tasks with equal periods. If all deadlines are met in one order, they are met in the other.
\<close>

lemma all_meet_any_order:
  assumes T: "\<forall>x \<in> set xs. 0 < fst x \<and> 0 < snd x"
    and so: "sorted (map snd xs)" "sorted (map snd ys)" and m: "mset ys = mset xs"
    and meet: "\<forall>i < length xs. meets_deadline xs i"
  shows "\<forall>i < length ys. meets_deadline ys i"
proof (intro allI impI)
  fix i assume i: "i < length ys"
  let ?k = "snd (ys ! i)"
  let ?P = "\<lambda>x. snd x \<le> ?k"
  define j where "j = length (filter ?P xs) - 1"
  have "ys ! i \<in> set xs" using i m by (metis mset_eq_setD nth_mem)
  then have "filter ?P xs \<noteq> []" by (auto simp: filter_empty_conv)
  then have j: "j + 1 = length (filter ?P xs)" by (simp add: j_def Suc_leI)
  then have jl: "j < length xs" using length_filter_le [of ?P xs] by linarith
  have tk: "take (j + 1) xs = filter ?P xs" using take_count_filter [OF so(1)] by (simp only: j)
  then have "xs ! j \<in> set (filter ?P xs)" using jl by (metis nth_mem nth_take j less_add_one)
  then have le: "snd (xs ! j) \<le> ?k" by simp
  from meet jl meets_deadline_iff [OF T jl] obtain t where
    t: "0 < t" "t \<le> snd (xs ! j)" "released (take (j + 1) xs) t \<le> t" by blast
  have "filter ?P (take (i + 1) ys) = take (i + 1) ys"
  proof (rule filter_True, rule ballI)
    fix y assume "y \<in> set (take (i + 1) ys)"
    then obtain p where "p \<le> i" "y = ys ! p" 
      by (auto simp: in_set_conv_nth less_Suc_eq_le)
    then show "snd y \<le> ?k" using sorted_nth_mono [OF so(2), of p i] i by simp
  qed
  then have "mset (take (i + 1) ys) = filter_mset ?P (mset (take (i + 1) ys))" by (metis mset_filter)
  also have "\<dots> \<subseteq># filter_mset ?P (mset ys)"
    by (rule multiset_filter_mono) (metis append_take_drop_id mset_append mset_subset_eq_add_left)
  also have "\<dots> = mset (take (j + 1) xs)" by (simp only: tk m mset_filter)
  finally have "released (take (i + 1) ys) t \<le> released (take (j + 1) xs) t" by (rule released_mono)
  then have "released (take (i + 1) ys) t \<le> t" using t(3) by simp
  moreover have "\<forall>x \<in> set ys. 0 < fst x \<and> 0 < snd x" using T m by (metis mset_eq_setD)
  ultimately show "meets_deadline ys i"
    using meets_deadline_iff [of ys i] i t(1,2) le by (meson order_trans)
qed

end
