(* ===== verification/Admission.thy ===== *)
theory Admission
  imports TaskLists FixedPriority
begin

text \<open>
  Admission control (\<open>ceiling\<close>, \<open>rt_test\<close>, \<open>__check_admission\<close>, \<open>check_admission\<close>,
  \<open>check_admission_per_cpu\<close> of \<open>kernel/sched.c\<close>): the exact response-time test for
  fixed-priority tasks, in 32-bit arithmetic on microseconds.
\<close>

record task_ct_struct =
  budget :: u32
  period :: u32
  util :: u64
  ct_task :: tid

abbreviation (input) SCALE_UP_FACTOR :: "'a::len word" where "SCALE_UP_FACTOR \<equiv> 1000"

subsection \<open>The code\<close>

definition ceiling :: "s32 \<Rightarrow> s32 \<Rightarrow> s32" where
  "ceiling numerator denominator =
     (if 0 <s s_mod numerator denominator then s_div numerator denominator + 1
      else s_div numerator denominator)"

text \<open>
  \<open>rt_test\<close>: \<open>prev_a\<close> is a \<open>long\<close>, but it is compared with an \<open>unsigned long\<close> and so as
  unsigned. The loop need not end when the sums wrap.
\<close>

definition rt_sum :: "task_ct_struct list \<Rightarrow> nat \<Rightarrow> u32" where
  "rt_sum list pos = sum_list (map budget (take (pos + 1) list))"

definition rt_demand :: "task_ct_struct list \<Rightarrow> nat \<Rightarrow> u32 \<Rightarrow> u32" where
  "rt_demand list pos prev_a =
     fold (\<lambda>x curr_a. curr_a + ceiling prev_a (period x) * budget x) (take pos list) (budget (list ! pos))"

partial_function (option) rt_loop :: "task_ct_struct list \<Rightarrow> nat \<Rightarrow> u32 \<Rightarrow> int option" where
  "rt_loop list pos prev_a =
     (if prev_a \<le> period (list ! pos) then
        (let curr_a = rt_demand list pos prev_a in
         if prev_a = curr_a then Some 1 else rt_loop list pos curr_a)
      else Some 0)"

definition rt_test :: "task_ct_struct list \<Rightarrow> nat \<Rightarrow> int option" where
  "rt_test list pos = rt_loop list pos (rt_sum list pos)"

fun check_from :: "task_ct_struct list \<Rightarrow> nat list \<Rightarrow> int option" where
  "check_from list [] = Some 1"
| "check_from list (i # is) = do { r \<leftarrow> rt_test list i; if r = 0 then Some 0 else check_from list is }"

definition check_admission_list :: "task_ct_struct list \<Rightarrow> nat \<Rightarrow> int option" where
  "check_admission_list list n = check_from list [0..<n]"

text \<open>
  The array of budgets and periods with the new task in its place. \<open>le\<close> is the comparison of
  the two callers: signed in \<open>check_admission\<close>, unsigned in \<open>check_admission_per_cpu\<close>.
\<close>

definition ct_entry :: "s32 \<Rightarrow> s32 \<Rightarrow> task_ct_struct" where
  "ct_entry b p = \<lparr>budget = b, period = p, util = 0, ct_task = 0\<rparr>"

fun build_ct :: "(s32 \<Rightarrow> s32 \<Rightarrow> bool) \<Rightarrow> s32 \<Rightarrow> s32 \<Rightarrow> (s32 \<times> s32) list \<Rightarrow> bool \<Rightarrow> task_ct_struct list" where
  "build_ct le b p [] flag = (if \<not> flag then [ct_entry b p] else [])"
| "build_ct le b p ((tb, tp) # xs) flag =
     (if \<not> flag \<and> le p tp then ct_entry b p # ct_entry tb tp # build_ct le b p xs True
      else ct_entry tb tp # build_ct le b p xs flag)"

text \<open>The budget and period of a listed task, in microseconds, as the loops read them.\<close>

definition ct_of_task :: "(task_struct \<Rightarrow> timespec) \<Rightarrow> kst \<Rightarrow> tid \<Rightarrow> s32 \<times> s32" where
  "ct_of_task bud s t =
     (convert_to_usecs (bud (tasks s t)), convert_to_usecs (time_period (tasks s t)))"

text \<open>
  The arrays on the stack have one slot more than the counter says. A longer list would
  overrun them and a shorter one leaves slots unwritten: both are \<open>None\<close>.
\<close>

definition check_admission :: "timespec \<Rightarrow> timespec \<Rightarrow> kst \<Rightarrow> int option" where
  "check_admission bud per s =
     (let budget_us = convert_to_usecs bud;
          period_us = convert_to_usecs per
      in if periodic_tasks_size s = 0 then
           let u = s_div (budget_us * SCALE_UP_FACTOR) period_us
           in Some (if 1000 <s u then 0 else 1)
         else do {
           ts \<leftarrow> periodic_tasks s;
           let list = build_ct (\<le>s) budget_us period_us
                        (map (ct_of_task min_budget_time s) ts) False;
           if int (length list) = periodic_tasks_size s + 1
           then check_admission_list list (length list) else None
         })"

definition check_admission_per_cpu :: "u32 \<Rightarrow> u32 \<Rightarrow> nat \<Rightarrow> kst \<Rightarrow> int option" where
  "check_admission_per_cpu bud per cpu s =
     (let sz = per_cpu_list_size s cpu in
      if sz = 0 then
        let u = bud * SCALE_UP_FACTOR div per
        in Some (if 1000 <s u then 0 else 1)
      else do {
        ts \<leftarrow> cpu_tasks cpu s;
        let list = build_ct (\<le>) bud per
                     (map (ct_of_task budget_time s) ts) False;
        if int (length list) = sz + 1 then check_admission_list list (length list) else None
      })"

subsection \<open>The demand without wrapping\<close>

definition C_of :: "task_ct_struct \<Rightarrow> nat" where "C_of x = unat (budget x)"
definition T_of :: "task_ct_struct \<Rightarrow> nat" where "T_of x = unat (period x)"

definition demand :: "task_ct_struct list \<Rightarrow> nat \<Rightarrow> nat \<Rightarrow> nat" where
  "demand xs pos t = C_of (xs ! pos) + sum_list (map (\<lambda>x. cdiv t (T_of x) * C_of x) (take pos xs))"

lemma sum_list_map_mono:
  fixes f g :: "'a \<Rightarrow> nat"
  shows "(\<And>x. x \<in> set xs \<Longrightarrow> f x \<le> g x) \<Longrightarrow> sum_list (map f xs) \<le> sum_list (map g xs)"
  by (rule sum_list_mono)

lemma demand_mono: "t \<le> u \<Longrightarrow> demand xs pos t \<le> demand xs pos u"
  by (auto simp: demand_def intro!: sum_list_map_mono mult_le_mono1 cdiv_mono)

interpretation rta: mono_demand "demand xs pos" for xs pos
  by unfold_locales (rule demand_mono)

text \<open>
  The bounds under which the 32-bit computation is exact: periods are positive and, like the
  demand at the period, below \<open>2 ^ 31\<close>.
\<close>

definition fits :: "task_ct_struct list \<Rightarrow> nat \<Rightarrow> bool" where
  "fits xs pos \<longleftrightarrow> pos < length xs \<and> (\<forall>x \<in> set (take (pos + 1) xs). 0 < T_of x \<and> T_of x < 2 ^ 31) \<and>
     demand xs pos (T_of (xs ! pos)) < 2 ^ 31"

lemma unat_ceiling:
  assumes "unat a < 2 ^ 31" "unat b < 2 ^ 31" "0 < unat b"
  shows "unat (ceiling a b) = cdiv (unat a) (unat b)"
proof -
  have d: "unat (s_div a b) = unat a div unat b" "unat (s_mod a b) = unat a mod unat b"
    using assms by (simp_all add: unat_s_div unat_s_mod)
  have "unat a mod unat b < 2 ^ 31" using assms by (meson less_trans mod_less_divisor)
  then have m: "0 <s s_mod a b \<longleftrightarrow> 0 < unat a mod unat b"
    by (subst zero_sless_unat) (simp_all add: d)
  have "unat a div unat b < 2 ^ 31" using assms(1) by (rule le_less_trans [OF div_le_dividend])
  then have "unat (s_div a b + 1) = unat a div unat b + 1"
    by (subst unat_plus) (simp_all add: d)
  then show ?thesis by (simp add: ceiling_def m cdiv_def d)
qed

lemma unat_sum_list:
  fixes f :: "'b \<Rightarrow> u32"
  shows "sum_list (map (\<lambda>x. unat (f x)) xs) < 2 ^ 32 \<Longrightarrow>
    unat (sum_list (map f xs)) = sum_list (map (\<lambda>x. unat (f x)) xs)"
proof (induction xs)
  case (Cons x xs)
  then have "unat (sum_list (map f xs)) = sum_list (map (\<lambda>x. unat (f x)) xs)" by simp
  with Cons.prems show ?case by (simp add: unat_plus)
qed simp

lemma unat_demand_fold:
  assumes "unat a < 2 ^ 31" "\<forall>x \<in> set ys. 0 < T_of x \<and> T_of x < 2 ^ 31"
    and "unat c + sum_list (map (\<lambda>x. cdiv (unat a) (T_of x) * C_of x) ys) < 2 ^ 31"
  shows "unat (fold (\<lambda>x c. c + ceiling a (period x) * budget x) ys c)
    = unat c + sum_list (map (\<lambda>x. cdiv (unat a) (T_of x) * C_of x) ys)"
  using assms(2,3)
proof (induction ys arbitrary: c)
  case (Cons y ys)
  have y: "unat (ceiling a (period y)) = cdiv (unat a) (T_of y)"
    using Cons.prems assms(1) by (simp add: unat_ceiling T_of_def)
  have m: "unat (ceiling a (period y) * budget y) = cdiv (unat a) (T_of y) * C_of y"
    using Cons.prems(2) by (subst unat_times) (simp_all add: y C_of_def)
  have "unat (c + ceiling a (period y) * budget y) = unat c + cdiv (unat a) (T_of y) * C_of y"
    using Cons.prems(2) by (subst unat_plus) (simp_all add: m)
  with Cons show ?case by (simp add: add.assoc)
qed simp

lemma fits_demand_at:
  assumes "fits xs pos" "unat a \<le> T_of (xs ! pos)"
  shows "unat (rt_demand xs pos a) = demand xs pos (unat a)" "demand xs pos (unat a) < 2 ^ 31"
proof -
  show b: "demand xs pos (unat a) < 2 ^ 31"
    using assms demand_mono [OF assms(2), of xs pos] by (simp add: fits_def)
  have "xs ! pos \<in> set (take (pos + 1) xs)"
    using assms(1) by (auto simp: fits_def in_set_conv_nth intro!: exI [of _ pos])
  then have a: "unat a < 2 ^ 31" using assms by (auto simp: fits_def)
  have "set (take pos xs) \<subseteq> set (take (pos + 1) xs)" by (rule set_take_subset_set_take) simp
  then have ok: "\<forall>x \<in> set (take pos xs). 0 < T_of x \<and> T_of x < 2 ^ 31"
    using assms(1) by (auto simp: fits_def)
  show "unat (rt_demand xs pos a) = demand xs pos (unat a)"
    using unat_demand_fold [OF a ok, of "budget (xs ! pos)"] b
    by (simp add: rt_demand_def demand_def C_of_def)
qed

subsection \<open>The loop decides the exact test\<close>

definition schedulable_at :: "task_ct_struct list \<Rightarrow> nat \<Rightarrow> bool" where
  "schedulable_at xs pos \<longleftrightarrow> (\<exists>t. 0 < t \<and> t \<le> T_of (xs ! pos) \<and> demand xs pos t \<le> t)"

lemma rt_loop_exact:
  assumes "fits xs pos" "unat a \<le> demand xs pos (unat a)"
  shows "rt_loop xs pos a =
    Some (if \<exists>t. unat a \<le> t \<and> t \<le> T_of (xs ! pos) \<and> demand xs pos t \<le> t then 1 else 0)"
  using assms(2)
proof (induction "T_of (xs ! pos) + 1 - unat a" arbitrary: a rule: less_induct)
  case less
  let ?f = "demand xs pos" and ?B = "T_of (xs ! pos)"
  have le: "a \<le> period (xs ! pos) \<longleftrightarrow> unat a \<le> ?B" by (simp add: word_le_nat_alt T_of_def)
  show ?case
  proof (cases "unat a \<le> ?B")
    case False
    then show ?thesis using le by (subst rt_loop.simps) auto
  next
    case True
    define b where "b = rt_demand xs pos a"
    have b: "unat b = ?f (unat a)" using fits_demand_at [OF assms(1) True] by (simp add: b_def)
    show ?thesis
    proof (cases "a = b")
      case True
      then have fx: "rt_demand xs pos a = a" by (simp only: b_def)
      have "rt_loop xs pos a = Some 1"
        using \<open>unat a \<le> ?B\<close> by (subst rt_loop.simps) (simp add: le fx)
      moreover have "?f (unat a) \<le> unat a" using b True by simp
      ultimately show ?thesis using \<open>unat a \<le> ?B\<close> by auto
    next
      case False
      then have "unat a \<noteq> unat b" by (metis word_unat_eq_iff)
      with less.prems b have "unat a < unat b" by linarith
      moreover have "unat b \<le> ?f (unat b)" using rta.step_keeps [OF less.prems] b by simp
      ultimately have "rt_loop xs pos b = Some (if \<exists>t. unat b \<le> t \<and> t \<le> ?B \<and> ?f t \<le> t then 1 else 0)"
        using True by (intro less.hyps) auto
      moreover have "rt_loop xs pos a = rt_loop xs pos b"
        using True False [unfolded b_def] by (subst rt_loop.simps) (simp add: le b_def)
      ultimately show ?thesis using rta.search_shift [OF less.prems] by (simp add: b)
    qed
  qed
qed

lemma demand_ge_sum:
  assumes "pos < length xs" "0 < t" "\<forall>x \<in> set (take pos xs). 0 < T_of x"
  shows "sum_list (map C_of (take (pos + 1) xs)) \<le> demand xs pos t"
proof -
  have "C_of x \<le> cdiv t (T_of x) * C_of x" if "x \<in> set (take pos xs)" for x
    using cdiv_pos [of t "T_of x"] assms that by simp
  then have "sum_list (map C_of (take pos xs)) \<le> sum_list (map (\<lambda>x. cdiv t (T_of x) * C_of x) (take pos xs))"
    by (rule sum_list_map_mono)
  then show ?thesis using assms(1) by (simp add: demand_def take_Suc_conv_app_nth)
qed

lemma fits_take_pos: "fits xs pos \<Longrightarrow> \<forall>x \<in> set (take pos xs). 0 < T_of x \<and> T_of x < 2 ^ 31"
  using set_take_subset_set_take [of pos "pos + 1" xs] by (auto simp: fits_def)

lemma fits_period_pos: "fits xs pos \<Longrightarrow> 0 < T_of (xs ! pos)"
  by (auto simp: fits_def take_Suc_conv_app_nth)

lemma unat_rt_sum:
  assumes "fits xs pos"
  shows "unat (rt_sum xs pos) = sum_list (map C_of (take (pos + 1) xs))"
proof -
  have "sum_list (map C_of (take (pos + 1) xs)) \<le> demand xs pos (T_of (xs ! pos))"
    using assms fits_take_pos [OF assms] fits_period_pos [OF assms] by (intro demand_ge_sum) (auto simp: fits_def)
  also have "\<dots> < 2 ^ 31" using assms by (simp add: fits_def)
  finally show ?thesis unfolding rt_sum_def C_of_def by (intro unat_sum_list) simp
qed

lemma rt_test_exact:
  assumes "fits xs pos"
  shows "rt_test xs pos = Some (if schedulable_at xs pos then 1 else 0)"
proof -
  let ?c = "sum_list (map C_of (take (pos + 1) xs))"
  have pos: "\<forall>x \<in> set (take pos xs). 0 < T_of x" "pos < length xs"
    using fits_take_pos [OF assms] assms by (auto simp: fits_def)
  have "C_of (xs ! pos) \<le> ?c" using pos(2) by (simp add: take_Suc_conv_app_nth)
  have start: "?c \<le> demand xs pos ?c"
  proof (cases "?c = 0")
    case False
    then show ?thesis by (intro demand_ge_sum pos) (simp only: neq0_conv)
  next
    case True
    then show ?thesis by (simp only: zero_le)
  qed
  have "(\<exists>t. ?c \<le> t \<and> t \<le> T_of (xs ! pos) \<and> demand xs pos t \<le> t) \<longleftrightarrow> schedulable_at xs pos"
  proof
    assume "\<exists>t. ?c \<le> t \<and> t \<le> T_of (xs ! pos) \<and> demand xs pos t \<le> t"
    then obtain t where t: "?c \<le> t" "t \<le> T_of (xs ! pos)" "demand xs pos t \<le> t" by blast
    show "schedulable_at xs pos"
    proof (cases "t = 0")
      case True
      then have z: "C_of x = 0" if "x \<in> set (take (pos + 1) xs)" for x using t(1) that by simp
      then have "sum_list (map (\<lambda>x. cdiv u (T_of x) * C_of x) (take pos xs)) = 0" for u
        using set_take_subset_set_take [of pos "pos + 1" xs] by (auto simp: sum_list_eq_0_iff)
      moreover have "C_of (xs ! pos) = 0" using \<open>C_of (xs ! pos) \<le> ?c\<close> t(1) True by linarith
      ultimately have "demand xs pos (T_of (xs ! pos)) = 0" by (simp add: demand_def)
      then show ?thesis using fits_period_pos [OF assms] by (auto simp: schedulable_at_def)
    next
      case False
      with t show ?thesis by (auto simp: schedulable_at_def)
    qed
  next
    assume "schedulable_at xs pos"
    then obtain t where t: "0 < t" "t \<le> T_of (xs ! pos)" "demand xs pos t \<le> t"
      by (auto simp: schedulable_at_def)
    then show "\<exists>t. ?c \<le> t \<and> t \<le> T_of (xs ! pos) \<and> demand xs pos t \<le> t"
      using demand_ge_sum [OF pos(2) t(1) pos(1)] by (meson order_trans)
  qed
  moreover have "rt_test xs pos =
      Some (if \<exists>t. ?c \<le> t \<and> t \<le> T_of (xs ! pos) \<and> demand xs pos t \<le> t then 1 else 0)"
    using rt_loop_exact [OF assms, of "rt_sum xs pos"] start by (simp add: rt_test_def unat_rt_sum [OF assms])
  ultimately show ?thesis by simp
qed

subsection \<open>The test is right about the schedule\<close>

definition ct_of :: "task_ct_struct \<Rightarrow> ct" where
  "ct_of x = (C_of x, T_of x)"

lemma cdiv_first_period: "0 < t \<Longrightarrow> t \<le> T \<Longrightarrow> cdiv t T = 1"
  by (cases "t = T") (simp_all add: cdiv_def)

lemma released_demand:
  assumes "pos < length xs" "0 < t" "t \<le> T_of (xs ! pos)"
  shows "released (map ct_of (take (pos + 1) xs)) t = demand xs pos t"
proof -
  have "take (pos + 1) xs = take pos xs @ [xs ! pos]" using assms(1) by (simp add: take_Suc_conv_app_nth)
  then show ?thesis using cdiv_first_period [OF assms(2,3)]
    by (simp add: released_def demand_def ct_of_def o_def add.commute)
qed

lemma schedulable_at_meets:
  assumes f: "fits xs pos" and c: "0 < C_of (xs ! pos)"
  shows "schedulable_at xs pos \<longleftrightarrow> meets_deadline (map ct_of xs) pos"
proof -
  let ?ys = "map ct_of (take (pos + 1) xs)"
  have pos: "pos < length xs" using f by (simp add: fits_def)
  have T: "\<forall>x \<in> set ?ys. 0 < snd x" using f by (auto simp: fits_def ct_of_def)
  have len: "length ?ys = pos + 1" using pos by simp
  have nth: "?ys ! pos = ct_of (xs ! pos)" using pos by simp
  then have last: "last ?ys = ct_of (xs ! pos)"
    using len by (subst last_conv_nth) (auto simp del: take_map)
  have rel: "released ?ys t = demand xs pos t" if "0 < t" "t \<le> T_of (xs ! pos)" for t
    using released_demand [OF pos that] by simp
  have "meets_deadline (map ct_of xs) pos \<longleftrightarrow> meets_deadline ?ys pos"
    using meets_deadline_prefix [of pos "map ct_of xs"] pos by (simp add: take_map)
  also have "\<dots> \<longleftrightarrow> schedulable_at xs pos"
  proof
    assume "meets_deadline ?ys pos"
    then have "meets_deadline ?ys (length ?ys - 1)" by (simp only: len) simp
    moreover have "?ys \<noteq> []" using len by (metis length_0_conv Suc_eq_plus1 nat.distinct(1))
    ultimately obtain t where t: "0 < t" "t \<le> snd (last ?ys)" "released ?ys t \<le> t"
      using meets_needs_time [OF T] c last by (auto simp: ct_of_def)
    have "t \<le> T_of (xs ! pos)" using t(2) by (simp only: last ct_of_def snd_conv)
    then show "schedulable_at xs pos"
      using rel [of t] t unfolding schedulable_at_def by (intro exI [of _ t]) simp
  next
    assume "schedulable_at xs pos"
    then obtain t where t: "0 < t" "t \<le> T_of (xs ! pos)" "demand xs pos t \<le> t"
      by (auto simp: schedulable_at_def)
    show "meets_deadline ?ys pos"
    proof (rule enough_time_meets [OF T])
      show "pos < length ?ys" using len by simp
      show "t \<le> snd (?ys ! pos)" using t(2) by (simp only: nth ct_of_def snd_conv)
      show "released ?ys t \<le> t" using rel [OF t(1,2)] t(3) by simp
    qed fact
  qed
  finally show ?thesis by simp
qed

text \<open>
  A task set the arithmetic is exact for: sorted by period, budgets positive and within the
  period, and the periods, scaled by the number of tasks, below \<open>2 ^ 31\<close> microseconds (for ten
  tasks, periods up to a hundred seconds).
\<close>

definition task_set_ok :: "task_ct_struct list \<Rightarrow> bool" where
  "task_set_ok xs \<longleftrightarrow> sorted (map T_of xs) \<and>
     (\<forall>x \<in> set xs. 0 < C_of x \<and> C_of x \<le> T_of x \<and> (2 * length xs + 1) * T_of x < 2 ^ 31)"

lemma cdiv_mult_le: "cdiv t T * T \<le> t + T"
proof -
  have "cdiv t T * T \<le> (t div T + 1) * T" using cdiv_le by (rule mult_le_mono1)
  also have "\<dots> \<le> t + T" by simp
  finally show ?thesis .
qed

lemma sum_list_le_const: "(\<And>x. x \<in> set xs \<Longrightarrow> f x \<le> (k :: nat)) \<Longrightarrow> sum_list (map f xs) \<le> length xs * k"
  by (induction xs) (auto simp: add_le_mono)

lemma task_set_ok_fits:
  assumes ok: "task_set_ok xs" and pos: "pos < length xs"
  shows "fits xs pos"
proof -
  let ?T = "T_of (xs ! pos)"
  have x: "0 < T_of x" "T_of x < 2 ^ 31" if "x \<in> set xs" for x
  proof -
    have "C_of x \<le> T_of x" "0 < C_of x" "(2 * length xs + 1) * T_of x < 2 ^ 31"
      using ok that by (auto simp: task_set_ok_def)
    moreover have "T_of x \<le> (2 * length xs + 1) * T_of x" by simp
    ultimately show "0 < T_of x" "T_of x < 2 ^ 31" by linarith+
  qed
  have "cdiv ?T (T_of y) * C_of y \<le> 2 * ?T" if "y \<in> set (take pos xs)" for y
  proof -
    from that obtain j where j: "j < pos" "y = xs ! j" using pos by (auto simp: in_set_conv_nth)
    then have "T_of y \<le> ?T"
      using ok pos sorted_nth_mono [of "map T_of xs" j pos] by (simp add: task_set_ok_def)
    moreover have "C_of y \<le> T_of y" using ok j pos by (simp add: task_set_ok_def)
    then have "cdiv ?T (T_of y) * C_of y \<le> cdiv ?T (T_of y) * T_of y" by simp
    ultimately show ?thesis using cdiv_mult_le [of ?T "T_of y"] by linarith
  qed
  then have "sum_list (map (\<lambda>y. cdiv ?T (T_of y) * C_of y) (take pos xs)) \<le> length (take pos xs) * (2 * ?T)"
    by (rule sum_list_le_const)
  also have "\<dots> \<le> length xs * (2 * ?T)" using pos by simp
  finally have "demand xs pos ?T \<le> C_of (xs ! pos) + length xs * (2 * ?T)" by (simp add: demand_def)
  also have "\<dots> \<le> (2 * length xs + 1) * ?T" using ok pos by (simp add: task_set_ok_def)
  also have "\<dots> < 2 ^ 31" using ok pos by (simp add: task_set_ok_def)
  finally have "demand xs pos ?T < 2 ^ 31" .
  then show ?thesis using pos x set_take_subset [of "pos + 1" xs] by (auto simp: fits_def)
qed

lemma check_from_exact:
  assumes "\<forall>i \<in> set is. fits xs i"
  shows "check_from xs is = Some (if \<forall>i \<in> set is. schedulable_at xs i then 1 else 0)"
  using assms by (induction "is") (simp_all add: rt_test_exact)

lemma check_admission_list_exact:
  assumes "task_set_ok xs"
  shows "check_admission_list xs (length xs) =
    Some (if \<forall>i < length xs. meets_deadline (map ct_of xs) i then 1 else 0)"
proof -
  have "schedulable_at xs i \<longleftrightarrow> meets_deadline (map ct_of xs) i" if "i < length xs" for i
    using assms that by (intro schedulable_at_meets task_set_ok_fits) (simp_all add: task_set_ok_def)
  then show ?thesis
    using check_from_exact [of "[0..<length xs]" xs] task_set_ok_fits [OF assms]
    by (simp add: check_admission_list_def)
qed

subsection \<open>Admission in a kernel state\<close>

lemma mset_build_ct:
  "mset (build_ct le b p es flag) =
     (if flag then {#} else {#ct_entry b p#}) + mset (map (\<lambda>(x, y). ct_entry x y) es)"
  by (induction le b p es flag rule: build_ct.induct) auto

lemma length_build_ct: "length (build_ct le b p es flag) = (if flag then 0 else 1) + length es"
  by (induction le b p es flag rule: build_ct.induct) auto

text \<open>The array the new task is put into: it stays in the order of the periods.\<close>

lemma build_ct_split:
  "build_ct le b p es False =
     map (\<lambda>(x, y). ct_entry x y) (takeWhile (\<lambda>e. \<not> le p (snd e)) es) @ ct_entry b p #
     map (\<lambda>(x, y). ct_entry x y) (dropWhile (\<lambda>e. \<not> le p (snd e)) es)"
proof -
  have t: "build_ct le b p es True = map (\<lambda>(x, y). ct_entry x y) es" for es
    by (induction es) auto
  show ?thesis by (induction es) (auto simp: t)
qed

lemma check_admission_periodic:
  assumes inv: "periodic_inv s ts" "ts \<noteq> []"
    and xs: "xs = build_ct (\<le>s) (convert_to_usecs bud) (convert_to_usecs per)
                    (map (ct_of_task min_budget_time s) ts) False"
    and ok: "task_set_ok xs"
  shows "check_admission bud per s =
      Some (if \<forall>i < length xs. meets_deadline (map ct_of xs) i then 1 else 0)"
proof -
  have n: "periodic_tasks_size s = int (length ts)" "periodic_tasks s = Some ts"
    using inv by (simp_all add: periodic_inv_def periodic_inv_tasks)
  have "length xs = length ts + 1" by (simp add: xs length_build_ct)
  with n inv(2) show ?thesis
    using check_admission_list_exact [OF ok]
    by (simp add: check_admission_def Let_def flip: xs)
qed

text \<open>
  C1. Admission control is exact. For a list of periodic tasks in good order and a task set
  within the bounds of the 32-bit arithmetic, \<open>check_admission\<close> always returns, and it returns 1
  exactly if, on one processor that always runs the task with the shortest period first,
  every task of the list and the new one finish the job released at the critical instant
  before their periods end. The list it tests is the old one and the new task.
\<close>

theorem check_admission_exact:
  assumes inv: "periodic_inv s ts" "ts \<noteq> []"
    and xs: "xs = build_ct (\<le>s) (convert_to_usecs bud) (convert_to_usecs per)
                    (map (ct_of_task min_budget_time s) ts) False"
    and ok: "task_set_ok xs"
  shows "check_admission bud per s =
      Some (if \<forall>i < length xs. meets_deadline (map ct_of xs) i then 1 else 0) \<and>
    mset xs = add_mset (ct_entry (convert_to_usecs bud) (convert_to_usecs per))
                (mset (map (\<lambda>t. case ct_of_task min_budget_time s t of (b, p) \<Rightarrow> ct_entry b p) ts))"
proof
  show "check_admission bud per s = Some (if \<forall>i < length xs. meets_deadline (map ct_of xs) i then 1 else 0)"
    using assms by (rule check_admission_periodic)
  show "mset xs = add_mset (ct_entry (convert_to_usecs bud) (convert_to_usecs per))
                (mset (map (\<lambda>t. case ct_of_task min_budget_time s t of (b, p) \<Rightarrow> ct_entry b p) ts))"
    by (simp add: xs mset_build_ct o_def)
qed

text \<open>A state for concrete instances: every task has a budget of 1 and a period of 4 microseconds.\<close>

definition demo :: kst where
  "demo = boot\<lparr>tasks := (\<lambda>t. (plain_task t)\<lparr>time_period := mk_ts 0 4000, budget_time := mk_ts 0 1000,
                                             min_budget_time := mk_ts 0 1000\<rparr>)\<rparr>"

lemma demo_inv: "cpus_inv demo (\<lambda>_. [])" "periodic_inv demo []" "period_normal demo t"
  by (simp_all add: cpus_inv_def cpu_inv_def periodic_inv_def demo_def boot_def period_normal_def
      mk_ts_def ts_normal_def)

lemma demo_one: "\<exists>s. periodic_inv s [t] \<and> tasks s = tasks demo"
  using add_periodic_task_spec [OF demo_inv(2), of t] by (auto simp: demo_inv insert_by_period_def)

lemma demo_cpu_one: "\<exists>s. cpu_inv s 0 [t] \<and> tasks s = tasks demo"
proof -
  have "cpu_inv demo 0 []" using demo_inv(1) by (simp add: cpus_inv_def)
  from add_task_to_cpu_spec [OF this, of t] show ?thesis by (auto simp: demo_inv insert_by_period_def)
qed

lemma demo_usecs:
  "tasks s = tasks demo \<Longrightarrow> ct_of_task min_budget_time s t = (1, 4)"
  "tasks s = tasks demo \<Longrightarrow> ct_of_task budget_time s t = (1, 4)"
proof -
  have "convert_to_usecs (mk_ts 0 1000) = 1" "convert_to_usecs (mk_ts 0 4000) = 4" by code_simp+
  then show "tasks s = tasks demo \<Longrightarrow> ct_of_task min_budget_time s t = (1, 4)"
    "tasks s = tasks demo \<Longrightarrow> ct_of_task budget_time s t = (1, 4)"
    by (simp_all add: ct_of_task_def demo_def)
qed

lemma demo_task_set: "task_set_ok [ct_entry 1 4, ct_entry 2 8]"
  by (simp add: task_set_ok_def ct_entry_def C_of_def T_of_def)

lemma demo_meets: "\<forall>i < Suc (Suc 0). meets_deadline (map ct_of [ct_entry 1 4, ct_entry 2 8]) i"
proof -
  have "map ct_of [ct_entry 1 4, ct_entry 2 8] = [(1, 4), (2, 8)]"
    by (simp add: ct_of_def C_of_def T_of_def ct_entry_def)
  moreover have "meets_deadline [(1, 4), (2, 8)] 0" "meets_deadline [(1, 4), (2, 8)] (Suc 0)" by code_simp+
  ultimately show ?thesis by (simp only: less_Suc_eq less_zeroE) blast
qed

theorem check_admission_exact_witness:
  "\<exists>s. periodic_tasks s = Some [5] \<and> check_admission (mk_ts 0 2000) (mk_ts 0 8000) s = Some 1"
proof -
  obtain s where s: "periodic_inv s [5]" "tasks s = tasks demo" using demo_one by blast
  have u: "convert_to_usecs (mk_ts 0 2000) = 2" "convert_to_usecs (mk_ts 0 8000) = 8" by code_simp+
  have xs: "[ct_entry 1 4, ct_entry 2 8] = build_ct (\<le>s) (convert_to_usecs (mk_ts 0 2000))
      (convert_to_usecs (mk_ts 0 8000)) (map (ct_of_task min_budget_time s) [5]) False"
    using s(2) by (simp add: u demo_usecs)
  have "check_admission (mk_ts 0 2000) (mk_ts 0 8000) s = Some 1"
    using check_admission_exact [OF s(1) _ xs demo_task_set] demo_meets by simp
  moreover have "periodic_tasks s = Some [5]" using s(1) by (rule periodic_inv_tasks) simp
  ultimately show ?thesis by blast
qed

lemma check_admission_per_cpu_list:
  assumes inv: "cpu_inv s cpu ts" "ts \<noteq> []"
    and xs: "xs = build_ct (\<le>) bud per (map (ct_of_task budget_time s) ts) False"
    and ok: "task_set_ok xs"
  shows "check_admission_per_cpu bud per cpu s =
      Some (if \<forall>i < length xs. meets_deadline (map ct_of xs) i then 1 else 0)"
proof -
  have n: "per_cpu_list_size s cpu = int (length ts)" "cpu_tasks cpu s = Some ts"
    using inv by (simp_all add: cpu_inv_def cpu_inv_tasks)
  have "length xs = length ts + 1" by (simp add: xs length_build_ct)
  with n inv(2) show ?thesis
    using check_admission_list_exact [OF ok]
    by (simp add: check_admission_per_cpu_def Let_def flip: xs)
qed

text \<open>
  C15. The same for one processor: \<open>check_admission_per_cpu\<close> decides exactly whether the tasks
  already on the processor and the new one all meet their first deadlines.
\<close>

theorem check_admission_per_cpu_exact:
  assumes inv: "cpu_inv s cpu ts" "ts \<noteq> []"
    and xs: "xs = build_ct (\<le>) bud per (map (ct_of_task budget_time s) ts) False"
    and ok: "task_set_ok xs"
  shows "check_admission_per_cpu bud per cpu s =
      Some (if \<forall>i < length xs. meets_deadline (map ct_of xs) i then 1 else 0)"
  using assms by (rule check_admission_per_cpu_list)

theorem check_admission_per_cpu_exact_witness:
  "\<exists>s. cpu_tasks 0 s = Some [5] \<and> check_admission_per_cpu 2 8 0 s = Some 1"
proof -
  obtain s where s: "cpu_inv s 0 [5]" "tasks s = tasks demo" using demo_cpu_one by blast
  have xs: "[ct_entry 1 4, ct_entry 2 8] = build_ct (\<le>) 2 8 (map (ct_of_task budget_time s) [5]) False"
    using s(2) by (simp add: demo_usecs)
  have "check_admission_per_cpu 2 8 0 s = Some 1"
    using check_admission_per_cpu_exact [OF s(1) _ xs demo_task_set] demo_meets by simp
  moreover have "cpu_tasks 0 s = Some [5]" using s(1) by (rule cpu_inv_tasks) simp
  ultimately show ?thesis by blast
qed

end
