(* ===== verification/Bubble.thy ===== *)
theory Bubble
  imports Prelude
begin

text \<open>
  Bubble sort with early exit, as \<open>bubble_sort\<close> (tasks by falling utilisation) and
  \<open>get_util_bin\<close> (remaining capacities, rising) of \<open>kernel/sched.c\<close> write it out. The two loops
  differ in the comparison \<open>swap a b\<close> that makes neighbours \<open>a\<close>, \<open>b\<close> change places.
\<close>

definition my_swap :: "'a list \<Rightarrow> nat \<Rightarrow> nat \<Rightarrow> 'a list" where
  "my_swap xs i j = xs[i := xs ! j, j := xs ! i]"

definition bubble_step :: "('a \<Rightarrow> 'a \<Rightarrow> bool) \<Rightarrow> nat \<Rightarrow> 'a list \<times> bool \<Rightarrow> 'a list \<times> bool" where
  "bubble_step swap j = (\<lambda>(xs, flag).
     if swap (xs ! j) (xs ! (j + 1)) then (my_swap xs j (j + 1), True) else (xs, flag))"

definition bubble_pass :: "('a \<Rightarrow> 'a \<Rightarrow> bool) \<Rightarrow> nat \<Rightarrow> 'a list \<Rightarrow> 'a list \<times> bool" where
  "bubble_pass swap k xs = fold (bubble_step swap) [0..<k] (xs, False)"

function bubble_loop :: "('a \<Rightarrow> 'a \<Rightarrow> bool) \<Rightarrow> nat \<Rightarrow> nat \<Rightarrow> bool \<Rightarrow> 'a list \<Rightarrow> 'a list" where
  "bubble_loop swap i n flag xs =
     (if i \<le> n \<and> flag then
        let (xs, flag) = bubble_pass swap (n - i) xs
        in bubble_loop swap (i + 1) n flag xs
      else xs)"
  by pat_completeness auto
termination by (relation "measure (\<lambda>(swap, i, n, flag, xs). n + 1 - i)") auto

declare bubble_loop.simps [simp del]

definition bubble :: "('a \<Rightarrow> 'a \<Rightarrow> bool) \<Rightarrow> nat \<Rightarrow> 'a list \<Rightarrow> 'a list" where
  "bubble swap n xs = bubble_loop swap 1 n True xs"

subsection \<open>It sorts\<close>

lemma mset_my_swap: "i < length xs \<Longrightarrow> j < length xs \<Longrightarrow> mset (my_swap xs i j) = mset xs"
  by (simp add: my_swap_def mset_swap)

lemma length_my_swap [simp]: "length (my_swap xs i j) = length xs"
  by (simp add: my_swap_def)

lemma nth_my_swap:
  "i < length xs \<Longrightarrow> j < length xs \<Longrightarrow>
   my_swap xs i j ! m = (if m = j then xs ! i else if m = i then xs ! j else xs ! m)"
  by (auto simp: my_swap_def nth_list_update)

text \<open>What the loops need of the comparison: it tests a linear order on keys.\<close>

locale bubble_order =
  fixes swap :: "'a \<Rightarrow> 'a \<Rightarrow> bool" and key :: "'a \<Rightarrow> int"
  assumes swap_key: "swap a b \<longleftrightarrow> key b < key a"
begin

text \<open>
  A pass over the first \<open>k + 1\<close> elements brings their maximum to the end and keeps the rest;
  if it swapped nothing they were sorted.
\<close>

lemma pass_spec:
  "k < length xs \<Longrightarrow> bubble_pass swap k xs = (ys, fl) \<Longrightarrow>
   mset ys = mset xs \<and> (\<forall>m. k < m \<longrightarrow> ys ! m = xs ! m) \<and>
   (\<forall>m \<le> k. key (ys ! m) \<le> key (ys ! k)) \<and> (\<forall>m \<le> k. \<exists>p \<le> k. ys ! m = xs ! p) \<and>
   (\<not> fl \<longrightarrow> ys = xs \<and> (\<forall>m < k. key (xs ! m) \<le> key (xs ! Suc m)))"
proof (induction k arbitrary: ys fl)
  case 0
  then show ?case by (simp add: bubble_pass_def)
next
  case (Suc k)
  obtain zs f where z: "bubble_pass swap k xs = (zs, f)" by (cases "bubble_pass swap k xs")
  with Suc have IH: "mset zs = mset xs" "\<forall>m. k < m \<longrightarrow> zs ! m = xs ! m"
    "\<forall>m \<le> k. key (zs ! m) \<le> key (zs ! k)" "\<forall>m \<le> k. \<exists>p \<le> k. zs ! m = xs ! p"
    "\<not> f \<longrightarrow> zs = xs \<and> (\<forall>m < k. key (xs ! m) \<le> key (xs ! Suc m))"
    by (auto dest: Suc_lessD)
  have y: "(ys, fl) = bubble_step swap k (zs, f)" using Suc.prems(2) z by (simp add: bubble_pass_def)
  have len: "length zs = length xs" using IH(1) by (metis size_mset)
  then have k: "k < length zs" "Suc k < length zs" using Suc.prems(1) by simp_all
  show ?case
  proof (cases "swap (zs ! k) (zs ! Suc k)")
    case True
    then have e: "ys = my_swap zs k (Suc k)" "fl" using y by (simp_all add: bubble_step_def)
    have nth: "ys ! m = (if m = Suc k then zs ! k else if m = k then zs ! Suc k else zs ! m)" for m
      using k by (simp add: e nth_my_swap)
    have "key (ys ! m) \<le> key (ys ! Suc k)" if "m \<le> Suc k" for m
      using that True IH(3) by (auto simp: nth swap_key le_Suc_eq)
    moreover have "\<exists>p \<le> Suc k. ys ! m = xs ! p" if "m \<le> Suc k" for m
    proof (cases "m = k")
      case True
      then show ?thesis using IH(2) by (intro exI [of _ "Suc k"]) (simp add: nth)
    next
      case False
      then have "\<exists>p \<le> k. ys ! m = xs ! p" using that IH(4) by (auto simp: nth le_Suc_eq)
      then show ?thesis using le_SucI by blast
    qed
    moreover have "mset ys = mset xs" using IH(1) k by (simp add: e mset_my_swap)
    moreover have "\<forall>m. Suc k < m \<longrightarrow> ys ! m = xs ! m" using IH(2) by (simp add: nth)
    ultimately show ?thesis using e(2) by blast
  next
    case False
    then have e: "ys = zs" "fl = f" using y by (simp_all add: bubble_step_def)
    have o: "key (zs ! k) \<le> key (zs ! Suc k)" using False by (simp add: swap_key)
    have "key (ys ! m) \<le> key (ys ! Suc k)" if "m \<le> Suc k" for m
    proof (cases "m = Suc k")
      case False
      then have "key (zs ! m) \<le> key (zs ! k)" using that IH(3) by simp
      with o show ?thesis by (simp add: e)
    qed simp
    moreover have "\<exists>p \<le> Suc k. ys ! m = xs ! p" if "m \<le> Suc k" for m
    proof (cases "m = Suc k")
      case True
      then show ?thesis using IH(2) by (intro exI [of _ "Suc k"]) (simp add: e)
    next
      case False
      then have "\<exists>p \<le> k. ys ! m = xs ! p" using that IH(4) by (simp add: e)
      then show ?thesis using le_SucI by blast
    qed
    moreover have "\<not> fl \<longrightarrow> ys = xs \<and> (\<forall>m < Suc k. key (xs ! m) \<le> key (xs ! Suc m))"
      using IH(5) o by (auto simp: e less_Suc_eq)
    ultimately show ?thesis using IH(1,2) by (simp add: e)
  qed
qed

text \<open>From position \<open>m\<close> on, every element is in its final place.\<close>

definition settled :: "nat \<Rightarrow> 'a list \<Rightarrow> bool" where
  "settled m xs \<longleftrightarrow> (\<forall>q < length xs. m \<le> q \<longrightarrow> (\<forall>p \<le> q. key (xs ! p) \<le> key (xs ! q)))"

lemma settled_sorted: "settled 0 xs \<Longrightarrow> sorted (map key xs)"
  by (auto simp: settled_def sorted_iff_nth_mono)

lemma pass_settles:
  assumes "k < length xs" "bubble_pass swap k xs = (ys, fl)" "settled (Suc k) xs"
  shows "settled k ys" "mset ys = mset xs"
proof -
  note s = pass_spec [OF assms(1,2)]
  then show m: "mset ys = mset xs" by blast
  then have len: "length ys = length xs" by (metis size_mset)
  show "settled k ys" unfolding settled_def
  proof (intro allI impI)
    fix q p assume q: "q < length ys" "k \<le> q" "p \<le> q"
    show "key (ys ! p) \<le> key (ys ! q)"
    proof (cases "q = k")
      case True
      then show ?thesis using s q by blast
    next
      case False
      then have Q: "ys ! q = xs ! q" "Suc k \<le> q" using s q by auto
      obtain p' where "p' \<le> q" "ys ! p = xs ! p'"
      proof (cases "p \<le> k")
        case True
        then obtain p' where "p' \<le> k" "ys ! p = xs ! p'" using s by blast
        then show ?thesis using that [of p'] Q(2) by linarith
      next
        case False
        then have "ys ! p = xs ! p" using s by simp
        with that q(3) show ?thesis by blast
      qed
      then show ?thesis using assms(3) Q q len by (simp add: settled_def)
    qed
  qed
qed

lemma chain_sorted:
  "\<forall>m < k. key (xs ! m) \<le> key (xs ! Suc m) \<Longrightarrow> p \<le> q \<Longrightarrow> q \<le> k \<Longrightarrow> key (xs ! p) \<le> key (xs ! q)"
proof (induction q)
  case (Suc q)
  then have "key (xs ! q) \<le> key (xs ! Suc q)" by simp
  moreover have "p \<le> q \<Longrightarrow> key (xs ! p) \<le> key (xs ! q)" using Suc by simp
  ultimately show ?case using Suc.prems(2) by (cases "p = Suc q") auto
qed simp

lemma quiet_pass_done:
  assumes "k < length xs" "bubble_pass swap k xs = (ys, False)" "settled (Suc k) xs"
  shows "settled 0 ys"
proof -
  have s: "ys = xs" "\<forall>m < k. key (xs ! m) \<le> key (xs ! Suc m)"
    using pass_spec [OF assms(1,2)] by simp_all
  show ?thesis unfolding settled_def
  proof (intro allI impI)
    fix q p assume q: "q < length ys" "0 \<le> q" "p \<le> q"
    show "key (ys ! p) \<le> key (ys ! q)"
    proof (cases "q \<le> k")
      case True
      then show ?thesis using chain_sorted [OF s(2) q(3)] s(1) by simp
    next
      case False
      then show ?thesis using assms(3) q s(1) by (simp add: settled_def)
    qed
  qed
qed

lemma loop_spec:
  "length xs = n \<Longrightarrow> 1 \<le> i \<Longrightarrow> i \<le> n + 1 \<Longrightarrow>
   (if flag then settled (n + 1 - i) xs else settled 0 xs) \<Longrightarrow>
   mset (bubble_loop swap i n flag xs) = mset xs \<and> settled 0 (bubble_loop swap i n flag xs)"
proof (induction "n + 1 - i" arbitrary: i flag xs)
  case 0
  then have "\<not> i \<le> n" by simp
  then show ?case using 0 by (subst (1 2) bubble_loop.simps) (simp split: if_splits)
next
  case (Suc d)
  then have i: "i \<le> n" by simp
  show ?case
  proof (cases flag)
    case False
    then show ?thesis using Suc.prems by (subst (1 2) bubble_loop.simps) simp
  next
    case True
    obtain ys f where y: "bubble_pass swap (n - i) xs = (ys, f)" by fastforce
    have k: "n - i < length xs" using Suc.prems(1,2) i by simp
    have "settled (Suc (n - i)) xs" using Suc.prems(4) True i by (simp add: Suc_diff_le)
    note set = pass_settles [OF k y this] and quiet = quiet_pass_done [OF k _ this]
    have len: "length ys = n" using set(2) Suc.prems(1) by (metis size_mset)
    have e: "bubble_loop swap i n flag xs = bubble_loop swap (i + 1) n f ys"
      using True i y by (subst bubble_loop.simps) simp
    have "mset (bubble_loop swap (i + 1) n f ys) = mset ys \<and> settled 0 (bubble_loop swap (i + 1) n f ys)"
    proof (rule Suc.hyps(1))
      show "d = n + 1 - (i + 1)" using Suc.hyps(2) by simp
      show "if f then settled (n + 1 - (i + 1)) ys else settled 0 ys" using set(1) quiet y by auto
    qed (use len i in auto)
    then show ?thesis by (simp only: e set(2))
  qed
qed

lemma bubble_sorts:
  assumes "length xs = n"
  shows "mset (bubble swap n xs) = mset xs" "sorted (map key (bubble swap n xs))"
proof -
  have "settled n xs" using assms by (simp add: settled_def)
  then have "mset (bubble swap n xs) = mset xs \<and> settled 0 (bubble swap n xs)"
    unfolding bubble_def using assms by (intro loop_spec) simp_all
  then show "mset (bubble swap n xs) = mset xs" "sorted (map key (bubble swap n xs))"
    by (simp_all add: settled_sorted)
qed

end

end
