(* ===== verification/BinPacking.thy ===== *)
theory BinPacking
  imports Admission Bubble
begin

unbundle bit_operations_syntax

text \<open>
  Partitioning the periodic tasks over the four processors (\<open>sort_periodic_tasklist\<close>,
  \<open>bubble_sort\<close>, \<open>get_util_bin\<close> and \<open>bin_packing\<close> of \<open>kernel/sched.c\<close>): first fit, next fit,
  best fit and two worst fits, each trying the tasks by falling utilisation and asking
  \<open>check_admission_per_cpu\<close> before it places one.
\<close>

subsection \<open>Sorting\<close>

definition bubble_sort :: "task_ct_struct list \<Rightarrow> nat \<Rightarrow> task_ct_struct list" where
  "bubble_sort start total_tasks = bubble (\<lambda>a b. util a < util b) total_tasks start"

definition util_entry :: "kst \<Rightarrow> tid \<Rightarrow> task_ct_struct" where
  "util_entry s t =
     (let temp_budget = convert_to_usecs (min_budget_time (tasks s t));
          temp_period = convert_to_usecs (time_period (tasks s t));
          temp2 = ucast temp_budget * SCALE_UP_FACTOR
      in \<lparr>budget = temp_budget, period = temp_period, util = fst (div64_32 temp2 temp_period),
          ct_task = t\<rparr>)"

text \<open>The caller's array has \<open>periodic_tasks_size\<close> slots: a list of another length is \<open>None\<close>.\<close>

definition sort_periodic_tasklist :: "kst \<Rightarrow> task_ct_struct list option" where
  "sort_periodic_tasklist s = do {
     ts \<leftarrow> periodic_tasks s;
     if int (length ts) = periodic_tasks_size s
     then Some (bubble_sort (map (util_entry s) ts) (length ts)) else None
   }"

text \<open>
  The processor whose remaining capacity is the \<open>nth\<close> smallest among the first \<open>n\<close>. Reading
  \<open>sorted_bins\<close> outside of what was filled is \<open>None\<close>; a value that is found nowhere gives -1.
\<close>

definition get_util_bin :: "(nat \<Rightarrow> s32) \<Rightarrow> nat \<Rightarrow> nat \<Rightarrow> int option" where
  "get_util_bin bins nth_highest n =
     (if n \<le> MAX_CPU \<and> nth_highest < n then
        let sorted_bins = map bins [0..<n];
            sorted_bins = (if n \<noteq> 1 then bubble (\<lambda>a b. b <s a) n sorted_bins else sorted_bins);
            nth_util = sorted_bins ! nth_highest
        in Some (case find (\<lambda>i. bins i = nth_util) [0..<n] of Some i \<Rightarrow> int i | None \<Rightarrow> - 1)
      else None)"

subsection \<open>Placing a task\<close>

text \<open>The local variables of \<open>bin_packing\<close> and the kernel state.\<close>

record packing =
  current_bins :: nat
  prev_bin :: nat
  cpumask :: u32
  kern :: kst

text \<open>
  What every scheme does with the bin it has found: \<open>on_cpu\<close>, the affinity (the mask is one
  variable for the whole run), the processor's list, the processor's remaining capacity.
\<close>

definition place :: "task_ct_struct \<Rightarrow> nat \<Rightarrow> packing \<Rightarrow> packing option" where
  "place x j b =
     (let t = ct_task x;
          s = upd_task t (\<lambda>p. p\<lparr>on_cpu := int j\<rparr>) (kern b);
          m = cpumask b OR push_bit j 1;
          s = snd (sched_setaffinity (pid (tasks s t)) m s)
      in do {
        s \<leftarrow> add_task_to_cpu t j s;
        let s = s\<lparr>cpu_util := (cpu_util s)(j := cpu_util s j - ucast (util x))\<rparr>;
        Some (b\<lparr>cpumask := m, kern := s\<rparr>)
      })"

definition admits :: "task_ct_struct \<Rightarrow> nat \<Rightarrow> packing \<Rightarrow> bool option" where
  "admits x j b = do {
     r \<leftarrow> check_admission_per_cpu (budget x) (period x) j (kern b);
     Some (r = 1)
   }"

subsection \<open>The schemes\<close>

text \<open>Each scheme handles one task; \<open>False\<close> is the \<open>return 0\<close> of the source.\<close>

fun first_fit :: "task_ct_struct \<Rightarrow> nat list \<Rightarrow> packing \<Rightarrow> nat option option" where
  "first_fit x [] b = Some None"
| "first_fit x (j # js) b = do { ok \<leftarrow> admits x j b; if ok then Some (Some j) else first_fit x js b }"

function ffd_task :: "task_ct_struct \<Rightarrow> packing \<Rightarrow> (bool \<times> packing) option" where
  "ffd_task x b = do {
     r \<leftarrow> first_fit x [0..<current_bins b] b;
     case r of
       Some j \<Rightarrow> do { b \<leftarrow> place x j b; Some (True, b) }
     | None \<Rightarrow>
         let b = b\<lparr>current_bins := current_bins b + 1\<rparr> in
         if MAX_CPU < current_bins b then Some (False, b) else ffd_task x b
   }"
  by pat_completeness auto
termination by (relation "measure (\<lambda>(x, b). MAX_CPU - current_bins b)") auto

declare ffd_task.simps [simp del]

text \<open>\<open>Inl\<close>: the bin found; \<open>Inr\<close>: none, with the value of \<open>prev_bin\<close> after the loop.\<close>

fun nfd_search :: "task_ct_struct \<Rightarrow> nat \<Rightarrow> nat \<Rightarrow> packing \<Rightarrow> (nat + nat) option" where
  "nfd_search x 0 p b = Some (Inr p)"
| "nfd_search x (Suc n) p b = do {
     ok \<leftarrow> admits x p b;
     if ok then Some (Inl p) else nfd_search x n ((p + 1) mod current_bins b) b
   }"

definition nfd_task :: "task_ct_struct \<Rightarrow> packing \<Rightarrow> (bool \<times> packing) option" where
  "nfd_task x b = do {
     r \<leftarrow> nfd_search x (current_bins b) (prev_bin b) b;
     case r of
       Inl p \<Rightarrow> do { b \<leftarrow> place x p (b\<lparr>prev_bin := p\<rparr>); Some (True, b) }
     | Inr p \<Rightarrow>
         if current_bins b < MAX_CPU then do {
           let b = b\<lparr>current_bins := current_bins b + 1\<rparr>;
           b \<leftarrow> place x (current_bins b - 1) b;
           Some (True, b\<lparr>prev_bin := current_bins b - 1\<rparr>)
         }
         else Some (\<not> MAX_CPU < current_bins b, b\<lparr>prev_bin := p\<rparr>)
   }"

text \<open>
  Best and worst fit share their loop: the rank of the bin to try is \<open>j\<close> for best fit and
  \<open>(current_bins - 1) - j\<close> for worst fit.
\<close>

function fit_loop :: "(nat \<Rightarrow> nat \<Rightarrow> nat) \<Rightarrow> task_ct_struct \<Rightarrow> nat \<Rightarrow> packing \<Rightarrow> (bool \<times> packing) option" where
  "fit_loop rank x j b =
     (if current_bins b \<le> MAX_CPU \<and> j < current_bins b then do {
        best_fit_bin \<leftarrow> get_util_bin (cpu_util (kern b)) (rank j (current_bins b)) (current_bins b);
        if best_fit_bin < 0 then None
        else do {
          ok \<leftarrow> admits x (nat best_fit_bin) b;
          if ok then do { b \<leftarrow> place x (nat best_fit_bin) b; Some (True, b) }
          else
            let b = (if j + 1 = current_bins b then b\<lparr>current_bins := current_bins b + 1\<rparr> else b) in
            if MAX_CPU < current_bins b then Some (False, b) else fit_loop rank x (j + 1) b
        }
      }
      else None)"
  by pat_completeness auto
termination by (relation "measure (\<lambda>(rank, x, j, b). MAX_CPU - j)") (auto split: if_splits)

declare fit_loop.simps [simp del]

definition bfd_task :: "task_ct_struct \<Rightarrow> packing \<Rightarrow> (bool \<times> packing) option" where
  "bfd_task x b = fit_loop (\<lambda>j n. j) x 0 b"

definition wfd_task :: "task_ct_struct \<Rightarrow> packing \<Rightarrow> (bool \<times> packing) option" where
  "wfd_task x b = fit_loop (\<lambda>j n. (n - 1) - j) x 0 b"

fun pack_tasks :: "(task_ct_struct \<Rightarrow> packing \<Rightarrow> (bool \<times> packing) option) \<Rightarrow> task_ct_struct list \<Rightarrow> packing
    \<Rightarrow> (bool \<times> packing) option" where
  "pack_tasks f [] b = Some (True, b)"
| "pack_tasks f (x # xs) b = do {
     (ok, b) \<leftarrow> f x b;
     if ok then pack_tasks f xs b else Some (False, b)
   }"

definition bin_packing :: "int \<Rightarrow> kst \<Rightarrow> (int \<times> kst) option" where
  "bin_packing scheme s =
     (let b = \<lparr>current_bins = 1, prev_bin = 0, cpumask = 0, kern = s\<rparr> in
      if periodic_tasks_size s \<le> 0 then Some (0, s)
      else do {
        list \<leftarrow> sort_periodic_tasklist s;
        (ok, b) \<leftarrow>
          (if scheme = 0 then pack_tasks ffd_task list b
           else if scheme = 1 then pack_tasks nfd_task list b
           else if scheme = 2 then pack_tasks bfd_task list b
           else if scheme = 3 then pack_tasks wfd_task list (b\<lparr>current_bins := 1\<rparr>)
           else if scheme = 4 then pack_tasks wfd_task list (b\<lparr>current_bins := 4\<rparr>)
           else Some (True, b));
        Some (if ok then int (current_bins b) else 0, kern b)
      })"

text \<open>\<open>sys_setBinPacking\<close> (\<open>setBinPacking/\<close>): a failed packing is undone.\<close>

definition sys_setBinPacking :: "int \<Rightarrow> kst \<Rightarrow> (int \<times> kst) option" where
  "sys_setBinPacking scheme s =
     (if scheme < 0 \<or> 4 < scheme then Some (- EINVAL, s)
      else do {
        let s = s\<lparr>bin_packing_scheme := scheme, power_scheme := 0\<rparr>;
        (ret_val, s) \<leftarrow> bin_packing scheme s;
        if ret_val = 0 then do { s \<leftarrow> clear_cpu_lists s; Some (- EINVAL, s) }
        else Some (ret_val, s)
      })"

definition sys_cancelBinPacking :: "kst \<Rightarrow> int \<times> kst" where
  "sys_cancelBinPacking s = (0, s\<lparr>is_bin_packing_set := 0\<rparr>)"

end
