(* ===== verification/Packing.thy ===== *)
theory Packing
  imports BinPacking
begin

text \<open>
  What bin packing achieves: the sort is a sort, the ranking finds the bin it promises, a
  successful packing partitions the tasks over the processors with every deadline met, and a
  failed one leaves lists that \<open>clear_cpu_lists\<close> empties.
\<close>

unbundle bit_operations_syntax

interpretation util_order: bubble_order "\<lambda>a b. util a < util b" "\<lambda>x. - uint (util x)"
  by unfold_locales (simp add: word_less_def)

interpretation bins_order: bubble_order "\<lambda>a b :: s32. b <s a" sint
  by unfold_locales (simp add: word_sless_alt)

subsection \<open>Sorting and ranking\<close>

lemma sort_periodic_tasklist_spec:
  assumes "periodic_inv s ts" "ts \<noteq> []"
  shows "\<exists>xs. sort_periodic_tasklist s = Some xs \<and> mset xs = mset (map (util_entry s) ts) \<and>
     sorted_wrt (\<lambda>x y. util y \<le> util x) xs"
proof -
  let ?xs = "bubble_sort (map (util_entry s) ts) (length ts)"
  have "sort_periodic_tasklist s = Some ?xs"
    using assms by (simp add: sort_periodic_tasklist_def periodic_inv_tasks) (simp add: periodic_inv_def)
  moreover have "mset ?xs = mset (map (util_entry s) ts)"
    unfolding bubble_sort_def by (rule util_order.bubble_sorts) simp
  moreover have "sorted (map (\<lambda>x. - uint (util x)) ?xs)"
    unfolding bubble_sort_def by (rule util_order.bubble_sorts) simp
  then have "sorted_wrt (\<lambda>x y. util y \<le> util x) ?xs"
    by (simp add: sorted_wrt_map word_le_def)
  ultimately show ?thesis by blast
qed

text \<open>
  C27. The tasks are tried by falling utilisation: \<open>sort_periodic_tasklist\<close> returns every task of
  the periodic list exactly once, with its budget, period and utilisation, and no later entry
  has a higher utilisation.
\<close>

theorem sort_periodic_tasklist_sorts:
  assumes "periodic_inv s ts" "ts \<noteq> []"
  shows "\<exists>xs. sort_periodic_tasklist s = Some xs \<and> mset xs = mset (map (util_entry s) ts) \<and>
     sorted_wrt (\<lambda>x y. util y \<le> util x) xs"
  using assms by (rule sort_periodic_tasklist_spec)

theorem sort_periodic_tasklist_sorts_witness:
  "\<exists>s xs. periodic_tasks s = Some [5] \<and> sort_periodic_tasklist s = Some xs \<and> map ct_task xs = [5]"
proof -
  obtain s where s: "periodic_inv s [5]" using boot_one_task by blast
  from sort_periodic_tasklist_sorts [OF s] obtain xs where
    "sort_periodic_tasklist s = Some xs" "mset xs = {#util_entry s 5#}" by auto
  moreover from this have "xs = [util_entry s 5]" by simp
  ultimately show ?thesis using periodic_inv_tasks [OF s] by (auto simp: util_entry_def Let_def)
qed

lemma sorted_rank:
  assumes "sorted (map f zs)" "k < length zs"
  shows "length (filter (\<lambda>z. f z < f (zs ! k)) zs) \<le> k" "k < length (filter (\<lambda>z. f z \<le> (f (zs ! k) :: int)) zs)"
proof -
  let ?v = "f (zs ! k)"
  have ge: "?v \<le> f z" if z: "z \<in> set (drop k zs)" for z
  proof -
    from z obtain i where "i < length (drop k zs)" "z = drop k zs ! i" by (metis in_set_conv_nth)
    then have "k + i < length zs" "z = zs ! (k + i)" by simp_all
    then show ?thesis using sorted_nth_mono [OF assms(1), of k "k + i"] by simp
  qed
  have le: "f z \<le> ?v" if z: "z \<in> set (take (Suc k) zs)" for z
  proof -
    from z obtain i where "i < length (take (Suc k) zs)" "z = take (Suc k) zs ! i" by (metis in_set_conv_nth)
    then have "i \<le> k" "z = zs ! i" by simp_all
    then show ?thesis using sorted_nth_mono [OF assms(1), of i k] assms(2) by simp
  qed
  have "filter (\<lambda>z. f z < ?v) zs = filter (\<lambda>z. f z < ?v) (take k zs) @ filter (\<lambda>z. f z < ?v) (drop k zs)"
    by (simp flip: filter_append)
  moreover have "filter (\<lambda>z. f z < ?v) (drop k zs) = []" using ge by (auto simp: filter_empty_conv not_less)
  ultimately have "length (filter (\<lambda>z. f z < ?v) zs) \<le> length (take k zs)"
    by (metis append_Nil2 length_filter_le)
  then show "length (filter (\<lambda>z. f z < ?v) zs) \<le> k" by simp
  have "filter (\<lambda>z. f z \<le> ?v) zs
      = filter (\<lambda>z. f z \<le> ?v) (take (Suc k) zs) @ filter (\<lambda>z. f z \<le> ?v) (drop (Suc k) zs)"
    by (simp flip: filter_append)
  moreover have "filter (\<lambda>z. f z \<le> ?v) (take (Suc k) zs) = take (Suc k) zs" using le by (simp add: filter_id_conv)
  ultimately have "length (take (Suc k) zs) \<le> length (filter (\<lambda>z. f z \<le> ?v) zs)" by simp
  then show "k < length (filter (\<lambda>z. f z \<le> ?v) zs)" using assms(2) by simp
qed

lemma length_filter_mset: "mset xs = mset ys \<Longrightarrow> length (filter P xs) = length (filter P ys)"
  by (metis mset_filter size_mset)

lemma get_util_bin_spec:
  assumes "n \<le> MAX_CPU" "k < n"
  shows "\<exists>i < n. get_util_bin bins k n = Some (int i) \<and>
     length (filter (\<lambda>c. bins c <s bins i) [0..<n]) \<le> k \<and>
     k < length (filter (\<lambda>c. bins c \<le>s bins i) [0..<n]) \<and> (\<forall>c < i. bins c \<noteq> bins i)"
proof -
  define zs where "zs = (if n \<noteq> 1 then bubble (\<lambda>a b. b <s a) n (map bins [0..<n]) else map bins [0..<n])"
  have z: "mset zs = mset (map bins [0..<n])" "sorted (map sint zs)"
    using bins_order.bubble_sorts [of "map bins [0..<n]" n] by (auto simp: zs_def)
  have "length zs = n" using z(1) by (metis diff_zero length_map length_upt size_mset)
  with assms(2) have k: "k < length zs" by simp
  then have "zs ! k \<in> set (map bins [0..<n])" using z(1) by (metis mset_eq_setD nth_mem)
  then have "\<exists>i. i \<in> set [0..<n] \<and> bins i = zs ! k" by auto
  then obtain i where f: "find (\<lambda>i. bins i = zs ! k) [0..<n] = Some i"
    using find_None_iff [of "\<lambda>i. bins i = zs ! k" "[0..<n]"] by (metis not_None_eq)
  then have i: "i < n" "bins i = zs ! k" "\<forall>c < i. bins c \<noteq> zs ! k"
    by (auto simp: find_Some_iff)
  have "get_util_bin bins k n = Some (int i)"
    using assms f by (simp add: get_util_bin_def Let_def zs_def)
  moreover have "length (filter (\<lambda>c. bins c <s bins i) [0..<n]) = length (filter (\<lambda>v. sint v < sint (zs ! k)) zs)"
    using length_filter_mset [OF z(1), of "\<lambda>v. sint v < sint (zs ! k)"]
    by (simp add: filter_map o_def word_sless_alt i(2))
  moreover have "length (filter (\<lambda>c. bins c \<le>s bins i) [0..<n]) = length (filter (\<lambda>v. sint v \<le> sint (zs ! k)) zs)"
    using length_filter_mset [OF z(1), of "\<lambda>v. sint v \<le> sint (zs ! k)"]
    by (simp add: filter_map o_def word_sle_eq i(2))
  ultimately show ?thesis using sorted_rank [OF z(2) k] i by (intro exI [of _ i]) simp
qed

subsection \<open>Placing a task keeps the lists in order\<close>

text \<open>What bin packing leaves alone: the parameters of the tasks and the periodic list.\<close>

definition same_params :: "kst \<Rightarrow> kst \<Rightarrow> bool" where
  "same_params s s' \<longleftrightarrow>
     (\<forall>t. time_period (tasks s' t) = time_period (tasks s t) \<and>
          budget_time (tasks s' t) = budget_time (tasks s t) \<and>
          min_budget_time (tasks s' t) = min_budget_time (tasks s t)) \<and>
     periodic_tasks_size s' = periodic_tasks_size s \<and>
     (\<forall>t. lists s' PHead = lists s PHead \<and> lists s' (PNode t) = lists s (PNode t))"

lemma same_params_refl [simp]: "same_params s s"
  by (simp add: same_params_def)

lemma same_params_trans: "same_params s s1 \<Longrightarrow> same_params s1 s2 \<Longrightarrow> same_params s s2"
  by (simp add: same_params_def)

lemma sched_setaffinity_frame:
  fixes s n m defines "s' \<equiv> snd (sched_setaffinity n m s)"
  shows "time_period (tasks s' t) = time_period (tasks s t)"
    "budget_time (tasks s' t) = budget_time (tasks s t)"
    "min_budget_time (tasks s' t) = min_budget_time (tasks s t)"
    "lists s' = lists s" "periodic_tasks_size s' = periodic_tasks_size s"
    "per_cpu_list_size s' = per_cpu_list_size s" "cpu_util s' = cpu_util s"
  by (auto simp: s'_def sched_setaffinity_def set_cpus_allowed_ptr_def split: option.split)

lemma cpus_inv_frame:
  assumes "cpus_inv s q" "\<And>t. time_period (tasks s' t) = time_period (tasks s t)"
    "per_cpu_list_size s' = per_cpu_list_size s" "lists s' = lists s"
  shows "cpus_inv s' q"
  unfolding cpus_inv_def
proof (intro conjI allI impI)
  fix c :: nat assume "c < MAX_CPU"
  then have "cpu_inv s c (q c)" using assms(1) by (simp add: cpus_inv_def)
  then show "cpu_inv s' c (q c)" by (rule cpu_inv_frame) (simp_all add: assms)
qed (use assms(1) in \<open>simp add: cpus_inv_def\<close>)

lemma add_task_to_cpu_keeps:
  assumes q: "cpus_inv s q" and j: "j < MAX_CPU" and t: "\<forall>c < MAX_CPU. t \<notin> set (q c)" "period_normal s t"
  shows "\<exists>s'. add_task_to_cpu t j s = Some s' \<and> cpus_inv s' (q(j := insert_by_period s t (q j))) \<and>
    same_params s s' \<and> cpu_util s' = cpu_util s"
proof -
  have cj: "cpu_inv s j (q j)" using q j by (simp add: cpus_inv_def)
  from add_task_to_cpu_spec [OF cj _ t(2)] t(1) j obtain h where
    a: "add_task_to_cpu t j s = Some (with_cpu_list s j (per_cpu_list_size s j + 1) h)"
    "cpu_inv (with_cpu_list s j (per_cpu_list_size s j + 1) h) j (insert_by_period s t (q j))"
    "\<forall>x. x \<noteq> CHead j \<and> x \<notin> CNode ` insert t (set (q j)) \<longrightarrow> h x = lists s x" by blast
  let ?s = "with_cpu_list s j (per_cpu_list_size s j + 1) h"
  have other: "cpu_inv ?s c (q c)" if c: "c < MAX_CPU" "c \<noteq> j" for c
  proof (rule cpu_inv_frame [of s])
    show "cpu_inv s c (q c)" using q c by (simp add: cpus_inv_def)
    have "set (q c) \<inter> set (q j) = {}" "t \<notin> set (q c)" using q c j t(1) by (auto simp: cpus_inv_def)
    then show "lists ?s x = lists s x" if "x = CHead c \<or> x \<in> CNode ` set (q c)" for x
      using that a(3) c(2) by auto
  qed (use c in simp_all)
  have dis: "set (q c) \<inter> set (q d) = {}" if "c < MAX_CPU" "d < MAX_CPU" "c \<noteq> d" for c d
    using q that by (simp add: cpus_inv_def)
  have "cpus_inv ?s (q(j := insert_by_period s t (q j)))"
    unfolding cpus_inv_def
  proof (intro conjI allI impI)
    fix c :: nat assume "c < MAX_CPU"
    then show "cpu_inv ?s c ((q(j := insert_by_period s t (q j))) c)" using a(2) other by simp
  next
    fix c d :: nat assume "c < MAX_CPU" "d < MAX_CPU" "c \<noteq> d"
    then show "set ((q(j := insert_by_period s t (q j))) c) \<inter> set ((q(j := insert_by_period s t (q j))) d) = {}"
      using dis [of c d] t(1) by auto
  qed
  moreover have "same_params s ?s" using a(3) by (auto simp: same_params_def)
  ultimately show ?thesis using a(1) by (intro exI [of _ ?s]) simp
qed

lemma place_spec:
  assumes q: "cpus_inv (kern b) q" and j: "j < MAX_CPU"
    and t: "\<forall>c < MAX_CPU. ct_task x \<notin> set (q c)" "period_normal (kern b) (ct_task x)"
  shows "\<exists>b'. place x j b = Some b' \<and>
    cpus_inv (kern b') (q(j := insert_by_period (kern b) (ct_task x) (q j))) \<and>
    same_params (kern b) (kern b') \<and> current_bins b' = current_bins b \<and> prev_bin b' = prev_bin b"
proof -
  define s1 where "s1 = upd_task (ct_task x) (\<lambda>p. p\<lparr>on_cpu := int j\<rparr>) (kern b)"
  define m where "m = (cpumask b OR push_bit j 1 :: u32)"
  define s2 where "s2 = snd (sched_setaffinity (pid (tasks s1 (ct_task x))) m s1)"
  have f: "time_period (tasks s2 u) = time_period (tasks (kern b) u)"
    "budget_time (tasks s2 u) = budget_time (tasks (kern b) u)"
    "min_budget_time (tasks s2 u) = min_budget_time (tasks (kern b) u)"
    "lists s2 = lists (kern b)" "periodic_tasks_size s2 = periodic_tasks_size (kern b)"
    "per_cpu_list_size s2 = per_cpu_list_size (kern b)" for u
    by (simp_all add: s2_def sched_setaffinity_frame s1_def)
  have i2: "cpus_inv s2 q" by (rule cpus_inv_frame [OF q]) (simp_all add: f)
  have sp: "same_params (kern b) s2" by (simp add: same_params_def f)
  have pn: "period_normal s2 (ct_task x)" using t(2) by (simp add: period_normal_def f)
  have ins: "insert_by_period s2 (ct_task x) (q j) = insert_by_period (kern b) (ct_task x) (q j)"
    by (simp add: insert_by_period_def period_ns_def f)
  from add_task_to_cpu_keeps [OF i2 j t(1) pn] obtain s3 where s3:
    "add_task_to_cpu (ct_task x) j s2 = Some s3" "same_params s2 s3"
    "cpus_inv s3 (q(j := insert_by_period (kern b) (ct_task x) (q j)))" by (auto simp: ins)
  define s4 where "s4 = s3\<lparr>cpu_util := (cpu_util s3)(j := cpu_util s3 j - ucast (util x))\<rparr>"
  have "place x j b = Some (b\<lparr>cpumask := m, kern := s4\<rparr>)"
    using s3(1) by (simp add: place_def Let_def s1_def m_def s2_def s4_def)
  moreover have "cpus_inv s4 (q(j := insert_by_period (kern b) (ct_task x) (q j)))"
    by (rule cpus_inv_frame [OF s3(3)]) (simp_all add: s4_def)
  moreover have "same_params (kern b) s4"
    using same_params_trans [OF sp s3(2)] by (simp add: same_params_def s4_def)
  ultimately show ?thesis by (intro exI [of _ "b\<lparr>cpumask := m, kern := s4\<rparr>"]) simp
qed

subsection \<open>The parameters of the tasks\<close>

definition ctp :: "kst \<Rightarrow> tid \<Rightarrow> ct" where
  "ctp s t = (unat (convert_to_usecs (min_budget_time (tasks s t))),
              unat (convert_to_usecs (time_period (tasks s t))))"

text \<open>
  Task parameters the test is exact for: valid periods below 2147 seconds, the budget to be
  enforced is the one that was admitted, and it is positive and within the period; the bound
  on the periods keeps the sums of any selection of the tasks below \<open>2 ^ 31\<close>.
\<close>

definition params_ok :: "kst \<Rightarrow> tid list \<Rightarrow> bool" where
  "params_ok s ts \<longleftrightarrow> (\<forall>t \<in> set ts.
     ts_normal (time_period (tasks s t)) \<and> 0 \<le> sint (tv_sec (time_period (tasks s t))) \<and>
     sint (tv_sec (time_period (tasks s t))) < 2147 \<and>
     budget_time (tasks s t) = min_budget_time (tasks s t) \<and>
     0 < fst (ctp s t) \<and> fst (ctp s t) \<le> snd (ctp s t) \<and>
     (2 * length ts + 1) * snd (ctp s t) < 2 ^ 31)"

lemma ctp_same: "same_params s s' \<Longrightarrow> ctp s' = ctp s"
  by (simp add: ctp_def same_params_def fun_eq_iff)

lemma params_ok_same: "same_params s s' \<Longrightarrow> params_ok s' ts = params_ok s ts"
  unfolding params_ok_def by (simp add: ctp_same) (simp add: same_params_def)

lemma period_us: "params_ok s ts \<Longrightarrow> t \<in> set ts \<Longrightarrow> int (snd (ctp s t)) = period_ns s t div 1000"
  using unat_convert_to_usecs(1) [of "time_period (tasks s t)"]
  by (simp add: params_ok_def ctp_def period_ns_def del: of_nat_unat)

lemma sorted_us:
  assumes "params_ok s ts" "set qs \<subseteq> set ts" "sorted (map (period_ns s) qs)"
  shows "sorted (map snd (map (ctp s) qs))"
proof -
  have "snd (ctp s (qs ! i)) \<le> snd (ctp s (qs ! j))" if "i \<le> j" "j < length qs" for i j
  proof -
    have "period_ns s (qs ! i) \<le> period_ns s (qs ! j)"
      using sorted_nth_mono [OF assms(3), of i j] that by simp
    then have div: "period_ns s (qs ! i) div 1000 \<le> period_ns s (qs ! j) div 1000" by (rule zdiv_mono1) simp
    have "qs ! i \<in> set ts" "qs ! j \<in> set ts" using assms(2) that by (auto simp: subset_iff)
    with div have "int (snd (ctp s (qs ! i))) \<le> int (snd (ctp s (qs ! j)))"
      by (simp only: period_us [OF assms(1)])
    then show ?thesis by (simp only: of_nat_le_iff)
  qed
  then show ?thesis by (simp add: sorted_iff_nth_mono)
qed

text \<open>The array the test builds for a new task on a processor, seen as tasks of the schedule.\<close>

lemma dropWhile_ge:
  "sorted (map f es) \<Longrightarrow> y \<in> set (dropWhile (\<lambda>e. f e < (k :: nat)) es) \<Longrightarrow> k \<le> f y"
proof (induction es)
  case (Cons e es)
  then show ?case by (cases "f e < k") auto
qed simp

lemma takeWhile_le: "x \<in> set (takeWhile (\<lambda>e. f e < (k :: nat)) es) \<Longrightarrow> f x \<le> k"
  using set_takeWhileD [of x "\<lambda>e. f e < k" es] by simp

lemma sorted_split:
  assumes "sorted (map f es)"
  shows "sorted (map f (takeWhile P es))" "sorted (map f (dropWhile P es))"
  using assms sorted_append [of "map f (takeWhile P es)" "map f (dropWhile P es)"]
  by (simp_all flip: map_append)

lemma sorted_insert_before:
  assumes "sorted (map f es)"
  shows "sorted (map f (takeWhile (\<lambda>e. f e < f t) es @ t # dropWhile (\<lambda>e. f e < (f t :: nat)) es))"
proof -
  let ?a = "takeWhile (\<lambda>e. f e < f t) es" and ?b = "dropWhile (\<lambda>e. f e < f t) es"
  have "\<forall>x \<in> set ?a. \<forall>y \<in> set (t # ?b). f x \<le> f y"
  proof (intro ballI)
    fix x y assume "x \<in> set ?a" "y \<in> set (t # ?b)"
    then have "f x \<le> f t" "f t \<le> f y" using takeWhile_le [of x f "f t" es] dropWhile_ge [OF assms, of y "f t"] by auto
    then show "f x \<le> f y" by (rule order_trans)
  qed
  moreover have "sorted (map f (t # ?b))"
    using sorted_split(2) [OF assms] dropWhile_ge [OF assms, of _ "f t"] by simp
  ultimately show ?thesis using sorted_split(1) [OF assms] by (simp add: sorted_append)
qed

lemma build_ct_ok:
  assumes ok: "params_ok s ts" and t: "t \<in> set ts" and qs: "set qs \<subseteq> set ts" "t \<notin> set qs" "distinct qs" "distinct ts"
    and so: "sorted (map (period_ns s) qs)"
    and xs: "xs = build_ct (\<le>) (convert_to_usecs (min_budget_time (tasks s t)))
                   (convert_to_usecs (time_period (tasks s t))) (map (ct_of_task budget_time s) qs) False"
  shows "task_set_ok xs" "mset (map ct_of xs) = mset (map (ctp s) (t # qs))" "sorted (map snd (map ct_of xs))"
proof -
  let ?e = "\<lambda>u. ct_entry (convert_to_usecs (min_budget_time (tasks s u))) (convert_to_usecs (time_period (tasks s u)))"
  have ce: "ct_of (?e u) = ctp s u" "T_of (?e u) = snd (ctp s u)" "C_of (?e u) = fst (ctp s u)" for u
    by (simp_all add: ct_of_def ctp_def ct_entry_def C_of_def T_of_def)
  have bt: "(case ct_of_task budget_time s u of (b, p) \<Rightarrow> ct_entry b p) = ?e u" if "u \<in> set qs" for u
  proof -
    have "u \<in> set ts" using qs(1) that by blast
    then have "budget_time (tasks s u) = min_budget_time (tasks s u)" using ok by (simp add: params_ok_def)
    then show ?thesis by (simp add: ct_of_task_def)
  qed
  define P where "P = (\<lambda>u. snd (ctp s u) < snd (ctp s t))"
  have p: "\<not> convert_to_usecs (time_period (tasks s t)) \<le> snd (ct_of_task budget_time s u) \<longleftrightarrow> P u" for u
    by (simp add: P_def ctp_def ct_of_task_def word_le_nat_alt not_le)
  have x: "xs = map ?e (takeWhile P qs) @ ?e t # map ?e (dropWhile P qs)"
  proof -
    have "map (\<lambda>(x, y). ct_entry x y) (map (ct_of_task budget_time s) us) = map ?e us" if "set us \<subseteq> set qs" for us
    proof -
      have "(case ct_of_task budget_time s u of (b, p) \<Rightarrow> ct_entry b p) = ?e u" if "u \<in> set us" for u
        using bt \<open>set us \<subseteq> set qs\<close> that by blast
      then show ?thesis by (simp only: map_map o_def cong: map_cong)
    qed
    moreover have "set (takeWhile P qs) \<subseteq> set qs" "set (dropWhile P qs) \<subseteq> set qs"
      using set_takeWhileD [of _ P qs] set_dropWhileD [of _ P qs] by blast+
    ultimately show ?thesis
      unfolding xs build_ct_split by (simp only: takeWhile_map dropWhile_map o_def p)
  qed
  have "mset (takeWhile P qs) + mset (dropWhile P qs) = mset qs"
    by (metis mset_append takeWhile_dropWhile_id)
  then have m: "mset (map ?e (takeWhile P qs)) + mset (map ?e (dropWhile P qs)) = mset (map ?e qs)"
    by (metis image_mset_union mset_map)
  then have mx: "mset xs = mset (map ?e (t # qs))" by (simp add: x)
  then have "mset (map ct_of xs) = mset (map ct_of (map ?e (t # qs)))" by (metis mset_map)
  then show "mset (map ct_of xs) = mset (map (ctp s) (t # qs))" by (simp add: ce o_def)
  have so': "sorted (map (\<lambda>u. snd (ctp s u)) qs)" using sorted_us [OF ok qs(1) so] by (simp add: o_def)
  have "map T_of xs = map (\<lambda>u. snd (ctp s u)) (takeWhile P qs @ t # dropWhile P qs)" by (simp add: x ce o_def)
  then have srt: "sorted (map T_of xs)"
    using sorted_insert_before [OF so', of t] by (simp only: P_def)
  then show "sorted (map snd (map ct_of xs))" by (simp add: ct_of_def o_def)
  have len: "length xs \<le> length ts"
  proof -
    have "length (t # qs) = card (set (t # qs))" using qs by (simp add: distinct_card)
    also have "\<dots> \<le> card (set ts)" using t qs(1) by (intro card_mono) auto
    also have "\<dots> = length ts" using qs(4) by (rule distinct_card)
    finally show ?thesis using arg_cong [OF mx, of size] by simp
  qed
  have "0 < C_of y \<and> C_of y \<le> T_of y \<and> (2 * length xs + 1) * T_of y < 2 ^ 31" if "y \<in> set xs" for y
  proof -
    have "y \<in> set (map ?e (t # qs))" using that mx by (metis mset_eq_setD)
    then obtain u where u: "y = ?e u" "u \<in> set ts" using t qs(1) by auto
    have "(2 * length xs + 1) * T_of y \<le> (2 * length ts + 1) * T_of y" using len by (intro mult_right_mono) auto
    also have "\<dots> < 2 ^ 31" using u ok unfolding params_ok_def u(1) ce by blast
    finally have "(2 * length xs + 1) * T_of y < 2 ^ 31" .
    moreover have "0 < C_of y \<and> C_of y \<le> T_of y" using u(2) ok unfolding params_ok_def u(1) ce by blast
    ultimately show ?thesis by blast
  qed
  with srt show "task_set_ok xs" by (simp add: task_set_ok_def)
qed

subsection \<open>One step of a scheme\<close>

text \<open>
  The state of a packing when the tasks \<open>placed\<close> are placed: they are spread over the lists \<open>q\<close>
  of the processors, and on each processor every task meets its deadline.
\<close>

definition all_meet :: "ct list \<Rightarrow> bool" where
  "all_meet xs \<longleftrightarrow> (\<forall>i < length xs. meets_deadline xs i)"

definition packed :: "kst \<Rightarrow> tid multiset \<Rightarrow> packing \<Rightarrow> (nat \<Rightarrow> tid list) \<Rightarrow> bool" where
  "packed s0 placed b q \<longleftrightarrow> cpus_inv (kern b) q \<and> same_params s0 (kern b) \<and>
     mset (q 0) + mset (q 1) + mset (q 2) + mset (q 3) = placed \<and>
     (\<forall>c < MAX_CPU. all_meet (map (ctp s0) (q c)))"

lemma less_MAX_CPU: "(c :: nat) < MAX_CPU \<longleftrightarrow> c = 0 \<or> c = 1 \<or> c = 2 \<or> c = 3"
  by linarith

lemma packed_subset: "packed s0 placed b q \<Longrightarrow> c < MAX_CPU \<Longrightarrow> set (q c) \<subseteq> set_mset placed"
proof -
  assume "packed s0 placed b q" and c: "c < MAX_CPU"
  then have "set_mset placed = set (q 0) \<union> set (q 1) \<union> set (q 2) \<union> set (q 3)"
    unfolding packed_def by (metis set_mset_mset set_mset_union)
  then show ?thesis using c unfolding less_MAX_CPU by blast
qed

lemma packed_add:
  assumes "j < MAX_CPU" "mset (q 0) + mset (q 1) + mset (q 2) + mset (q 3) = placed"
  shows "mset ((q(j := insert_by_period s t (q j))) 0) + mset ((q(j := insert_by_period s t (q j))) 1) +
    mset ((q(j := insert_by_period s t (q j))) 2) + mset ((q(j := insert_by_period s t (q j))) 3) = add_mset t placed"
  using assms unfolding less_MAX_CPU by auto

lemma all_meet_single: "0 < fst x \<Longrightarrow> fst x \<le> snd x \<Longrightarrow> all_meet [x]"
proof -
  assume x: "0 < fst x" "fst x \<le> snd x"
  have "meets_deadline [x] 0"
  proof (rule enough_time_meets [of _ _ "snd x"])
    show "released [x] (snd x) \<le> snd x" using x by (simp add: released_def case_prod_beta cdiv_def)
  qed (use x in simp_all)
  then show ?thesis by (simp add: all_meet_def)
qed

lemma admits_spec:
  assumes ok: "params_ok s0 ts" "distinct ts" and b: "packed s0 placed b q"
    and t: "t \<in> set ts" "t \<notin># placed" "set_mset placed \<subseteq> set ts" and j: "j < MAX_CPU"
  shows "\<exists>r. admits (util_entry s0 t) j b = Some r \<and>
     (r \<longrightarrow> all_meet (map (ctp s0) (insert_by_period (kern b) t (q j))))"
proof -
  let ?s = "kern b"
  have sp: "same_params s0 ?s" and inv: "cpu_inv ?s j (q j)" and meets: "all_meet (map (ctp s0) (q j))"
    using b j by (simp_all add: packed_def cpus_inv_def)
  have ctp: "ctp ?s = ctp s0" using sp by (rule ctp_same)
  have ok': "params_ok ?s ts" using ok(1) sp by (simp add: params_ok_same)
  have sub: "set (q j) \<subseteq> set ts" "t \<notin> set (q j)" using packed_subset [OF b j] t by auto
  have x: "budget (util_entry s0 t) = convert_to_usecs (min_budget_time (tasks ?s t))"
    "period (util_entry s0 t) = convert_to_usecs (time_period (tasks ?s t))"
    using sp by (simp_all add: util_entry_def Let_def same_params_def)
  have pt: "0 < fst (ctp s0 t)" "fst (ctp s0 t) \<le> snd (ctp s0 t)" using ok(1) t(1) by (simp_all add: params_ok_def)
  show ?thesis
  proof (cases "q j = []")
    case True
    then have "per_cpu_list_size ?s j = 0" using inv by (simp add: cpu_inv_def)
    then have "\<exists>r. admits (util_entry s0 t) j b = Some r"
      by (simp add: admits_def check_admission_per_cpu_def Let_def)
    moreover have "all_meet (map (ctp s0) (insert_by_period ?s t (q j)))"
      using all_meet_single [OF pt] True by (simp add: insert_by_period_def)
    ultimately show ?thesis by blast
  next
    case False
    define xs where "xs = build_ct (\<le>) (budget (util_entry s0 t)) (period (util_entry s0 t))
        (map (ct_of_task budget_time ?s) (q j)) False"
    have so: "sorted (map (period_ns ?s) (q j))" "distinct (q j)" using inv by (simp_all add: cpu_inv_def)
    note bc = build_ct_ok [OF ok' t(1) sub so(2) ok(2) so(1) xs_def [unfolded x]]
    have chk: "check_admission_per_cpu (budget (util_entry s0 t)) (period (util_entry s0 t)) j ?s =
        Some (if \<forall>i < length xs. meets_deadline (map ct_of xs) i then 1 else 0)"
      using inv False xs_def bc(1) by (rule check_admission_per_cpu_list)
    have "all_meet (map (ctp s0) (insert_by_period ?s t (q j)))" if m: "\<forall>i < length xs. meets_deadline (map ct_of xs) i"
      unfolding all_meet_def
    proof (rule all_meet_any_order [of "map ct_of xs"])
      show "\<forall>x \<in> set (map ct_of xs). 0 < fst x \<and> 0 < snd x"
        using bc(1) by (auto simp: task_set_ok_def ct_of_def)
      show "sorted (map snd (map ct_of xs))" by (rule bc(3))
      have "sorted (map (period_ns ?s) (insert_by_period ?s t (q j)))" using so(1) by (rule sorted_insert_by_period)
      then show "sorted (map snd (map (ctp s0) (insert_by_period ?s t (q j))))"
        using sorted_us [OF ok', of "insert_by_period ?s t (q j)"] t(1) sub(1) by (simp only: ctp) simp
      show "mset (map (ctp s0) (insert_by_period ?s t (q j))) = mset (map ct_of xs)"
        unfolding bc(2) ctp by simp
      show "\<forall>i < length (map ct_of xs). meets_deadline (map ct_of xs) i" using m by simp
    qed
    then show ?thesis by (auto simp: admits_def chk)
  qed
qed

text \<open>The situation in which a scheme handles the task \<open>t\<close>.\<close>

definition packing_step :: "kst \<Rightarrow> tid list \<Rightarrow> tid multiset \<Rightarrow> packing \<Rightarrow> (nat \<Rightarrow> tid list) \<Rightarrow> tid \<Rightarrow> bool" where
  "packing_step s0 ts placed b q t \<longleftrightarrow> params_ok s0 ts \<and> distinct ts \<and> packed s0 placed b q \<and>
     t \<in> set ts \<and> t \<notin># placed \<and> set_mset placed \<subseteq> set ts \<and> 1 \<le> current_bins b \<and> current_bins b \<le> MAX_CPU"

text \<open>
  What a scheme promises about one task: it always returns; a task it accepts is placed so that
  all deadlines are met, and a task it refuses leaves the kernel as it was.
\<close>

definition task_packed :: "kst \<Rightarrow> tid multiset \<Rightarrow> packing \<Rightarrow> tid \<Rightarrow> (bool \<times> packing) option \<Rightarrow> bool" where
  "task_packed s0 placed b t r \<longleftrightarrow> (\<exists>ok b'. r = Some (ok, b') \<and>
     (if ok then current_bins b \<le> current_bins b' \<and> current_bins b' \<le> MAX_CPU \<and> (\<exists>q'. packed s0 (add_mset t placed) b' q')
      else kern b' = kern b))"

lemma step_admits:
  assumes "packing_step s0 ts placed b q t" "j < MAX_CPU"
  obtains r where "admits (util_entry s0 t) j b = Some r"
    "r \<Longrightarrow> all_meet (map (ctp s0) (insert_by_period (kern b) t (q j)))"
  using admits_spec [of s0 ts placed b q t j] assms unfolding packing_step_def by blast

lemma step_place:
  assumes st: "packing_step s0 ts placed b q t" and j: "j < MAX_CPU"
    and m: "all_meet (map (ctp s0) (insert_by_period (kern b) t (q j)))"
  shows "\<exists>b' q'. place (util_entry s0 t) j b = Some b' \<and> packed s0 (add_mset t placed) b' q' \<and> current_bins b' = current_bins b"
proof -
  let ?q = "q(j := insert_by_period (kern b) t (q j))"
  have b: "packed s0 placed b q" "cpus_inv (kern b) q" "same_params s0 (kern b)"
    using st by (simp_all add: packing_step_def packed_def)
  have t: "\<forall>c < MAX_CPU. t \<notin> set (q c)" using packed_subset [OF b(1)] st by (auto simp: packing_step_def)
  have "ts_normal (time_period (tasks s0 t))" using st by (simp add: packing_step_def params_ok_def)
  then have pn: "period_normal (kern b) t" using b(3) by (simp add: period_normal_def same_params_def)
  have ct: "ct_task (util_entry s0 t) = t" by (simp add: util_entry_def Let_def)
  from place_spec [OF b(2) j, of "util_entry s0 t", unfolded ct, OF t pn] obtain b' where b':
    "place (util_entry s0 t) j b = Some b'" "cpus_inv (kern b') ?q" "same_params (kern b) (kern b')"
    "current_bins b' = current_bins b" by blast
  have "packed s0 (add_mset t placed) b' ?q"
    unfolding packed_def
  proof (intro conjI allI impI)
    show "mset (?q 0) + mset (?q 1) + mset (?q 2) + mset (?q 3) = add_mset t placed"
      by (rule packed_add [OF j]) (use b(1) in \<open>simp add: packed_def\<close>)
    show "all_meet (map (ctp s0) (?q c))" if "c < MAX_CPU" for c
      using b(1) m that by (simp add: packed_def)
  qed (use b' b(3) same_params_trans in blast)+
  with b'(1,4) show ?thesis by blast
qed

lemma step_more_bins:
  "packing_step s0 ts placed b q t \<Longrightarrow> Suc (current_bins b) \<le> MAX_CPU \<Longrightarrow>
   packing_step s0 ts placed (b\<lparr>current_bins := Suc (current_bins b)\<rparr>) q t"
  by (simp add: packing_step_def packed_def)

lemma task_packed_more:
  "task_packed s0 placed (b\<lparr>current_bins := Suc (current_bins b)\<rparr>) t r \<Longrightarrow> task_packed s0 placed b t r"
  unfolding task_packed_def by (elim exE conjE) (auto split: if_splits)

subsection \<open>The schemes\<close>

locale packing_scheme =
  fixes step :: "task_ct_struct \<Rightarrow> packing \<Rightarrow> (bool \<times> packing) option"
  assumes step: "packing_step s0 ts placed b q t \<Longrightarrow> task_packed s0 placed b t (step (util_entry s0 t) b)"
begin

lemma pack_tasks_packs:
  assumes "params_ok s0 ts" "distinct ts" "packed s0 placed b q" "distinct us" "set us \<subseteq> set ts"
    "set_mset placed \<subseteq> set ts" "\<forall>t \<in> set us. t \<notin># placed" "1 \<le> current_bins b" "current_bins b \<le> MAX_CPU"
  shows "\<exists>ok b' placed' q'. pack_tasks step (map (util_entry s0) us) b = Some (ok, b') \<and>
    packed s0 placed' b' q' \<and> (ok \<longrightarrow> placed' = placed + mset us \<and> 1 \<le> current_bins b' \<and> current_bins b' \<le> MAX_CPU)"
  using assms
proof (induction us arbitrary: b placed q)
  case Nil
  then show ?case by auto
next
  case (Cons t us)
  have "packing_step s0 ts placed b q t" using Cons.prems by (simp add: packing_step_def)
  from step [OF this] obtain ok b' where r: "step (util_entry s0 t) b = Some (ok, b')"
    and b': "if ok then current_bins b \<le> current_bins b' \<and> current_bins b' \<le> MAX_CPU \<and> (\<exists>q'. packed s0 (add_mset t placed) b' q')
      else kern b' = kern b" unfolding task_packed_def by blast
  show ?case
  proof (cases ok)
    case False
    with b' have "kern b' = kern b" by simp
    then have "packed s0 placed b' q" using Cons.prems(3) by (simp add: packed_def)
    then show ?thesis using r False by auto
  next
    case True
    with b' obtain q' where q': "packed s0 (add_mset t placed) b' q'" "current_bins b \<le> current_bins b'" "current_bins b' \<le> MAX_CPU"
      by auto
    have "\<exists>ok b'' placed' q''. pack_tasks step (map (util_entry s0) us) b' = Some (ok, b'') \<and>
      packed s0 placed' b'' q'' \<and>
      (ok \<longrightarrow> placed' = add_mset t placed + mset us \<and> 1 \<le> current_bins b'' \<and> current_bins b'' \<le> MAX_CPU)"
      by (rule Cons.IH [OF _ _ q'(1)]) (use Cons.prems q' in auto)
    then show ?thesis using r True by auto
  qed
qed

end

lemma first_fit_finds:
  assumes st: "packing_step s0 ts placed b q t" and js: "\<forall>j \<in> set js. j < MAX_CPU"
  shows "\<exists>r. first_fit (util_entry s0 t) js b = Some r \<and>
     (\<forall>j. r = Some j \<longrightarrow> j \<in> set js \<and> all_meet (map (ctp s0) (insert_by_period (kern b) t (q j))))"
  using js
proof (induction js)
  case (Cons j js)
  from Cons.prems have "j < MAX_CPU" by simp
  then obtain r where "admits (util_entry s0 t) j b = Some r"
    "r \<Longrightarrow> all_meet (map (ctp s0) (insert_by_period (kern b) t (q j)))" using step_admits [OF st] by blast
  with Cons show ?case by (cases r) auto
qed simp

lemma ffd_task_packs: "packing_step s0 ts placed b q t \<Longrightarrow> task_packed s0 placed b t (ffd_task (util_entry s0 t) b)"
proof (induction "util_entry s0 t" b rule: ffd_task.induct)
  case (1 b)
  note st = 1(2)
  have "\<forall>j \<in> set [0..<current_bins b]. j < MAX_CPU" using st by (auto simp: packing_step_def)
  from first_fit_finds [OF st this] obtain r where r: "first_fit (util_entry s0 t) [0..<current_bins b] b = Some r"
    "\<forall>j. r = Some j \<longrightarrow> j \<in> set [0..<current_bins b] \<and> all_meet (map (ctp s0) (insert_by_period (kern b) t (q j)))"
    by blast
  show ?case
  proof (cases r)
    case (Some j)
    have "j < MAX_CPU" "all_meet (map (ctp s0) (insert_by_period (kern b) t (q j)))"
      using r(2) Some st by (auto simp: packing_step_def)
    from step_place [OF st this] obtain b' q' where "place (util_entry s0 t) j b = Some b'"
      "packed s0 (add_mset t placed) b' q'" "current_bins b' = current_bins b" by blast
    then show ?thesis using r(1) Some st by (auto simp: ffd_task.simps [of _ b] task_packed_def packing_step_def)
  next
    case None
    let ?b = "b\<lparr>current_bins := Suc (current_bins b)\<rparr>"
    show ?thesis
    proof (cases "MAX_CPU < Suc (current_bins b)")
      case True
      then show ?thesis using r(1) None by (auto simp: ffd_task.simps [of _ b] task_packed_def)
    next
      case False
      then have "packing_step s0 ts placed ?b q t" using step_more_bins [OF st] by simp
      then have "task_packed s0 placed ?b t (ffd_task (util_entry s0 t) ?b)"
        using 1(1) [OF r(1) None, of ?b] False by simp
      then have "task_packed s0 placed b t (ffd_task (util_entry s0 t) ?b)" by (rule task_packed_more)
      then show ?thesis using r(1) None False by (simp add: ffd_task.simps [of _ b])
    qed
  qed
qed

lemma fit_loop_packs:
  assumes "\<And>j n. j < n \<Longrightarrow> rank j n < n"
  shows "packing_step s0 ts placed b q t \<Longrightarrow> j < current_bins b \<Longrightarrow>
    task_packed s0 placed b t (fit_loop rank (util_entry s0 t) j b)"
proof (induction "MAX_CPU - j" arbitrary: j b rule: less_induct)
  case less
  note st = less(2)
  have n: "current_bins b \<le> MAX_CPU" using st by (simp add: packing_step_def)
  from get_util_bin_spec [OF n, of "rank j (current_bins b)" "cpu_util (kern b)"] assms [OF less(3)]
  obtain i where i: "i < current_bins b"
    "get_util_bin (cpu_util (kern b)) (rank j (current_bins b)) (current_bins b) = Some (int i)" by blast
  with n have i4: "i < MAX_CPU" by simp
  then obtain r where r: "admits (util_entry s0 t) i b = Some r"
    "r \<Longrightarrow> all_meet (map (ctp s0) (insert_by_period (kern b) t (q i)))" using step_admits [OF st] by blast
  show ?case
  proof (cases r)
    case True
    from step_place [OF st i4 r(2) [OF True]] obtain b' q' where "place (util_entry s0 t) i b = Some b'"
      "packed s0 (add_mset t placed) b' q'" "current_bins b' = current_bins b" by blast
    then show ?thesis using r(1) True n less(3) i
      by (auto simp: fit_loop.simps [of _ _ j b] task_packed_def)
  next
    case False
    let ?b = "b\<lparr>current_bins := Suc (current_bins b)\<rparr>"
    have lt: "MAX_CPU - Suc j < MAX_CPU - j" using n less(3) by simp
    consider "Suc j \<noteq> current_bins b" | "Suc j = current_bins b" "MAX_CPU < Suc (current_bins b)"
      | "Suc j = current_bins b" "Suc (current_bins b) \<le> MAX_CPU" by linarith
    then show ?thesis
    proof cases
      case 1
      then have "task_packed s0 placed b t (fit_loop rank (util_entry s0 t) (Suc j) b)"
        using less(1) [OF lt st] less(3) by simp
      then show ?thesis using r(1) False n less(3) i 1 by (simp add: fit_loop.simps [of _ _ j b])
    next
      case 2
      then show ?thesis using r(1) False n less(3) i
        by (auto simp: fit_loop.simps [of _ _ j b] task_packed_def)
    next
      case 3
      then have "task_packed s0 placed ?b t (fit_loop rank (util_entry s0 t) (Suc j) ?b)"
        using less(1) [OF lt step_more_bins [OF st]] by simp
      then have "task_packed s0 placed b t (fit_loop rank (util_entry s0 t) (Suc j) ?b)" by (rule task_packed_more)
      then show ?thesis using r(1) False n less(3) i 3 by (simp add: fit_loop.simps [of _ _ j b])
    qed
  qed
qed

interpretation ffd: packing_scheme ffd_task
  by unfold_locales (rule ffd_task_packs)

interpretation bfd: packing_scheme bfd_task
proof
  fix s0 ts placed b q t
  assume st: "packing_step s0 ts placed b q t"
  show "task_packed s0 placed b t (bfd_task (util_entry s0 t) b)"
    unfolding bfd_task_def by (rule fit_loop_packs [OF _ st]) (use st in \<open>auto simp: packing_step_def\<close>)
qed

interpretation wfd: packing_scheme wfd_task
proof
  fix s0 ts placed b q t
  assume st: "packing_step s0 ts placed b q t"
  show "task_packed s0 placed b t (wfd_task (util_entry s0 t) b)"
    unfolding wfd_task_def by (rule fit_loop_packs [OF _ st]) (use st in \<open>auto simp: packing_step_def\<close>)
qed


subsection \<open>A whole packing\<close>

text \<open>A partition of the tasks over the processors on which every task meets its deadline.\<close>

definition good_partition :: "kst \<Rightarrow> tid list \<Rightarrow> kst \<Rightarrow> (nat \<Rightarrow> tid list) \<Rightarrow> bool" where
  "good_partition s ts s' q \<longleftrightarrow> cpus_inv s' q \<and> mset (q 0 @ q 1 @ q 2 @ q 3) = mset ts \<and>
     (\<forall>c < MAX_CPU. \<forall>i < length (q c). meets_deadline (map (ctp s) (q c)) i)"

lemma packed_partition: "packed s (mset ts) b q \<Longrightarrow> good_partition s ts (kern b) q"
  by (simp add: packed_def good_partition_def all_meet_def add.assoc)

lemma sorted_list_tasks:
  assumes "periodic_inv s ts" "ts \<noteq> []"
  obtains us where "sort_periodic_tasklist s = Some (map (util_entry s) us)" "mset us = mset ts"
proof -
  from sort_periodic_tasklist_spec [OF assms] obtain xs where xs:
    "sort_periodic_tasklist s = Some xs" "mset xs = mset (map (util_entry s) ts)" by blast
  have ct: "ct_task (util_entry s t) = t" for t by (simp add: util_entry_def Let_def)
  have "\<forall>x \<in> set xs. util_entry s (ct_task x) = x"
    using mset_eq_setD [OF xs(2)] by (auto simp: ct)
  then have m: "map (util_entry s) (map ct_task xs) = xs" by (simp add: map_idI o_def)
  have "mset (map ct_task xs) = mset (map ct_task (map (util_entry s) ts))"
    using xs(2) by (metis mset_map)
  then have "mset (map ct_task xs) = mset ts" by (simp only: map_map o_def ct map_ident)
  with xs(1) m show ?thesis by (intro that [of "map ct_task xs"]) simp_all
qed

lemma empty_packed: "cpus_inv s (\<lambda>_. []) \<Longrightarrow> kern b = s \<Longrightarrow> packed s {#} b (\<lambda>_. [])"
  by (simp add: packed_def same_params_def all_meet_def)

lemma bin_packing_spec:
  assumes inv: "periodic_inv s ts" "ts \<noteq> []" "cpus_inv s (\<lambda>_. [])" "params_ok s ts"
    and scheme: "scheme \<in> {0, 2, 3, 4}"
  shows "\<exists>r s' q. bin_packing scheme s = Some (r, s') \<and> 0 \<le> r \<and> r \<le> int MAX_CPU \<and> cpus_inv s' q \<and>
     same_params s s' \<and> (r \<noteq> 0 \<longrightarrow> good_partition s ts s' q)"
proof -
  obtain us where us: "sort_periodic_tasklist s = Some (map (util_entry s) us)" "mset us = mset ts"
    using sorted_list_tasks [OF inv(1,2)] by blast
  have d: "distinct ts" "0 < periodic_tasks_size s" using inv(1,2) by (simp_all add: periodic_inv_def)
  have u: "distinct us" "set us \<subseteq> set ts" using us(2) d(1) by (metis mset_eq_imp_distinct_iff, metis mset_eq_setD order_refl)
  let ?b = "\<lambda>n. \<lparr>current_bins = n, prev_bin = 0, cpumask = 0, kern = s\<rparr>"
  let ?ok = "\<lambda>r. \<exists>ok b' placed' q'. r = Some (ok, b') \<and> packed s placed' b' q' \<and>
    (ok \<longrightarrow> placed' = mset ts \<and> 1 \<le> current_bins b' \<and> current_bins b' \<le> MAX_CPU)"
  have p: "?ok (pack_tasks ffd_task (map (util_entry s) us) (?b 1))" "?ok (pack_tasks bfd_task (map (util_entry s) us) (?b 1))"
    "?ok (pack_tasks wfd_task (map (util_entry s) us) (?b 1))" "?ok (pack_tasks wfd_task (map (util_entry s) us) (?b 4))"
    using ffd.pack_tasks_packs [OF inv(4) d(1) empty_packed [OF inv(3)] u, of "?b 1"]
      bfd.pack_tasks_packs [OF inv(4) d(1) empty_packed [OF inv(3)] u, of "?b 1"]
      wfd.pack_tasks_packs [OF inv(4) d(1) empty_packed [OF inv(3)] u, of "?b 1"]
      wfd.pack_tasks_packs [OF inv(4) d(1) empty_packed [OF inv(3)] u, of "?b 4"] by (simp_all add: us(2))
  define r where "r = (if scheme = 0 then pack_tasks ffd_task (map (util_entry s) us) (?b 1)
      else if scheme = 2 then pack_tasks bfd_task (map (util_entry s) us) (?b 1)
      else if scheme = 3 then pack_tasks wfd_task (map (util_entry s) us) (?b 1)
      else pack_tasks wfd_task (map (util_entry s) us) (?b 4))"
  have "?ok r" unfolding r_def using p by (simp split del: if_split split: if_split)
  then obtain ok b' placed' q' where b': "r = Some (ok, b')" "packed s placed' b' q'"
    "ok \<longrightarrow> placed' = mset ts \<and> 1 \<le> current_bins b' \<and> current_bins b' \<le> MAX_CPU" by blast
  have "bin_packing scheme s = Some (if ok then int (current_bins b') else 0, kern b')"
    using d(2) us(1) b'(1) scheme by (auto simp: bin_packing_def r_def split: if_splits)
  moreover have "cpus_inv (kern b') q'" "same_params s (kern b')" using b'(2) by (simp_all add: packed_def)
  moreover have "ok \<Longrightarrow> good_partition s ts (kern b') q'" using b'(2,3) packed_partition by simp
  ultimately show ?thesis using b'(3) by (intro exI [of _ "if ok then int (current_bins b') else 0"] exI [of _ "kern b'"] exI [of _ q']) simp
qed


lemma demo_params: "tasks s = tasks demo \<Longrightarrow> params_ok s [t]"
proof -
  assume "tasks s = tasks demo"
  moreover have "convert_to_usecs (mk_ts 0 1000) = 1" "convert_to_usecs (mk_ts 0 4000) = 4" by code_simp+
  ultimately show ?thesis by (simp add: params_ok_def ctp_def demo_def) (simp add: mk_ts_def ts_normal_def)
qed


subsection \<open>Next fit\<close>

lemma nfd_search_none:
  "\<forall>j < MAX_CPU. admits x j b = Some False \<Longrightarrow> p < MAX_CPU \<Longrightarrow> current_bins b = MAX_CPU \<Longrightarrow>
   \<exists>p' < MAX_CPU. nfd_search x n p b = Some (Inr p')"
  by (induction n arbitrary: p) auto

text \<open>
  C32. Next fit reports success for a task it has not placed: once all four processors are in
  use and none of them admits the task, the scheme goes on with the next task as if this one
  had a processor, and the kernel state is unchanged. (The test for more than four bins cannot
  fire, since the scheme never opens a fifth.)
\<close>

theorem nfd_task_skips:
  assumes "current_bins b = MAX_CPU" "prev_bin b < MAX_CPU" "\<forall>j < MAX_CPU. admits x j b = Some False"
  shows "\<exists>p < MAX_CPU. nfd_task x b = Some (True, b\<lparr>prev_bin := p\<rparr>)"
  using nfd_search_none [OF assms(3,2,1), of MAX_CPU] assms(1) by (auto simp: nfd_task_def)

lemma demo_full: "n \<le> MAX_CPU \<Longrightarrow> \<exists>s. cpus_inv s (\<lambda>c. if c < n then [c] else []) \<and> same_params demo s"
proof (induction n)
  case 0
  then show ?case using demo_inv(1) by (auto simp: same_params_def)
next
  case (Suc n)
  then obtain s where s: "cpus_inv s (\<lambda>c. if c < n then [c] else [])" "same_params demo s" by auto
  have "period_normal s n" using s(2) demo_inv(3) by (simp add: period_normal_def same_params_def)
  with add_task_to_cpu_keeps [OF s(1), of n n] Suc.prems obtain s' where
    s': "same_params s s'" "cpus_inv s' ((\<lambda>c. if c < n then [c] else [])(n := [n]))"
    by (auto simp: insert_by_period_def)
  have "(\<lambda>c. if c < n then [c] else [])(n := [n]) = (\<lambda>c. if c < Suc n then [c] else [])"
    by (auto simp: fun_eq_iff less_Suc_eq)
  with s' same_params_trans [OF s(2) s'(1)] show ?case by auto
qed

theorem nfd_task_skips_witness:
  "\<exists>x b p. current_bins b = MAX_CPU \<and> nfd_task x b = Some (True, b\<lparr>prev_bin := p\<rparr>)"
proof -
  obtain s where s: "cpus_inv s (\<lambda>c. if c < MAX_CPU then [c] else [])" "same_params demo s"
    using demo_full [of MAX_CPU] by auto
  let ?x = "ct_entry 4 4" and ?b = "\<lparr>current_bins = MAX_CPU, prev_bin = 0, cpumask = 0, kern = s\<rparr>"
  have u: "convert_to_usecs (mk_ts 0 1000) = 1" "convert_to_usecs (mk_ts 0 4000) = 4" by code_simp+
  have "\<not> meets_deadline [(4, 4), (1, 4)] (Suc 0)" by code_simp
  then have late: "\<not> (\<forall>i < length [ct_entry 4 4, ct_entry 1 4]. meets_deadline (map ct_of [ct_entry 4 4, ct_entry 1 4]) i)"
    by (auto simp: ct_of_def C_of_def T_of_def ct_entry_def)
  have "admits ?x j ?b = Some False" if j: "j < MAX_CPU" for j
  proof -
    have "ct_of_task budget_time s j = ct_of_task budget_time demo j" using s(2) by (simp add: ct_of_task_def same_params_def)
    then have xs: "[ct_entry 4 4, ct_entry 1 4] = build_ct (\<le>) 4 4 (map (ct_of_task budget_time s) [j]) False"
      by (simp add: demo_usecs)
    have inv: "cpu_inv s j [j]" using s(1) j by (auto simp: cpus_inv_def)
    have "task_set_ok [ct_entry 4 4, ct_entry 1 4]"
      by (simp add: task_set_ok_def ct_entry_def C_of_def T_of_def)
    from check_admission_per_cpu_list [OF inv _ xs this] late
    have "check_admission_per_cpu 4 4 j s = Some 0" by (simp del: length_Cons list.map)
    then show ?thesis by (simp add: admits_def ct_entry_def)
  qed
  then show ?thesis using nfd_task_skips [of ?b ?x] by fastforce
qed

text \<open>
  C28. The ranking of \<open>get_util_bin\<close>: asked for rank \<open>k\<close> among the first \<open>n\<close> processors it always
  returns one of them; at most \<open>k\<close> of them have strictly less capacity left, more than \<open>k\<close> have no
  more, and among processors of equal capacity it is always the first.
\<close>

theorem get_util_bin_ranks:
  assumes "n \<le> MAX_CPU" "k < n"
  shows "\<exists>i < n. get_util_bin bins k n = Some (int i) \<and>
     length (filter (\<lambda>c. bins c <s bins i) [0..<n]) \<le> k \<and>
     k < length (filter (\<lambda>c. bins c \<le>s bins i) [0..<n]) \<and> (\<forall>c < i. bins c \<noteq> bins i)"
  using assms by (rule get_util_bin_spec)

theorem get_util_bin_ranks_witness:
  "\<exists>i < 3. get_util_bin (\<lambda>c. [500, 1000, 250] ! c) 0 3 = Some (int i)"
  using get_util_bin_ranks [of 3 0 "\<lambda>c. [500, 1000, 250] ! c"] by auto

end
