(* ===== verification/FreqTable.thy ===== *)
theory FreqTable
  imports Kernel
begin

text \<open>
  The frequency tables of the \<open>cpufreq\<close> drivers (\<open>drivers/cpufreq/freq_table.c\<close> and
  \<open>cpufreq_verify_within_limits\<close> of \<open>include/linux/cpufreq.h\<close>). A table is the list of its
  frequencies up to \<open>CPUFREQ_TABLE_END\<close>; an entry \<open>~0\<close> is invalid and skipped.
\<close>

subsection \<open>Policies and tables\<close>

record table_policy = cpufreq_policy +
  cpuinfo_min_freq :: u32
  pol_cpu :: nat

abbreviation (input) ENTRY_INVALID :: u32 where "ENTRY_INVALID \<equiv> 4294967295"
abbreviation (input) CPUFREQ_RELATION_L :: u32 where "CPUFREQ_RELATION_L \<equiv> 0"
abbreviation (input) CPUFREQ_RELATION_H :: u32 where "CPUFREQ_RELATION_H \<equiv> 1"

definition cpufreq_verify_within_limits :: "table_policy \<Rightarrow> u32 \<Rightarrow> u32 \<Rightarrow> table_policy" where
  "cpufreq_verify_within_limits p lo hi =
     (let p = (if pol_min p < lo then p\<lparr>pol_min := lo\<rparr> else p);
          p = (if pol_max p < lo then p\<lparr>pol_max := lo\<rparr> else p);
          p = (if hi < pol_min p then p\<lparr>pol_min := hi\<rparr> else p);
          p = (if hi < pol_max p then p\<lparr>pol_max := hi\<rparr> else p)
      in if pol_max p < pol_min p then p\<lparr>pol_min := pol_max p\<rparr> else p)"

definition table_range :: "u32 list \<Rightarrow> u32 \<times> u32" where
  "table_range table = fold (\<lambda>freq (min_freq, max_freq).
     if freq = ENTRY_INVALID then (min_freq, max_freq)
     else (if freq < min_freq then freq else min_freq, if max_freq < freq then freq else max_freq))
   table (ENTRY_INVALID, 0)"

definition cpufreq_frequency_table_cpuinfo :: "table_policy \<Rightarrow> u32 list \<Rightarrow> int \<times> table_policy" where
  "cpufreq_frequency_table_cpuinfo p table =
     (let (min_freq, max_freq) = table_range table;
          p = p\<lparr>pol_min := min_freq, cpuinfo_min_freq := min_freq, pol_max := max_freq, cpuinfo_max_freq := max_freq\<rparr>
      in (if pol_min p = ENTRY_INVALID then - EINVAL else 0, p))"

definition verify_scan :: "table_policy \<Rightarrow> u32 list \<Rightarrow> nat \<times> u32" where
  "verify_scan p table = fold (\<lambda>freq (cnt, next_larger).
     if freq = ENTRY_INVALID then (cnt, next_larger)
     else if pol_min p \<le> freq \<and> freq \<le> pol_max p then (cnt + 1, next_larger)
     else if freq < next_larger \<and> pol_max p < freq then (cnt, freq)
     else (cnt, next_larger)) table (0, ENTRY_INVALID)"

definition cpufreq_frequency_table_verify :: "(nat \<Rightarrow> bool) \<Rightarrow> table_policy \<Rightarrow> u32 list \<Rightarrow> int \<times> table_policy" where
  "cpufreq_frequency_table_verify cpu_online p table =
     (if \<not> cpu_online (pol_cpu p) then (- EINVAL, p)
      else
        let p = cpufreq_verify_within_limits p (cpuinfo_min_freq p) (cpuinfo_max_freq p);
            (cnt, next_larger) = verify_scan p table;
            p = (if cnt = 0 then p\<lparr>pol_max := next_larger\<rparr> else p)
        in (0, cpufreq_verify_within_limits p (cpuinfo_min_freq p) (cpuinfo_max_freq p)))"

subsection \<open>The entry for a target frequency\<close>

text \<open>The two candidates \<open>optimal\<close> and \<open>suboptimal\<close>, each an index and a frequency.\<close>

record freq_choice =
  opt_index :: u32
  opt_freq :: u32
  sub_index :: u32
  sub_freq :: u32

definition choice_init :: "u32 \<Rightarrow> freq_choice" where
  "choice_init relation =
     \<lparr>opt_index = 4294967295, opt_freq = (if relation = CPUFREQ_RELATION_L then 4294967295 else 0),
      sub_index = 4294967295, sub_freq = (if relation = CPUFREQ_RELATION_H then 4294967295 else 0)\<rparr>"

definition choice_step :: "table_policy \<Rightarrow> u32 \<Rightarrow> u32 \<Rightarrow> u32 \<Rightarrow> u32 \<Rightarrow> freq_choice \<Rightarrow> freq_choice" where
  "choice_step p target_freq relation i freq c =
     (if freq = ENTRY_INVALID then c
      else if freq < pol_min p \<or> pol_max p < freq then c
      else if relation = CPUFREQ_RELATION_H then
        if freq \<le> target_freq
        then if opt_freq c \<le> freq then c\<lparr>opt_freq := freq, opt_index := i\<rparr> else c
        else if freq \<le> sub_freq c then c\<lparr>sub_freq := freq, sub_index := i\<rparr> else c
      else if relation = CPUFREQ_RELATION_L then
        if target_freq \<le> freq
        then if freq \<le> opt_freq c then c\<lparr>opt_freq := freq, opt_index := i\<rparr> else c
        else if sub_freq c \<le> freq then c\<lparr>sub_freq := freq, sub_index := i\<rparr> else c
      else c)"

fun choice_loop :: "table_policy \<Rightarrow> u32 \<Rightarrow> u32 \<Rightarrow> u32 list \<Rightarrow> u32 \<Rightarrow> freq_choice \<Rightarrow> u32 \<times> freq_choice" where
  "choice_loop p target_freq relation [] i c = (i, c)"
| "choice_loop p target_freq relation (freq # table) i c =
     choice_loop p target_freq relation table (i + 1) (choice_step p target_freq relation i freq c)"

text \<open>\<open>None\<close> is \<open>-EINVAL\<close>; otherwise the value stored in \<open>*index\<close>.\<close>

definition cpufreq_frequency_table_target ::
    "(nat \<Rightarrow> bool) \<Rightarrow> table_policy \<Rightarrow> u32 list \<Rightarrow> u32 \<Rightarrow> u32 \<Rightarrow> u32 option" where
  "cpufreq_frequency_table_target cpu_online p table target_freq relation =
     (if \<not> cpu_online (pol_cpu p) then None
      else
        let (i, c) = choice_loop p target_freq relation table 0 (choice_init relation) in
        if i < opt_index c then if i < sub_index c then None else Some (sub_index c)
        else Some (opt_index c))"

subsection \<open>The lowest frequency at or above the target\<close>

definition usable :: "table_policy \<Rightarrow> u32 \<Rightarrow> bool" where
  "usable p freq \<longleftrightarrow> freq \<noteq> ENTRY_INVALID \<and> pol_min p \<le> freq \<and> freq \<le> pol_max p"

text \<open>
  What the loop has found in the entries it has seen: an index and a value of an entry that
  satisfies \<open>P\<close> and comes first in the order \<open>le\<close>, or the initial index if there is none.
\<close>

definition found :: "(u32 \<Rightarrow> bool) \<Rightarrow> (u32 \<Rightarrow> u32 \<Rightarrow> bool) \<Rightarrow> u32 list \<Rightarrow> u32 \<Rightarrow> u32 \<Rightarrow> u32 \<Rightarrow> bool" where
  "found P le seen none idx freq \<longleftrightarrow>
     (if \<exists>f \<in> set seen. P f
      then unat idx < length seen \<and> seen ! unat idx = freq \<and> P freq \<and> (\<forall>f \<in> set seen. P f \<longrightarrow> le freq f)
      else idx = 4294967295 \<and> freq = none)"

lemma found_step:
  assumes "found P le seen none idx freq" "length seen < 4294967295"
    and le: "le f f" "\<And>a b c. le a b \<Longrightarrow> le b c \<Longrightarrow> le a c" "\<And>a b. le a b \<or> le b a" "P f \<Longrightarrow> le f none"
  shows "found P le (seen @ [f]) none
      (if P f \<and> le f freq then of_nat (length seen) else idx) (if P f \<and> le f freq then f else freq)"
proof -
  have n: "unat (of_nat (length seen) :: u32) = length seen" using assms(2) by (simp add: unat_of_nat take_bit_nat_eq_self)
  show ?thesis
  proof (cases "P f \<and> le f freq")
    case take: True
    have "le f g" if "g \<in> set seen" "P g" for g
    proof -
      have "le freq g" using assms(1) that by (auto simp: found_def split: if_splits)
      with take le(2) show ?thesis by blast
    qed
    with take le(1) n show ?thesis by (auto simp: found_def nth_append)
  next
    case keep: False
    show ?thesis
    proof (cases "\<exists>g \<in> set seen. P g")
      case True
      then have "unat idx < length seen" "seen ! unat idx = freq" "P freq" "\<forall>g \<in> set seen. P g \<longrightarrow> le freq g"
        using assms(1) by (simp_all add: found_def)
      moreover have "P f \<longrightarrow> le freq f" using keep le(3) by blast
      ultimately show ?thesis using True unfolding if_not_P [OF keep] by (simp add: found_def nth_append)
    next
      case False
      then have "idx = 4294967295" "freq = none" using assms(1) by (simp_all add: found_def)
      moreover from this keep le(4) have "\<not> P f" by blast
      ultimately show ?thesis using False unfolding if_not_P [OF keep] by (simp add: found_def)
    qed
  qed
qed

lemma choice_loop_found:
  assumes "length seen + length table < 4294967295"
    and "found (\<lambda>f. usable p f \<and> t \<le> f) (\<le>) seen 4294967295 (opt_index c) (opt_freq c)"
    and "found (\<lambda>f. usable p f \<and> f < t) (\<ge>) seen 0 (sub_index c) (sub_freq c)"
  shows "\<exists>c'. choice_loop p t CPUFREQ_RELATION_L table (of_nat (length seen)) c = (of_nat (length (seen @ table)), c') \<and>
    found (\<lambda>f. usable p f \<and> t \<le> f) (\<le>) (seen @ table) 4294967295 (opt_index c') (opt_freq c') \<and>
    found (\<lambda>f. usable p f \<and> f < t) (\<ge>) (seen @ table) 0 (sub_index c') (sub_freq c')"
  using assms
proof (induction table arbitrary: seen c)
  case (Cons f table)
  let ?i = "of_nat (length seen) :: u32" and ?c = "choice_step p t CPUFREQ_RELATION_L (of_nat (length seen)) f c"
  have m: "a \<le> 4294967295" for a :: u32 using unat_lt32 [of a] by (simp add: word_le_nat_alt)
  have n: "length seen < 4294967295" using Cons.prems(1) by simp
  let ?up = "(usable p f \<and> t \<le> f) \<and> f \<le> opt_freq c" and ?down = "(usable p f \<and> f < t) \<and> sub_freq c \<le> f"
  have c: "opt_index ?c = (if ?up then ?i else opt_index c)" "opt_freq ?c = (if ?up then f else opt_freq c)"
    "sub_index ?c = (if ?down then ?i else sub_index c)" "sub_freq ?c = (if ?down then f else sub_freq c)"
    by (auto simp: choice_step_def usable_def)
  have "found (\<lambda>f. usable p f \<and> t \<le> f) (\<le>) (seen @ [f]) 4294967295 (opt_index ?c) (opt_freq ?c)"
    unfolding c by (rule found_step [OF Cons.prems(2) n]) (auto intro: m)
  moreover have "found (\<lambda>f. usable p f \<and> f < t) (\<ge>) (seen @ [f]) 0 (sub_index ?c) (sub_freq ?c)"
    unfolding c by (rule found_step [OF Cons.prems(3) n]) auto
  ultimately show ?case using Cons.IH [of "seen @ [f]" ?c] Cons.prems(1) by (simp add: ac_simps)
qed simp

lemma table_target_spec:
  assumes "cpu_online (pol_cpu p)" "length table < 4294967295"
  shows "case cpufreq_frequency_table_target cpu_online p table t CPUFREQ_RELATION_L of
     None \<Rightarrow> \<forall>f \<in> set table. \<not> usable p f
   | Some i \<Rightarrow> unat i < length table \<and> usable p (table ! unat i) \<and>
       (if \<exists>f \<in> set table. usable p f \<and> t \<le> f
        then t \<le> table ! unat i \<and> (\<forall>f \<in> set table. usable p f \<and> t \<le> f \<longrightarrow> table ! unat i \<le> f)
        else \<forall>f \<in> set table. usable p f \<longrightarrow> f \<le> table ! unat i)"
proof -
  have "found P le [] none 4294967295 none" for P le none by (simp add: found_def)
  then have "\<exists>c. choice_loop p t CPUFREQ_RELATION_L table 0 (choice_init CPUFREQ_RELATION_L) = (of_nat (length table), c) \<and>
      found (\<lambda>f. usable p f \<and> t \<le> f) (\<le>) table 4294967295 (opt_index c) (opt_freq c) \<and>
      found (\<lambda>f. usable p f \<and> f < t) (\<ge>) table 0 (sub_index c) (sub_freq c)"
    using choice_loop_found [of "[]" table p t "choice_init CPUFREQ_RELATION_L"] assms(2) by (simp add: choice_init_def)
  then obtain c where c: "choice_loop p t CPUFREQ_RELATION_L table 0 (choice_init CPUFREQ_RELATION_L) = (of_nat (length table), c)"
    and f: "found (\<lambda>f. usable p f \<and> t \<le> f) (\<le>) table 4294967295 (opt_index c) (opt_freq c)"
      "found (\<lambda>f. usable p f \<and> f < t) (\<ge>) table 0 (sub_index c) (sub_freq c)" by blast
  have l: "of_nat (length table) < i \<longleftrightarrow> length table < unat i" for i :: u32
    using assms(2) by (simp add: word_less_nat_alt unat_of_nat take_bit_nat_eq_self)
  have e: "cpufreq_frequency_table_target cpu_online p table t CPUFREQ_RELATION_L =
      (if length table < unat (opt_index c) then if length table < unat (sub_index c) then None else Some (sub_index c)
       else Some (opt_index c))"
    using assms(1) c by (simp add: cpufreq_frequency_table_target_def l)
  show ?thesis
  proof (cases "\<exists>f \<in> set table. usable p f \<and> t \<le> f")
    case True
    then show ?thesis using f(1) by (simp add: e found_def)
  next
    case False
    then have "opt_index c = 4294967295" using f(1) by (simp add: found_def)
    then show ?thesis
      using f(2) assms(2) False by (auto simp: e found_def not_le split: if_splits)
  qed
qed

end
