(* ===== verification/TegraCpu.thy ===== *)
theory TegraCpu
  imports FreqTable
begin

text \<open>
  The \<open>cpufreq\<close> driver behind \<open>cpufreq_driver_target\<close> (\<open>arch/arm/mach-tegra/cpu-tegra.c\<close>,
  \<open>tegra3_throttle.c\<close>): every processor asks for a speed, the common clock gets the highest of
  them, cut by the thermal, the electrical and the user's limit. The clock framework is a
  parameter; the hot-plug governor, which only queues work, is left out.
\<close>

subsection \<open>The state of the driver\<close>

record tegra =
  tg_table :: "u32 list"
  tg_online :: "nat list"
  target_cpu_speed :: "nat \<Rightarrow> u32"
  policy_max_speed :: "nat \<Rightarrow> u32"
  force_policy_max :: bool
  is_suspended :: bool
  suspend_index :: nat
  cpu_user_cap :: u32
  edp_limit :: u32
  is_throttling :: int
  throttle_index :: nat
  throttle_floor :: u32
  cpu_rate :: u32

text \<open>
  The clocks: rounding a rate, and the error codes of the rate changes of the memory clocks
  (\<open>mselect\<close> and \<open>emc\<close>) and of the processor clock.
\<close>

record clocks =
  clk_round_rate :: "u32 \<Rightarrow> u32"
  mselect_ret :: "u32 \<Rightarrow> int"
  emc_ret :: "u32 \<Rightarrow> int"
  cpu_ret :: "u32 \<Rightarrow> int"

definition EBUSY :: int where "EBUSY = 16"

definition IS_ERR_VALUE :: "u32 \<Rightarrow> bool" where
  "IS_ERR_VALUE x \<longleftrightarrow> - 4095 \<le> x"

definition CONFIG_NR_CPUS :: nat where "CONFIG_NR_CPUS = 4"

subsection \<open>Setting the clock\<close>

definition tegra_getspeed :: "nat \<Rightarrow> tegra \<Rightarrow> u32" where
  "tegra_getspeed cpu s = (if CONFIG_NR_CPUS \<le> cpu then 0 else cpu_rate s div 1000)"

definition tegra_update_cpu_speed :: "clocks \<Rightarrow> u32 \<Rightarrow> tegra \<Rightarrow> int \<times> tegra" where
  "tegra_update_cpu_speed clk rate s =
     (let old = tegra_getspeed 0 s;
          r = clk_round_rate clk (rate * 1000);
          new = (if IS_ERR_VALUE r then rate else r div 1000)
      in if old = new then (0, s)
         else if old < new \<and> mselect_ret clk new \<noteq> 0 then (mselect_ret clk new, s)
         else if old < new \<and> emc_ret clk new \<noteq> 0 then (emc_ret clk new, s)
         else if cpu_ret clk (new * 1000) \<noteq> 0 then (cpu_ret clk (new * 1000), s)
         else (0, s\<lparr>cpu_rate := new * 1000\<rparr>))"

definition tegra_count_slow_cpus :: "u32 \<Rightarrow> tegra \<Rightarrow> nat" where
  "tegra_count_slow_cpus speed_limit s = fold (\<lambda>i cnt. if target_cpu_speed s i \<le> speed_limit then cnt + 1 else cnt) (tg_online s) 0"

definition tegra_get_slowest_cpu_n :: "nat \<Rightarrow> tegra \<Rightarrow> nat" where
  "tegra_get_slowest_cpu_n nr_cpu_ids s =
     fst (fold (\<lambda>i (cpu, rate). if 0 < i \<and> target_cpu_speed s i < rate then (i, target_cpu_speed s i) else (cpu, rate))
            (tg_online s) (nr_cpu_ids, 4294967295 :: u32))"

definition tegra_cpu_lowest_speed :: "tegra \<Rightarrow> u32" where
  "tegra_cpu_lowest_speed s = fold (\<lambda>i rate. min rate (target_cpu_speed s i)) (tg_online s) 4294967295"

definition tegra_cpu_highest_speed :: "tegra \<Rightarrow> u32" where
  "tegra_cpu_highest_speed s =
     (let (policy_max, rate) =
        fold (\<lambda>i (policy_max, rate).
          (if force_policy_max s then min policy_max (policy_max_speed s i) else policy_max, max rate (target_cpu_speed s i)))
        (tg_online s) (4294967295, 0)
      in min rate policy_max)"

subsection \<open>The limits\<close>

text \<open>\<open>throttle_table\<close> of \<open>tegra3_throttle.c\<close>; its first row is filled in when the driver starts.\<close>

definition throttle_table :: "tegra \<Rightarrow> (u32 \<times> int) list" where
  "throttle_table s =
     [(throttle_floor s, 1000), (640000, 1000), (640000, 1000), (640000, 1000), (640000, 1000), (640000, 1000),
      (760000, 1000), (760000, 1050), (1000000, 1050), (1000000, 1100)]"

definition tegra_throttle_governor_speed :: "u32 \<Rightarrow> tegra \<Rightarrow> u32" where
  "tegra_throttle_governor_speed requested_speed s =
     (if is_throttling s \<noteq> 0 then min requested_speed (fst (throttle_table s ! throttle_index s)) else requested_speed)"

definition edp_governor_speed :: "u32 \<Rightarrow> tegra \<Rightarrow> u32" where
  "edp_governor_speed requested_speed s =
     (if edp_limit s = 0 \<or> requested_speed \<le> edp_limit s then requested_speed else edp_limit s)"

definition user_cap_speed :: "u32 \<Rightarrow> tegra \<Rightarrow> u32" where
  "user_cap_speed requested_speed s =
     (if cpu_user_cap s \<noteq> 0 \<and> cpu_user_cap s < requested_speed then cpu_user_cap s else requested_speed)"

text \<open>The result is the return value, the speed that was asked for and the state.\<close>

definition tegra_cpu_set_speed_cap :: "clocks \<Rightarrow> tegra \<Rightarrow> int \<times> u32 \<times> tegra" where
  "tegra_cpu_set_speed_cap clk s =
     (let new_speed = tegra_cpu_highest_speed s in
      if is_suspended s then (- EBUSY, new_speed, s)
      else
        let new_speed = tegra_throttle_governor_speed new_speed s;
            new_speed = edp_governor_speed new_speed s;
            new_speed = user_cap_speed new_speed s;
            (ret, s) = tegra_update_cpu_speed clk new_speed s
        in (ret, new_speed, s))"

definition tegra_suspended_target :: "clocks \<Rightarrow> u32 \<Rightarrow> tegra \<Rightarrow> int \<times> tegra" where
  "tegra_suspended_target clk target_freq s =
     (if \<not> is_suspended s then (- EBUSY, s)
      else tegra_update_cpu_speed clk (edp_governor_speed (tegra_throttle_governor_speed target_freq s) s) s)"

text \<open>The entry below a limit, or the first one: an empty table is \<open>None\<close>.\<close>

definition clip_to_table :: "u32 \<Rightarrow> u32 list \<Rightarrow> u32 option" where
  "clip_to_table cpu_freq table =
     (let i = length (takeWhile (\<lambda>f. f \<le> cpu_freq) table);
          i = (if i = 0 then 0 else i - 1)
      in if i < length table then Some (table ! i) else None)"

definition tegra_cpu_user_cap_set :: "clocks \<Rightarrow> u32 \<Rightarrow> tegra \<Rightarrow> tegra option" where
  "tegra_cpu_user_cap_set clk speed_khz s = do {
     let s = s\<lparr>cpu_user_cap := speed_khz\<rparr>;
     s \<leftarrow> (if cpu_user_cap s \<noteq> 0 then do {
             f \<leftarrow> clip_to_table (cpu_user_cap s) (tg_table s);
             Some (s\<lparr>cpu_user_cap := f\<rparr>)
           } else Some s);
     Some (snd (snd (tegra_cpu_set_speed_cap clk s)))
   }"

text \<open>\<open>BUG_ON(i == 0)\<close> is \<open>None\<close>; \<open>limit\<close> is what \<open>edp_predict_limit\<close> answers.\<close>

definition edp_update_limit :: "u32 \<Rightarrow> tegra \<Rightarrow> tegra option" where
  "edp_update_limit limit s =
     (let i = length (takeWhile (\<lambda>f. f \<le> limit) (tg_table s)) in
      if i = 0 then None else Some (s\<lparr>edp_limit := tg_table s ! (i - 1)\<rparr>))"

subsection \<open>Throttling\<close>

text \<open>The work function; the result says whether the work is queued again.\<close>

definition tegra_throttle_work_func :: "clocks \<Rightarrow> tegra \<Rightarrow> bool \<times> tegra" where
  "tegra_throttle_work_func clk s =
     (if is_throttling s = 0 then (False, s)
      else
        let cpu_freq = tegra_getspeed 0 s;
            s = s\<lparr>throttle_index := throttle_index s - (if throttle_index s \<noteq> 0 then 1 else 0)\<rparr>;
            again = (throttle_index s \<noteq> 0 \<or> fst (throttle_table s ! 0) < cpu_freq);
            s = (if fst (throttle_table s ! throttle_index s) < cpu_freq then snd (snd (tegra_cpu_set_speed_cap clk s)) else s)
        in (again, s))"

definition tegra_throttling_enable :: "clocks \<Rightarrow> bool \<Rightarrow> tegra \<Rightarrow> tegra" where
  "tegra_throttling_enable clk enable s =
     (if enable then
        let first = (is_throttling s = 0);
            s = s\<lparr>is_throttling := is_throttling s + 1\<rparr>
        in if first then
             let cpu_freq = tegra_getspeed 0 s;
                 s = s\<lparr>throttle_index := length (throttle_table s) - 1\<rparr>
             in if fst (throttle_table s ! throttle_index s) < cpu_freq then snd (snd (tegra_cpu_set_speed_cap clk s)) else s
           else s
      else if is_throttling s \<noteq> 0 then
        let s = s\<lparr>is_throttling := is_throttling s - 1\<rparr>
        in if is_throttling s = 0 then snd (snd (tegra_cpu_set_speed_cap clk s)) else s
      else s)"

subsection \<open>A request of a processor\<close>

definition tegra_target :: "clocks \<Rightarrow> table_policy \<Rightarrow> u32 \<Rightarrow> u32 \<Rightarrow> tegra \<Rightarrow> int \<times> tegra" where
  "tegra_target clk p target_freq relation s =
     (case cpufreq_frequency_table_target (\<lambda>c. c \<in> set (tg_online s)) p (tg_table s) target_freq relation of
        None \<Rightarrow> (- EINVAL, s)
      | Some idx \<Rightarrow>
          let freq = tg_table s ! unat idx;
              s = s\<lparr>target_cpu_speed := (target_cpu_speed s)(pol_cpu p := freq)\<rparr>;
              (ret, new_speed, s) = tegra_cpu_set_speed_cap clk s
          in (ret, s))"

definition tegra_pm_suspend :: "clocks \<Rightarrow> tegra \<Rightarrow> tegra" where
  "tegra_pm_suspend clk s =
     (let s = s\<lparr>is_suspended := True\<rparr> in snd (tegra_update_cpu_speed clk (tg_table s ! suspend_index s) s))"

definition tegra_cpu_init :: "table_policy \<Rightarrow> tegra \<Rightarrow> int \<times> table_policy \<times> tegra" where
  "tegra_cpu_init p s =
     (if CONFIG_NR_CPUS \<le> pol_cpu p then (- EINVAL, p, s)
      else
        let p = snd (cpufreq_frequency_table_cpuinfo p (tg_table s));
            p = p\<lparr>pol_cur := tegra_getspeed (pol_cpu p) s\<rparr>
        in (0, p, s\<lparr>target_cpu_speed := (target_cpu_speed s)(pol_cpu p := pol_cur p)\<rparr>))"

subsection \<open>The speed the processors get\<close>

text \<open>A clock that can be set to every speed, up to 4 GHz.\<close>

definition exact_clocks :: "clocks \<Rightarrow> bool" where
  "exact_clocks clk \<longleftrightarrow> (\<forall>r \<le> 4000000. clk_round_rate clk (r * 1000) = r * 1000) \<and>
     (\<forall>r. mselect_ret clk r = 0 \<and> emc_ret clk r = 0 \<and> cpu_ret clk r = 0)"

lemma khz_exact: "r \<le> 4000000 \<Longrightarrow> (r :: u32) * 1000 div 1000 = r \<and> \<not> IS_ERR_VALUE (r * 1000)"
proof -
  assume "r \<le> 4000000"
  then have r: "unat r \<le> 4000000" by (simp add: word_le_nat_alt)
  then have m: "unat (r * 1000) = unat r * 1000" by (subst unat_times) simp_all
  then have "unat (r * 1000 div 1000) = unat r" by (simp add: unat_div_distrib)
  moreover have "\<not> IS_ERR_VALUE (r * 1000)" using r m by (simp add: IS_ERR_VALUE_def word_le_nat_alt)
  ultimately show ?thesis by (simp add: word_unat_eq_iff)
qed

lemma update_speed_exact:
  assumes "exact_clocks clk" "rate \<le> 4000000"
  shows "fst (tegra_update_cpu_speed clk rate s) = 0"
    "tegra_getspeed 0 (snd (tegra_update_cpu_speed clk rate s)) = rate"
  using assms khz_exact [OF assms(2)]
  by (auto simp: tegra_update_cpu_speed_def exact_clocks_def tegra_getspeed_def CONFIG_NR_CPUS_def Let_def)

lemma update_speed_frame:
  "snd (tegra_update_cpu_speed clk rate s) = s \<or> (\<exists>r. snd (tegra_update_cpu_speed clk rate s) = s\<lparr>cpu_rate := r\<rparr>)"
  unfolding tegra_update_cpu_speed_def Let_def by (simp split: if_split) blast

lemma highest_speed_fold:
  "fold (\<lambda>i (m, r). (if force_policy_max s then min m (policy_max_speed s i) else m, max r (target_cpu_speed s i))) is (m, r) =
     (if force_policy_max s then fold (\<lambda>i m. min m (policy_max_speed s i)) is m else m,
      fold (\<lambda>i r. max r (target_cpu_speed s i)) is r)"
  by (induction "is" arbitrary: m r) simp_all

lemma fold_max_ge_init: "(r :: 'a::linorder) \<le> fold (\<lambda>i r. max r (f i)) is r"
proof (induction "is" arbitrary: r)
  case (Cons i "is")
  have "r \<le> max r (f i)" by simp
  also have "\<dots> \<le> fold (\<lambda>i r. max r (f i)) is (max r (f i))" by (rule Cons)
  finally show ?case by simp
qed simp

lemma fold_max_ge: "i \<in> set is \<Longrightarrow> (f i :: 'a::linorder) \<le> fold (\<lambda>i r. max r (f i)) is r"
  by (induction "is" arbitrary: r) (auto intro: order_trans [OF max.cobounded2 fold_max_ge_init])

lemma fold_max_le: "(r :: 'a::linorder) \<le> b \<Longrightarrow> \<forall>i \<in> set is. f i \<le> b \<Longrightarrow> fold (\<lambda>i r. max r (f i)) is r \<le> b"
  by (induction "is" arbitrary: r) simp_all

lemma highest_speed:
  "\<not> force_policy_max s \<Longrightarrow> i \<in> set (tg_online s) \<Longrightarrow> target_cpu_speed s i \<le> tegra_cpu_highest_speed s"
  "\<forall>i \<in> set (tg_online s). target_cpu_speed s i \<le> b \<Longrightarrow> tegra_cpu_highest_speed s \<le> b"
proof -
  have m: "a \<le> 4294967295" for a :: u32 using unat_lt32 [of a] by (simp add: word_le_nat_alt)
  show "\<not> force_policy_max s \<Longrightarrow> i \<in> set (tg_online s) \<Longrightarrow> target_cpu_speed s i \<le> tegra_cpu_highest_speed s"
    unfolding tegra_cpu_highest_speed_def highest_speed_fold by (simp add: fold_max_ge m min_absorb1)
  show "\<forall>i \<in> set (tg_online s). target_cpu_speed s i \<le> b \<Longrightarrow> tegra_cpu_highest_speed s \<le> b"
    using fold_max_le [of 0 b "tg_online s" "target_cpu_speed s"]
    unfolding tegra_cpu_highest_speed_def highest_speed_fold by (simp add: min_le_iff_disj)
qed

text \<open>The three limits, as the state has them.\<close>

definition within_limits :: "u32 \<Rightarrow> tegra \<Rightarrow> bool" where
  "within_limits v s \<longleftrightarrow>
     (is_throttling s \<noteq> 0 \<longrightarrow> v \<le> fst (throttle_table s ! throttle_index s)) \<and>
     (edp_limit s \<noteq> 0 \<longrightarrow> v \<le> edp_limit s) \<and> (cpu_user_cap s \<noteq> 0 \<longrightarrow> v \<le> cpu_user_cap s)"

definition unlimited :: "tegra \<Rightarrow> bool" where
  "unlimited s \<longleftrightarrow> is_throttling s = 0 \<and> edp_limit s = 0 \<and> cpu_user_cap s = 0 \<and> \<not> force_policy_max s"

lemma governors:
  "within_limits (user_cap_speed (edp_governor_speed (tegra_throttle_governor_speed v s) s) s) s"
  "user_cap_speed (edp_governor_speed (tegra_throttle_governor_speed v s) s) s \<le> v"
  "unlimited s \<Longrightarrow> user_cap_speed (edp_governor_speed (tegra_throttle_governor_speed v s) s) s = v"
proof -
  let ?a = "tegra_throttle_governor_speed v s"
  have a: "?a \<le> v" "is_throttling s \<noteq> 0 \<longrightarrow> ?a \<le> fst (throttle_table s ! throttle_index s)"
    by (simp_all add: tegra_throttle_governor_speed_def)
  have b: "edp_governor_speed w s \<le> w" "edp_limit s \<noteq> 0 \<longrightarrow> edp_governor_speed w s \<le> edp_limit s" for w
    by (auto simp: edp_governor_speed_def)
  have c: "user_cap_speed w s \<le> w" "cpu_user_cap s \<noteq> 0 \<longrightarrow> user_cap_speed w s \<le> cpu_user_cap s" for w
    by (auto simp: user_cap_speed_def not_less)
  show "within_limits (user_cap_speed (edp_governor_speed ?a s) s) s"
    unfolding within_limits_def using a b [of ?a] c [of "edp_governor_speed ?a s"] by (auto intro: order_trans)
  show "user_cap_speed (edp_governor_speed ?a s) s \<le> v"
    using a b [of ?a] c [of "edp_governor_speed ?a s"] by (auto intro: order_trans)
  show "unlimited s \<Longrightarrow> user_cap_speed (edp_governor_speed ?a s) s = v"
    by (simp add: unlimited_def tegra_throttle_governor_speed_def edp_governor_speed_def user_cap_speed_def)
qed

lemma throttle_table_rate [simp]: "throttle_table (s\<lparr>cpu_rate := r\<rparr>) = throttle_table s"
  by (simp add: throttle_table_def)

lemma set_speed_cap_spec:
  assumes "exact_clocks clk" "\<not> is_suspended s" "\<forall>i \<in> set (tg_online s). target_cpu_speed s i \<le> 4000000"
  shows "\<exists>v s'. tegra_cpu_set_speed_cap clk s = (0, v, s') \<and> tegra_getspeed 0 s' = v \<and> within_limits v s' \<and>
    v \<le> tegra_cpu_highest_speed s \<and> (unlimited s \<longrightarrow> (\<forall>i \<in> set (tg_online s). target_cpu_speed s i \<le> v)) \<and> (s' = s \<or> (\<exists>r. s' = s\<lparr>cpu_rate := r\<rparr>))"
proof -
  define v where "v = user_cap_speed (edp_governor_speed (tegra_throttle_governor_speed (tegra_cpu_highest_speed s) s) s) s"
  have v: "v \<le> 4000000" unfolding v_def by (rule order_trans [OF governors(2) highest_speed(2) [OF assms(3)]])
  define s' where "s' = snd (tegra_update_cpu_speed clk v s)"
  have "tegra_update_cpu_speed clk v s = (0, s')" using update_speed_exact(1) [OF assms(1) v, of s] by (simp add: s'_def prod_eq_iff)
  then have "tegra_cpu_set_speed_cap clk s = (0, v, s')" using assms(2) by (simp add: tegra_cpu_set_speed_cap_def Let_def flip: v_def)
  moreover have "tegra_getspeed 0 s' = v" unfolding s'_def by (rule update_speed_exact(2) [OF assms(1) v])
  moreover have f: "s' = s \<or> (\<exists>r. s' = s\<lparr>cpu_rate := r\<rparr>)" unfolding s'_def by (rule update_speed_frame)
  moreover have "v \<le> tegra_cpu_highest_speed s" unfolding v_def by (rule governors(2))
  moreover have "within_limits v s" unfolding v_def by (rule governors(1))
  then have "within_limits v s'" using f by (auto simp: within_limits_def)
  moreover have "unlimited s \<longrightarrow> (\<forall>i \<in> set (tg_online s). target_cpu_speed s i \<le> v)"
    using governors(3) highest_speed(1) by (simp add: v_def unlimited_def)
  ultimately show ?thesis by blast
qed

text \<open>A request for an entry of the table is served exactly.\<close>

lemma tegra_target_exact:
  assumes clk: "exact_clocks clk" and s: "\<not> is_suspended s" "pol_cpu p \<in> set (tg_online s)" "length (tg_table s) < 4294967295"
    and f: "f \<in> set (tg_table s)" "usable p f" "f \<le> 4000000"
    and others: "\<forall>i \<in> set (tg_online s). i \<noteq> pol_cpu p \<longrightarrow> target_cpu_speed s i \<le> f" and lim: "unlimited s"
  shows "\<exists>s'. tegra_target clk p f CPUFREQ_RELATION_L s = (0, s') \<and> tegra_getspeed 0 s' = f"
proof -
  let ?o = "\<lambda>c. c \<in> set (tg_online s)"
  have "cpufreq_frequency_table_target ?o p (tg_table s) f CPUFREQ_RELATION_L \<noteq> None"
    using table_target_spec [of ?o p "tg_table s" f] s(2,3) f(1,2) by (auto split: option.splits)
  then obtain i where i: "cpufreq_frequency_table_target ?o p (tg_table s) f CPUFREQ_RELATION_L = Some i" by blast
  have x: "\<exists>x \<in> set (tg_table s). usable p x \<and> f \<le> x" using f(1,2) by blast
  have e: "tg_table s ! unat i = f"
    using table_target_spec [of ?o p "tg_table s" f] s(2,3) i x f(1,2) by (simp add: order_antisym)
  define s1 where "s1 = s\<lparr>target_cpu_speed := (target_cpu_speed s)(pol_cpu p := f)\<rparr>"
  have le: "\<forall>i \<in> set (tg_online s1). target_cpu_speed s1 i \<le> f" using others by (simp add: s1_def)
  then have "\<forall>i \<in> set (tg_online s1). target_cpu_speed s1 i \<le> 4000000" using f(3) by (auto intro: order_trans)
  moreover have "\<not> is_suspended s1" "unlimited s1" using s(1) lim by (simp_all add: s1_def unlimited_def)
  ultimately obtain v s' where v: "tegra_cpu_set_speed_cap clk s1 = (0, v, s')" "tegra_getspeed 0 s' = v"
    "v \<le> tegra_cpu_highest_speed s1" "\<forall>i \<in> set (tg_online s1). target_cpu_speed s1 i \<le> v"
    using set_speed_cap_spec [OF clk, of s1] by blast
  have "f \<le> v" using v(4) s(2) by (auto simp: s1_def dest!: bspec [of _ _ "pol_cpu p"])
  moreover have "v \<le> f" using v(3) highest_speed(2) [OF le] by (rule order_trans)
  moreover have "tegra_target clk p f CPUFREQ_RELATION_L s = (0, s')" using i v(1) by (simp add: tegra_target_def Let_def e flip: s1_def)
  ultimately show ?thesis using v(2) by auto
qed

subsection \<open>Properties of the driver\<close>



end
