(* ===== verification/TegraEdp.thy ===== *)
theory TegraEdp
  imports TegraCpu
begin

unbundle bit_operations_syntax

text \<open>
  The electrical (EDP) limits of the Tegra \<open>cpufreq\<close> driver and everything else that moves its limits
  (\<open>arch/arm/mach-tegra/cpu-tegra.c\<close>): thermal zones, the alarm of the system, processors that come and
  go, suspend and resume, module parameters; and the driver as a state machine over all of them.
\<close>

subsection \<open>The tables and the state\<close>

text \<open>
  A row of the processor's table is a temperature and the highest speed for one to four processors.
  The pointers to the tables may be null. \<open>throttle_calls\<close> are the calls of
  \<open>tegra_edp_throttle_cpu_now\<close>, which sets the clock skipper below the driver (latest first).
\<close>

record edp =
  drv :: tegra
  cpu_edp_limits :: "(int \<times> u32 list) list option"
  system_edp_limits :: "u32 list option"
  system_edp_alarm :: bool
  edp_thermal_index :: nat
  edp_cpumask :: "nat set"
  throttle_calls :: "u32 list"

text \<open>\<open>BUG_ON\<close> and a read behind an array are \<open>None\<close>.\<close>

definition edp_predict_limit :: "nat \<Rightarrow> edp \<Rightarrow> u32 option" where
  "edp_predict_limit cpus e =
     (if cpus = 0 then None
      else do {
        limit \<leftarrow> (case cpu_edp_limits e of
                    None \<Rightarrow> Some 0
                  | Some rows \<Rightarrow>
                      if edp_thermal_index e < length rows \<and> cpus - 1 < length (snd (rows ! edp_thermal_index e))
                      then Some (snd (rows ! edp_thermal_index e) ! (cpus - 1)) else None);
        case system_edp_limits e of
          None \<Rightarrow> Some limit
        | Some limits \<Rightarrow>
            if \<not> system_edp_alarm e then Some limit
            else if cpus - 1 < length limits then Some (min limit (limits ! (cpus - 1))) else None
      })"

definition edp_update :: "edp \<Rightarrow> edp option" where
  "edp_update e = do {
     limit \<leftarrow> edp_predict_limit (card (edp_cpumask e)) e;
     d \<leftarrow> edp_update_limit limit (drv e);
     Some (e\<lparr>drv := d\<rparr>)
   }"

definition set_speed_cap :: "clocks \<Rightarrow> edp \<Rightarrow> int \<times> edp" where
  "set_speed_cap clk e = (let (ret, new_speed, d) = tegra_cpu_set_speed_cap clk (drv e) in (ret, e\<lparr>drv := d\<rparr>))"

subsection \<open>Temperature and alarm\<close>

definition thermal_index :: "int \<Rightarrow> (int \<times> u32 list) list \<Rightarrow> nat" where
  "thermal_index temp rows =
     (if temp < fst (rows ! 0) then 0
      else case find (\<lambda>i. fst (rows ! i) \<le> temp \<and> temp < fst (rows ! (i + 1))) [0..<length rows - 1] of
        Some i \<Rightarrow> i + 1 | None \<Rightarrow> length rows - 1)"

text \<open>The change of the voltage tables for the zone (\<open>tegra_cpu_dvfs_alter\<close>) is left out.\<close>

definition tegra_edp_update_thermal_zone :: "clocks \<Rightarrow> int \<Rightarrow> edp \<Rightarrow> (int \<times> edp) option" where
  "tegra_edp_update_thermal_zone clk temp e =
     (case cpu_edp_limits e of
        None \<Rightarrow> Some (- EINVAL, e)
      | Some rows \<Rightarrow>
          if rows = [] then None
          else do {
            let e = e\<lparr>edp_thermal_index := thermal_index temp rows\<rparr>;
            if target_cpu_speed (drv e) 0 \<noteq> 0 then do {
              e \<leftarrow> edp_update e;
              Some (0, snd (set_speed_cap clk e))
            }
            else Some (0, e)
          })"

definition ENODEV :: int where "ENODEV = 19"

definition tegra_system_edp_alarm :: "clocks \<Rightarrow> bool \<Rightarrow> edp \<Rightarrow> (int \<times> edp) option" where
  "tegra_system_edp_alarm clk alarm e = do {
     let e = e\<lparr>system_edp_alarm := alarm\<rparr>;
     (ret, e) \<leftarrow> (if target_cpu_speed (drv e) 0 \<noteq> 0 then do {
                    e \<leftarrow> edp_update e;
                    Some (set_speed_cap clk e)
                  } else Some (- ENODEV, e));
     Some (ret, if ret = 0 \<or> \<not> alarm then e\<lparr>throttle_calls := 0 # throttle_calls e\<rparr> else e)
   }"

subsection \<open>Processors that come and go\<close>

text \<open>Whether one processor more or less may do more work within the limits; the products wrap.\<close>

definition tegra_cpu_edp_favor_up :: "nat \<Rightarrow> s32 \<Rightarrow> edp \<Rightarrow> bool option" where
  "tegra_cpu_edp_favor_up n mp_overhead e =
     (if n = 0 then Some True
      else if 4 \<le> n then Some False
      else do {
        current_limit \<leftarrow> edp_predict_limit n e;
        next_limit \<leftarrow> edp_predict_limit (n + 1) e;
        Some (current_limit * of_nat n * (100 + mp_overhead) div 100 \<le> next_limit * of_nat (n + 1))
      })"

definition tegra_cpu_edp_favor_down :: "nat \<Rightarrow> s32 \<Rightarrow> edp \<Rightarrow> bool option" where
  "tegra_cpu_edp_favor_down n mp_overhead e =
     (if n \<le> 1 then Some False
      else if 4 < n then Some True
      else do {
        current_limit \<leftarrow> edp_predict_limit n e;
        next_limit \<leftarrow> edp_predict_limit (n - 1) e;
        Some (current_limit * of_nat n < next_limit * of_nat (n - 1) * (100 + mp_overhead) div 100)
      })"

datatype cpu_event = CPU_UP_PREPARE | CPU_DEAD | CPU_OTHER

definition notifier_from_errno :: "int \<Rightarrow> u32" where
  "notifier_from_errno err = (if err \<noteq> 0 then 0x8000 OR word_of_int (1 - err) else 1)"

definition tegra_cpu_edp_notify :: "clocks \<Rightarrow> cpu_event \<Rightarrow> nat \<Rightarrow> edp \<Rightarrow> (u32 \<times> edp) option" where
  "tegra_cpu_edp_notify clk event cpu e = do {
     (ret, e) \<leftarrow>
       (case event of
          CPU_UP_PREPARE \<Rightarrow> do {
            let e = e\<lparr>edp_cpumask := insert cpu (edp_cpumask e)\<rparr>;
            e \<leftarrow> edp_update e;
            let cpu_speed = tegra_getspeed 0 (drv e);
            let new_speed = edp_governor_speed cpu_speed (drv e);
            if new_speed < cpu_speed then do {
              let (ret, e) = set_speed_cap clk e;
              if ret \<noteq> 0 then do {
                e \<leftarrow> edp_update (e\<lparr>edp_cpumask := edp_cpumask e - {cpu}\<rparr>);
                Some (ret, e)
              }
              else Some (ret, e)
            }
            else Some (0, e)
          }
        | CPU_DEAD \<Rightarrow> do {
            e \<leftarrow> edp_update (e\<lparr>edp_cpumask := edp_cpumask e - {cpu}\<rparr>);
            Some (0, snd (set_speed_cap clk e))
          }
        | CPU_OTHER \<Rightarrow> Some (0, e));
     Some (notifier_from_errno ret, e)
   }"

text \<open>\<open>sys\<close> and \<open>cpu\<close> are the tables of the platform (\<open>tegra_get_system_edp_limits\<close>, \<open>tegra_get_cpu_edp_limits\<close>).\<close>

definition tegra_cpu_edp_init :: "u32 list option \<Rightarrow> (int \<times> u32 list) list option \<Rightarrow> edp \<Rightarrow> edp option" where
  "tegra_cpu_edp_init sys cpu e =
     (let e = e\<lparr>system_edp_limits := sys, cpu_edp_limits := cpu\<rparr> in
      if sys = None \<and> cpu = None then Some e
      else edp_update (e\<lparr>edp_cpumask := set (tg_online (drv e))\<rparr>))"

subsection \<open>Suspend, resume and parameters\<close>

datatype pm_event = PM_SUSPEND_PREPARE | PM_POST_SUSPEND | PM_OTHER

definition tegra_pm_notify ::
    "clocks \<Rightarrow> u32 list option \<Rightarrow> (int \<times> u32 list) list option \<Rightarrow> pm_event \<Rightarrow> edp \<Rightarrow> edp option" where
  "tegra_pm_notify clk sys cpu event e =
     (case event of
        PM_SUSPEND_PREPARE \<Rightarrow> Some (e\<lparr>drv := tegra_pm_suspend clk (drv e)\<rparr>)
      | PM_POST_SUSPEND \<Rightarrow> do {
          let e = e\<lparr>drv := (drv e)\<lparr>is_suspended := False\<rparr>\<rparr>;
          e \<leftarrow> tegra_cpu_edp_init sys cpu e;
          Some (snd (set_speed_cap clk e))
        }
      | PM_OTHER \<Rightarrow> Some e)"

text \<open>Module parameters: \<open>ret\<close> is what parsing the argument returns, and \<open>v\<close> its value.\<close>

definition force_policy_max_set :: "clocks \<Rightarrow> int \<Rightarrow> bool \<Rightarrow> edp \<Rightarrow> int \<times> edp" where
  "force_policy_max_set clk ret v e =
     (let old_policy = force_policy_max (drv e);
          e = (if ret = 0 then e\<lparr>drv := (drv e)\<lparr>force_policy_max := v\<rparr>\<rparr> else e);
          e = (if ret = 0 \<and> old_policy \<noteq> force_policy_max (drv e) then snd (set_speed_cap clk e) else e)
      in (ret, e))"

definition cpu_user_cap_set :: "clocks \<Rightarrow> int \<Rightarrow> u32 \<Rightarrow> edp \<Rightarrow> (int \<times> edp) option" where
  "cpu_user_cap_set clk ret v e =
     (if ret = 0 then do {
        d \<leftarrow> tegra_cpu_user_cap_set clk v (drv e);
        Some (ret, e\<lparr>drv := d\<rparr>)
      }
      else Some (ret, e))"

definition tegra_cpufreq_policy_notifier :: "table_policy \<Rightarrow> edp \<Rightarrow> edp" where
  "tegra_cpufreq_policy_notifier p e =
     (let d = drv e;
          f = (case cpufreq_frequency_table_target (\<lambda>c. c \<in> set (tg_online d)) p (tg_table d) (pol_max p) CPUFREQ_RELATION_H of
                 None \<Rightarrow> pol_max p | Some i \<Rightarrow> tg_table d ! unat i)
      in e\<lparr>drv := d\<lparr>policy_max_speed := (policy_max_speed d)(pol_cpu p := f)\<rparr>\<rparr>)"

definition tegra_verify_speed :: "table_policy \<Rightarrow> edp \<Rightarrow> int \<times> table_policy" where
  "tegra_verify_speed p e = cpufreq_frequency_table_verify (\<lambda>c. c \<in> set (tg_online (drv e))) p (tg_table (drv e))"

subsection \<open>The driver as a state machine\<close>

text \<open>The requests and notifications the registered driver handles, each with the lock of the driver held.\<close>

inductive driver_step :: "clocks \<Rightarrow> edp \<Rightarrow> edp \<Rightarrow> bool" for clk where
  target: "tegra_target clk p f rel (drv e) = (ret, d) \<Longrightarrow> driver_step clk e (e\<lparr>drv := d\<rparr>)"
| suspended_target: "tegra_suspended_target clk f (drv e) = (ret, d) \<Longrightarrow> driver_step clk e (e\<lparr>drv := d\<rparr>)"
| thermal: "tegra_edp_update_thermal_zone clk temp e = Some (ret, e') \<Longrightarrow> driver_step clk e e'"
| alarm: "tegra_system_edp_alarm clk al e = Some (ret, e') \<Longrightarrow> driver_step clk e e'"
| hotplug: "tegra_cpu_edp_notify clk ev cpu e = Some (ret, e') \<Longrightarrow> driver_step clk e e'"
| online: "driver_step clk e (e\<lparr>drv := (drv e)\<lparr>tg_online := cpus\<rparr>\<rparr>)"
| pm: "tegra_pm_notify clk sys cl ev e = Some e' \<Longrightarrow> driver_step clk e e'"
| force_max: "force_policy_max_set clk r v e = (ret, e') \<Longrightarrow> driver_step clk e e'"
| user_cap: "cpu_user_cap_set clk r cap e = Some (ret, e') \<Longrightarrow> driver_step clk e e'"
| policy: "driver_step clk e (tegra_cpufreq_policy_notifier p e)"
| throttle: "driver_step clk e (e\<lparr>drv := tegra_throttling_enable clk on (drv e)\<rparr>)"
| throttle_work: "tegra_throttle_work_func clk (drv e) = (again, d) \<Longrightarrow> driver_step clk e (e\<lparr>drv := d\<rparr>)"

subsection \<open>Every step keeps the limits\<close>

definition speeds_ok :: "tegra \<Rightarrow> bool" where
  "speeds_ok d \<longleftrightarrow> length (tg_table d) < 4294967295 \<and> (\<forall>f \<in> set (tg_table d). f \<le> 4000000) \<and> (\<forall>i. target_cpu_speed d i \<le> 4000000)"

definition obeys :: "tegra \<Rightarrow> bool" where
  "obeys d \<longleftrightarrow> speeds_ok d \<and> (\<not> is_suspended d \<longrightarrow> within_limits (tegra_getspeed 0 d) d)"

lemma capped:
  assumes "exact_clocks clk" "speeds_ok d"
  shows "obeys (snd (snd (tegra_cpu_set_speed_cap clk d)))"
    "\<not> is_suspended d \<Longrightarrow> fst (tegra_cpu_set_speed_cap clk d) = 0"
    "is_suspended (snd (snd (tegra_cpu_set_speed_cap clk d))) = is_suspended d"
proof -
  have "obeys (snd (snd (tegra_cpu_set_speed_cap clk d))) \<and> (\<not> is_suspended d \<longrightarrow> fst (tegra_cpu_set_speed_cap clk d) = 0) \<and>
    is_suspended (snd (snd (tegra_cpu_set_speed_cap clk d))) = is_suspended d"
  proof (cases "is_suspended d")
    case True
    then show ?thesis using assms(2) by (simp add: tegra_cpu_set_speed_cap_def obeys_def)
  next
    case False
    have "\<forall>i \<in> set (tg_online d). target_cpu_speed d i \<le> 4000000" using assms(2) by (simp add: speeds_ok_def)
    from set_speed_cap_spec [OF assms(1) False this] obtain v d' where d': "tegra_cpu_set_speed_cap clk d = (0, v, d')"
      "tegra_getspeed 0 d' = v" "within_limits v d'" "d' = d \<or> (\<exists>r. d' = d\<lparr>cpu_rate := r\<rparr>)" by blast
    then show ?thesis using assms(2) by (auto simp: obeys_def speeds_ok_def)
  qed
  then show "obeys (snd (snd (tegra_cpu_set_speed_cap clk d)))" "\<not> is_suspended d \<Longrightarrow> fst (tegra_cpu_set_speed_cap clk d) = 0"
    "is_suspended (snd (snd (tegra_cpu_set_speed_cap clk d))) = is_suspended d" by blast+
qed

lemma set_speed_cap_obeys:
  assumes "exact_clocks clk" "speeds_ok (drv e)"
  shows "obeys (drv (snd (set_speed_cap clk e)))" "set_speed_cap clk e = (ret, e') \<Longrightarrow> obeys (drv e')"
    "set_speed_cap clk e = (ret, e') \<Longrightarrow> ret \<noteq> 0 \<Longrightarrow> is_suspended (drv e') \<and> e' = e\<lparr>drv := drv e'\<rparr>"
  using capped [OF assms] by (auto simp: set_speed_cap_def split: prod.splits)

lemma edp_update_drv: "edp_update e = Some e' \<Longrightarrow> \<exists>l. drv e' = (drv e)\<lparr>edp_limit := l\<rparr> \<and> l \<in> set (tg_table (drv e))"
proof -
  assume "edp_update e = Some e'"
  then obtain i where i: "0 < length (takeWhile (\<lambda>f. f \<le> i) (tg_table (drv e)))"
    "drv e' = (drv e)\<lparr>edp_limit := tg_table (drv e) ! (length (takeWhile (\<lambda>f. f \<le> i) (tg_table (drv e))) - 1)\<rparr>"
    by (auto simp: edp_update_def edp_update_limit_def bind_eq_Some_conv Let_def split: if_splits)
  have "length (takeWhile (\<lambda>f. f \<le> i) (tg_table (drv e))) \<le> length (tg_table (drv e))" by (rule length_takeWhile_le)
  with i(1) have "tg_table (drv e) ! (length (takeWhile (\<lambda>f. f \<le> i) (tg_table (drv e))) - 1) \<in> set (tg_table (drv e))"
    by (intro nth_mem) linarith
  with i(2) show ?thesis by blast
qed

lemma edp_update_ok: "edp_update e = Some e' \<Longrightarrow> speeds_ok (drv e) \<Longrightarrow> speeds_ok (drv e')"
  "edp_update e = Some e' \<Longrightarrow> is_suspended (drv e') = is_suspended (drv e)"
  by (auto simp: speeds_ok_def dest!: edp_update_drv)

lemma within_table: "unat i < length (tg_table d) \<Longrightarrow> speeds_ok d \<Longrightarrow> tg_table d ! unat i \<le> 4000000"
  by (simp add: speeds_ok_def)

text \<open>The index of an entry is one of the table, for every relation.\<close>

definition index_ok :: "nat \<Rightarrow> freq_choice \<Rightarrow> bool" where
  "index_ok n c \<longleftrightarrow> (opt_index c = 4294967295 \<or> unat (opt_index c) < n) \<and> (sub_index c = 4294967295 \<or> unat (sub_index c) < n)"

lemma choice_step_index: "index_ok n c \<Longrightarrow> unat i = n \<Longrightarrow> index_ok (Suc n) (choice_step p t rel i f c)"
proof -
  assume c: "index_ok n c" "unat i = n"
  have i: "index_ok k x \<Longrightarrow> index_ok k y \<Longrightarrow> index_ok k (if b then x else y)" for k x y b by simp
  have m: "index_ok (Suc n) c" using c(1) by (auto simp: index_ok_def)
  have u: "index_ok (Suc n) (c\<lparr>opt_freq := f, opt_index := i\<rparr>)" "index_ok (Suc n) (c\<lparr>sub_freq := f, sub_index := i\<rparr>)"
    using c by (auto simp: index_ok_def)
  show ?thesis unfolding choice_step_def by (intro i m u)
qed

lemma choice_loop_index:
  "choice_loop p t rel table (of_nat n) c = (j, c') \<Longrightarrow> index_ok n c \<Longrightarrow> n + length table < 4294967295 \<Longrightarrow>
     index_ok (n + length table) c' \<and> j = of_nat (n + length table)"
proof (induction table arbitrary: n c)
  case (Cons f table)
  let ?i = "of_nat n :: u32"
  have n: "unat ?i = n" using Cons.prems(3) by (simp add: unat_of_nat take_bit_nat_eq_self)
  have "index_ok (Suc n) (choice_step p t rel ?i f c)"
    using Cons.prems(2) n by (rule choice_step_index)
  moreover have "choice_loop p t rel table (of_nat (Suc n)) (choice_step p t rel ?i f c) = (j, c')"
    using Cons.prems(1) by (simp add: add.commute)
  ultimately show ?case using Cons.IH [of "Suc n"] Cons.prems(3) by simp
qed simp

lemma table_target_index:
  assumes "cpufreq_frequency_table_target on p table t rel = Some i" "length table < 4294967295"
  shows "unat i < length table"
proof -
  obtain j c where c: "choice_loop p t rel table 0 (choice_init rel) = (j, c)" by fastforce
  have "index_ok 0 (choice_init rel)" by (simp add: index_ok_def choice_init_def)
  with choice_loop_index [of p t rel table 0] c assms(2) have k: "index_ok (length table) c" "j = of_nat (length table)" by auto
  have j: "unat j = length table" using assms(2) by (simp add: k(2) unat_of_nat take_bit_nat_eq_self)
  then have "j < 4294967295" using assms(2) by (simp add: word_less_nat_alt)
  then show ?thesis using assms(1) c k(1)
    by (auto simp: cpufreq_frequency_table_target_def index_ok_def split: if_splits)
qed

lemma limit_frames [simp]:
  "throttle_table (d\<lparr>force_policy_max := v\<rparr>) = throttle_table d" "tegra_getspeed c (d\<lparr>force_policy_max := v\<rparr>) = tegra_getspeed c d"
  "throttle_table (d\<lparr>policy_max_speed := q\<rparr>) = throttle_table d" "tegra_getspeed c (d\<lparr>policy_max_speed := q\<rparr>) = tegra_getspeed c d"
  "throttle_table (d\<lparr>tg_online := cs\<rparr>) = throttle_table d" "tegra_getspeed c (d\<lparr>tg_online := cs\<rparr>) = tegra_getspeed c d"
  "throttle_table (d\<lparr>is_throttling := a\<rparr>) = throttle_table d" "tegra_getspeed c (d\<lparr>is_throttling := a\<rparr>) = tegra_getspeed c d"
  "throttle_table (d\<lparr>throttle_index := b\<rparr>) = throttle_table d" "tegra_getspeed c (d\<lparr>throttle_index := b\<rparr>) = tegra_getspeed c d"
  "throttle_table (d\<lparr>edp_limit := l\<rparr>) = throttle_table d" "tegra_getspeed c (d\<lparr>edp_limit := l\<rparr>) = tegra_getspeed c d"
  by (simp_all add: throttle_table_def tegra_getspeed_def)

lemma target_obeys:
  assumes clk: "exact_clocks clk" and d: "obeys d" and t: "tegra_target clk p f rel d = (ret, d')"
  shows "obeys d'"
proof (cases "cpufreq_frequency_table_target (\<lambda>c. c \<in> set (tg_online d)) p (tg_table d) f rel")
  case None
  then show ?thesis using d t by (simp add: tegra_target_def)
next
  case (Some i)
  have s: "speeds_ok d" using d by (simp add: obeys_def)
  let ?d = "d\<lparr>target_cpu_speed := (target_cpu_speed d)(pol_cpu p := tg_table d ! unat i)\<rparr>"
  have "unat i < length (tg_table d)" using table_target_index [OF Some] s by (simp add: speeds_ok_def)
  then have "speeds_ok ?d" using s within_table [of i d] by (simp add: speeds_ok_def)
  then have "obeys (snd (snd (tegra_cpu_set_speed_cap clk ?d)))" by (rule capped(1) [OF clk])
  moreover have "d' = snd (snd (tegra_cpu_set_speed_cap clk ?d))" using t Some by (auto simp: tegra_target_def Let_def split: prod.splits)
  ultimately show ?thesis by simp
qed

lemma throttle_obeys:
  assumes clk: "exact_clocks clk" and d: "obeys d"
  shows "obeys (tegra_throttling_enable clk on d)" "tegra_throttle_work_func clk d = (again, d') \<Longrightarrow> obeys d'"
proof -
  have s: "speeds_ok (d\<lparr>is_throttling := a, throttle_index := b\<rparr>)" "speeds_ok (d\<lparr>is_throttling := a\<rparr>)" "speeds_ok (d\<lparr>throttle_index := b\<rparr>)" for a b
    using d by (simp_all add: obeys_def speeds_ok_def)
  have q: "obeys (d\<lparr>is_throttling := a, throttle_index := b\<rparr>)" if "tegra_getspeed 0 d \<le> fst (throttle_table d ! b)" for a b
    using d that s(1) by (simp add: obeys_def within_limits_def)
  have q': "obeys (d\<lparr>throttle_index := b\<rparr>)" if "tegra_getspeed 0 d \<le> fst (throttle_table d ! b)" for b
    using d that s(3) by (simp add: obeys_def within_limits_def)
  have m: "obeys (d\<lparr>is_throttling := a\<rparr>)" if "is_throttling d \<noteq> 0" for a
    using d that s(2) by (simp add: obeys_def within_limits_def)
  show "obeys (tegra_throttling_enable clk on d)"
    using d capped(1) [OF clk s(1)] capped(1) [OF clk s(2)] q m
    by (auto simp: tegra_throttling_enable_def Let_def not_less)
  show "obeys d'" if "tegra_throttle_work_func clk d = (again, d')"
    using that d capped(1) [OF clk s(3)] q'
    by (auto simp: tegra_throttle_work_func_def Let_def not_less split: if_splits)
qed

lemma notify_obeys:
  assumes clk: "exact_clocks clk" and e: "obeys (drv e)" and n: "tegra_cpu_edp_notify clk ev cpu e = Some (ret, e')"
  shows "obeys (drv e')"
proof (cases ev)
  case CPU_UP_PREPARE
  have s: "speeds_ok (drv e)" using e by (simp add: obeys_def)
  from n CPU_UP_PREPARE obtain e1 where e1: "edp_update (e\<lparr>edp_cpumask := insert cpu (edp_cpumask e)\<rparr>) = Some e1"
    by (auto simp: tegra_cpu_edp_notify_def bind_eq_Some_conv)
  have s1: "speeds_ok (drv e1)" using edp_update_ok(1) [OF e1] s by simp
  obtain r e2 where c: "set_speed_cap clk e1 = (r, e2)" by fastforce
  show ?thesis
  proof (cases "edp_governor_speed (tegra_getspeed 0 (drv e1)) (drv e1) < tegra_getspeed 0 (drv e1)")
    case True
    show ?thesis
    proof (cases "r = 0")
      case True
      then have "e' = e2" using n CPU_UP_PREPARE e1 c \<open>_ < _\<close> by (simp add: tegra_cpu_edp_notify_def)
      then show ?thesis using set_speed_cap_obeys(2) [OF clk s1 c] by simp
    next
      case False
      then obtain e3 where e3: "edp_update (e2\<lparr>edp_cpumask := edp_cpumask e2 - {cpu}\<rparr>) = Some e3" "e' = e3"
        using n CPU_UP_PREPARE e1 c \<open>_ < _\<close> by (auto simp: tegra_cpu_edp_notify_def bind_eq_Some_conv)
      have "is_suspended (drv e2)" "speeds_ok (drv e2)" using set_speed_cap_obeys(2,3) [OF clk s1 c] False by (simp_all add: obeys_def)
      then show ?thesis using edp_update_ok [OF e3(1)] by (simp add: obeys_def e3(2))
    qed
  next
    case False
    then have e': "e' = e1" using n CPU_UP_PREPARE e1 by (simp add: tegra_cpu_edp_notify_def)
    from edp_update_drv [OF e1] obtain l where l: "drv e1 = (drv e)\<lparr>edp_limit := l\<rparr>" by auto
    have "l \<noteq> 0 \<longrightarrow> tegra_getspeed 0 (drv e) \<le> l" using False by (auto simp: edp_governor_speed_def l split: if_splits)
    then show ?thesis using e s1 by (simp add: obeys_def e' l within_limits_def)
  qed
next
  case CPU_DEAD
  from n CPU_DEAD obtain e1 where e1: "edp_update (e\<lparr>edp_cpumask := edp_cpumask e - {cpu}\<rparr>) = Some e1" "e' = snd (set_speed_cap clk e1)"
    by (auto simp: tegra_cpu_edp_notify_def bind_eq_Some_conv)
  have "speeds_ok (drv e1)" using edp_update_ok(1) [OF e1(1)] e by (simp add: obeys_def)
  then show ?thesis unfolding e1(2) by (rule set_speed_cap_obeys(1) [OF clk])
qed (use e n in \<open>simp add: tegra_cpu_edp_notify_def\<close>)

lemma limits_obeys:
  assumes clk: "exact_clocks clk" and e: "obeys (drv e)"
  shows "tegra_edp_update_thermal_zone clk temp e = Some (ret, e') \<Longrightarrow> obeys (drv e')"
    "tegra_system_edp_alarm clk al e = Some (ret, e') \<Longrightarrow> obeys (drv e')"
proof -
  have s: "speeds_ok (drv e)" using e by (simp add: obeys_def)
  have up: "obeys (drv (snd (set_speed_cap clk e2)))" if "edp_update e1 = Some e2" "drv e1 = drv e" for e1 e2
    using set_speed_cap_obeys(1) [OF clk edp_update_ok(1) [OF that(1)]] s that(2) by simp
  show "tegra_edp_update_thermal_zone clk temp e = Some (ret, e') \<Longrightarrow> obeys (drv e')"
    using e by (auto simp: tegra_edp_update_thermal_zone_def Let_def bind_eq_Some_conv split: option.splits if_splits intro: up)
  show "obeys (drv e')" if a: "tegra_system_edp_alarm clk al e = Some (ret, e')"
  proof (cases "target_cpu_speed (drv e) 0 = 0")
    case True
    then show ?thesis using a e by (auto simp: tegra_system_edp_alarm_def Let_def split: if_splits)
  next
    case False
    with a obtain e2 where e2: "edp_update (e\<lparr>system_edp_alarm := al\<rparr>) = Some e2"
      by (auto simp: tegra_system_edp_alarm_def Let_def bind_eq_Some_conv)
    obtain r e3 where e3: "set_speed_cap clk e2 = (r, e3)" by fastforce
    have "drv e' = drv e3" using a False e2 e3 by (auto simp: tegra_system_edp_alarm_def Let_def)
    then show ?thesis using up [OF e2] e3 by simp
  qed
qed

lemma pm_obeys:
  assumes clk: "exact_clocks clk" and e: "obeys (drv e)" and n: "tegra_pm_notify clk sys cl ev e = Some e'"
  shows "obeys (drv e')"
proof (cases ev)
  case PM_SUSPEND_PREPARE
  let ?d = "(drv e)\<lparr>is_suspended := True\<rparr>"
  have "drv e' = tegra_pm_suspend clk (drv e)" using n PM_SUSPEND_PREPARE by (simp add: tegra_pm_notify_def) (metis edp.select_convs(1) edp.surjective edp.update_convs(1))
  then have "drv e' = ?d \<or> (\<exists>r. drv e' = ?d\<lparr>cpu_rate := r\<rparr>)"
    using update_speed_frame [of clk _ ?d] by (simp add: tegra_pm_suspend_def Let_def)
  then show ?thesis using e by (auto simp: obeys_def speeds_ok_def)
next
  case PM_POST_SUSPEND
  let ?e = "e\<lparr>drv := (drv e)\<lparr>is_suspended := False\<rparr>\<rparr>"
  from n PM_POST_SUSPEND obtain e1 where e1: "tegra_cpu_edp_init sys cl ?e = Some e1" "e' = snd (set_speed_cap clk e1)"
    by (auto simp: tegra_pm_notify_def Let_def bind_eq_Some_conv)
  have "speeds_ok (drv e1)"
    using e1(1) e by (auto simp: tegra_cpu_edp_init_def Let_def obeys_def speeds_ok_def split: if_splits dest!: edp_update_drv)
  then show ?thesis unfolding e1(2) by (rule set_speed_cap_obeys(1) [OF clk])
qed (use e n in \<open>simp add: tegra_pm_notify_def\<close>)

lemma parameters_obeys:
  assumes clk: "exact_clocks clk" and e: "obeys (drv e)"
  shows "force_policy_max_set clk r v e = (ret, e') \<Longrightarrow> obeys (drv e')" "cpu_user_cap_set clk r cap e = Some (ret, e') \<Longrightarrow> obeys (drv e')"
    "obeys (drv (tegra_cpufreq_policy_notifier p e))"
proof -
  have s: "speeds_ok ((drv e)\<lparr>force_policy_max := v\<rparr>)" "speeds_ok ((drv e)\<lparr>cpu_user_cap := c\<rparr>)" for v c
    using e by (simp_all add: obeys_def speeds_ok_def)
  have f: "obeys ((drv e)\<lparr>force_policy_max := v\<rparr>)" "obeys ((drv e)\<lparr>policy_max_speed := q\<rparr>)" for v q
    using e by (simp_all add: obeys_def speeds_ok_def within_limits_def)
  show "force_policy_max_set clk r v e = (ret, e') \<Longrightarrow> obeys (drv e')"
    using e f(1) set_speed_cap_obeys(1) [OF clk, of "e\<lparr>drv := (drv e)\<lparr>force_policy_max := v\<rparr>\<rparr>"] s(1)
    by (auto simp: force_policy_max_set_def Let_def split: if_splits)
  show "cpu_user_cap_set clk r cap e = Some (ret, e') \<Longrightarrow> obeys (drv e')"
    using e capped(1) [OF clk s(2)]
    by (auto simp: cpu_user_cap_set_def tegra_cpu_user_cap_set_def Let_def bind_eq_Some_conv split: if_splits)
  show "obeys (drv (tegra_cpufreq_policy_notifier p e))" using f(2) by (simp add: tegra_cpufreq_policy_notifier_def Let_def)
qed

lemma suspended_obeys:
  assumes "obeys d" "tegra_suspended_target clk f d = (ret, d')"
  shows "obeys d'"
proof (cases "is_suspended d")
  case True
  then have "d' = d \<or> (\<exists>r. d' = d\<lparr>cpu_rate := r\<rparr>)"
    using assms(2) update_speed_frame [of clk _ d] by (simp add: tegra_suspended_target_def) (metis snd_conv)
  then show ?thesis using assms(1) True by (auto simp: obeys_def speeds_ok_def)
qed (use assms in \<open>simp add: tegra_suspended_target_def\<close>)

lemma driver_step_obeys: "driver_step clk e e' \<Longrightarrow> exact_clocks clk \<Longrightarrow> obeys (drv e) \<Longrightarrow> obeys (drv e')"
proof (induction rule: driver_step.induct)
  case (online e cpus)
  then show ?case by (simp add: obeys_def speeds_ok_def within_limits_def)
qed (auto intro: target_obeys suspended_obeys limits_obeys notify_obeys pm_obeys parameters_obeys throttle_obeys)

subsection \<open>Properties of the driver as a whole\<close>


text \<open>The electrical limit is the highest entry of an ascending table that the predicted limit allows.\<close>

lemma edp_update_limits:
  assumes "edp_update e = Some e'" "edp_predict_limit (card (edp_cpumask e)) e = Some limit"
  shows "edp_limit (drv e') \<le> limit"
proof -
  let ?w = "takeWhile (\<lambda>f. f \<le> limit) (tg_table (drv e))"
  have w: "?w \<noteq> []" "edp_limit (drv e') = tg_table (drv e) ! (length ?w - 1)"
    using assms by (auto simp: edp_update_def edp_update_limit_def Let_def split: if_splits)
  then have "edp_limit (drv e') = ?w ! (length ?w - 1)" by (simp add: takeWhile_nth)
  moreover have "?w ! (length ?w - 1) \<in> set ?w" using w(1) by (intro nth_mem) simp
  ultimately show ?thesis by (auto dest: set_takeWhileD)
qed

text \<open>With a table for the system only, the predicted limit is 0 and the \<open>BUG_ON\<close> of \<open>edp_update_limit\<close> fires.\<close>

lemma system_limits_alone_fault:
  "0 \<notin> set (tg_table (drv e)) \<Longrightarrow> tegra_cpu_edp_init (Some limits) None e = None"
  by (cases "tg_table (drv e)")
    (auto simp: tegra_cpu_edp_init_def edp_update_def edp_predict_limit_def edp_update_limit_def Let_def bind_eq_None_conv
      split: if_splits)

definition demo_driver :: edp where
  "demo_driver = \<lparr>drv = \<lparr>tg_table = [51000, 640000, 1300000], tg_online = [0], target_cpu_speed = (\<lambda>_. 1300000),
    policy_max_speed = (\<lambda>_. 1300000), force_policy_max = False, is_suspended = False, suspend_index = 0, cpu_user_cap = 0,
    edp_limit = 1300000, is_throttling = 0, throttle_index = 0, throttle_floor = 51000, cpu_rate = 1300000000\<rparr>,
    cpu_edp_limits = Some [(60, [1300000, 1300000, 1300000, 1300000]), (90, [1300000, 1000000, 700000, 700000])],
    system_edp_limits = None, system_edp_alarm = False, edp_thermal_index = 0, edp_cpumask = {0, 1}, throttle_calls = []\<rparr>"


end
