(* ===== verification/Logging.thy ===== *)
theory Logging
  imports Kernel
begin

unbundle bit_operations_syntax

text \<open>
  The execution log of a task (\<open>log_data_point\<close> of \<open>kernel/sched.c\<close>, \<open>sys_setLogging\<close> and
  \<open>sys_getLog\<close>): a buffer of \<open>2 * no_data_points\<close> time values in \<open>vmalloc\<close> memory. A slot holds
  \<open>None\<close> until it is written (the bytes are those of \<open>memset(buf, '0', size)\<close>).

  Two things outside of this code decide how the calls end and are arguments: whether \<open>vmalloc\<close>
  finds memory of a size, and whether the user's buffer can be written. Accesses through the
  null pointer, to memory given back, or outside of the buffer are \<open>None\<close>.
\<close>

abbreviation (input) init_task :: tid where "init_task \<equiv> 0"
abbreviation (input) SIGUSR1 :: int where "SIGUSR1 \<equiv> 10"
abbreviation (input) TIMESPEC_SIZE :: "'a::len word" where "TIMESPEC_SIZE \<equiv> 8"

subsection \<open>Writing the log\<close>

text \<open>The process to signal: the one with the reader's pid; the search ends at \<open>init_task\<close>.\<close>

definition log_reader :: "tid \<Rightarrow> kst \<Rightarrow> tid" where
  "log_reader t s =
     (case find (\<lambda>u. pid (tasks s u) = user_pid (tasks s t)) (process_list s) of
        Some u \<Rightarrow> u | None \<Rightarrow> init_task)"

definition send_sig_info :: "int \<Rightarrow> tid \<Rightarrow> kst \<Rightarrow> kst" where
  "send_sig_info sig t s = s\<lparr>events := SendSig t sig # events s\<rparr>"

definition log_store :: "tid \<Rightarrow> timespec \<Rightarrow> kst \<Rightarrow> kst option" where
  "log_store t v s =
     (let off = buf_offset (tasks s t) in
      case buf (tasks s t) of
        Buf sz f \<Rightarrow>
          if 0 \<le>s off \<and> 8 * (unat off + 1) \<le> unat sz
          then Some (upd_task t (\<lambda>p. p\<lparr>buf := Buf sz (f(unat off \<mapsto> v)), buf_offset := off + 1\<rparr>) s)
          else None
      | _ \<Rightarrow> None)"

definition log_data_point :: "tid \<Rightarrow> timespec \<Rightarrow> kst \<Rightarrow> (int \<times> kst) option" where
  "log_data_point t v s =
     (if 2 * no_data_points (tasks s t) \<le>s buf_offset (tasks s t) then do {
        s \<leftarrow> write_lock s;
        let s = each_thread t (\<lambda>u. upd_task u (\<lambda>p. p\<lparr>is_log_enabled := 0\<rparr>)) s;
        let s = send_sig_info SIGUSR1 (log_reader t s) s;
        Some (- 1, write_unlock s)
      }
      else do { s \<leftarrow> log_store t v s; Some (0, s) })"

subsection \<open>The system calls\<close>

definition vmalloc :: "(u32 \<Rightarrow> bool) \<Rightarrow> u32 \<Rightarrow> logbuf" where
  "vmalloc avail sz = (if sz \<noteq> 0 \<and> avail sz then Buf sz Map.empty else NoBuf)"

definition sys_setLogging :: "(u32 \<Rightarrow> bool) \<Rightarrow> int \<Rightarrow> int \<Rightarrow> s32 \<Rightarrow> kst \<Rightarrow> (int \<times> kst) option" where
  "sys_setLogging avail log_pid usr_pid n s =
     (if log_pid \<le> 0 then Some (- EINVAL, s)
      else if usr_pid \<le> 0 then Some (- EINVAL, s)
      else do {
        s \<leftarrow> read_lock s;
        case find_task_by_vpid log_pid s of
          None \<Rightarrow> Some (- ESRCH, read_unlock s)
        | Some t \<Rightarrow>
            if is_log_enabled (tasks s t) = 1 then Some (- EINVAL, read_unlock s)
            else do {
              let sz = n * 2 * TIMESPEC_SIZE;
              let s = read_unlock s;
              s \<leftarrow> spin_lock t s;
              let s = upd_task t (\<lambda>p. p\<lparr>user_pid := usr_pid, buf := vmalloc avail sz\<rparr>) s;
              s \<leftarrow> (if buf (tasks s t) = NoBuf \<and> sz \<noteq> 0 then None else Some s);
              let s = upd_task t (\<lambda>p. p\<lparr>is_log_enabled := 1, buf_offset := 0, no_data_points := n\<rparr>) s;
              let s = each_thread t (\<lambda>u. upd_task u (\<lambda>p. p\<lparr>is_log_enabled := 1\<rparr>)) s;
              Some (0, spin_unlock t s)
            }
      })"

text \<open>What \<open>copy_to_user\<close> reads from the buffer: the first \<open>size\<close> bytes.\<close>

definition log_read :: "logbuf \<Rightarrow> s32 \<Rightarrow> timespec option list option" where
  "log_read b off =
     (if off * TIMESPEC_SIZE = 0 then Some []
      else case b of
        Buf sz f \<Rightarrow> if 0 \<le>s off \<and> 8 * unat off \<le> unat sz then Some (map f [0..<unat off]) else None
      | _ \<Rightarrow> None)"

definition vfree :: "logbuf \<Rightarrow> logbuf" where
  "vfree b = (case b of NoBuf \<Rightarrow> NoBuf | _ \<Rightarrow> Freed)"

definition sys_getLog :: "bool \<Rightarrow> int \<Rightarrow> kst \<Rightarrow> (int \<times> timespec option list \<times> kst) option" where
  "sys_getLog writable nr s =
     (if nr \<le> 0 then Some (- EINVAL, [], s)
      else do {
        s \<leftarrow> read_lock s;
        let t = find_task_by_vpid nr s;
        let s = read_unlock s;
        case t of
          None \<Rightarrow> Some (- ESRCH, [], s)
        | Some t \<Rightarrow> do {
            let sz = buf_offset (tasks s t) * TIMESPEC_SIZE;
            bytes \<leftarrow> log_read (buf (tasks s t)) (buf_offset (tasks s t));
            let s = upd_task t (\<lambda>p. p\<lparr>buf := vfree (buf p)\<rparr>) s;
            if \<not> writable \<and> sz \<noteq> 0 then Some (- EFAULT, [], s)
            else Some (sint sz, bytes, s)
          }
      })"

subsection \<open>A log in use\<close>

text \<open>The buffer has room for \<open>2 n\<close> values, and the values written so far are \<open>vs\<close>.\<close>

definition log_inv :: "kst \<Rightarrow> tid \<Rightarrow> timespec list \<Rightarrow> bool" where
  "log_inv s t vs \<longleftrightarrow> (\<exists>sz f. buf (tasks s t) = Buf sz f \<and> unat sz = 16 * unat (no_data_points (tasks s t)) \<and>
     unat sz < 2 ^ 31 \<and> unat (buf_offset (tasks s t)) = length vs \<and>
     length vs \<le> 2 * unat (no_data_points (tasks s t)) \<and> (\<forall>i < length vs. f i = Some (vs ! i)))"

lemma log_full_iff:
  assumes "log_inv s t vs"
  shows "2 * no_data_points (tasks s t) \<le>s buf_offset (tasks s t) \<longleftrightarrow> length vs = 2 * unat (no_data_points (tasks s t))"
proof -
  let ?n = "no_data_points (tasks s t)"
  have n: "16 * unat ?n < 2 ^ 31" "unat (buf_offset (tasks s t)) = length vs" "length vs \<le> 2 * unat ?n"
    using assms by (auto simp: log_inv_def)
  have m: "unat (2 * ?n) = 2 * unat ?n" using n(1) by (subst unat_times) simp_all
  have b: "unat (2 * ?n) < 2 ^ 31" "unat (buf_offset (tasks s t)) < 2 ^ 31" using n m by linarith+
  have "buf_offset (tasks s t) <s 2 * ?n \<longleftrightarrow> length vs < 2 * unat ?n"
    using sless_unat [of "buf_offset (tasks s t)" "2 * ?n"] b n(2) m by simp
  moreover have "2 * ?n \<le>s buf_offset (tasks s t) \<longleftrightarrow> \<not> buf_offset (tasks s t) <s 2 * ?n"
    by (simp add: word_sle_eq word_sless_alt not_less)
  ultimately show ?thesis using n(3) by auto
qed

lemma log_data_point_stores:
  assumes inv: "log_inv s t vs" and room: "length vs < 2 * unat (no_data_points (tasks s t))"
  shows "\<exists>p. log_data_point t v s = Some (0, upd_task t (\<lambda>_. p) s) \<and> log_inv (upd_task t (\<lambda>_. p) s) t (vs @ [v]) \<and>
    no_data_points p = no_data_points (tasks s t) \<and> is_log_enabled p = is_log_enabled (tasks s t)"
proof -
  let ?off = "buf_offset (tasks s t)"
  from inv obtain sz f where b: "buf (tasks s t) = Buf sz f" "unat sz = 16 * unat (no_data_points (tasks s t))"
    "unat sz < 2 ^ 31" "unat ?off = length vs" "\<forall>i < length vs. f i = Some (vs ! i)" by (auto simp: log_inv_def)
  have off: "unat (?off + 1) = length vs + 1" using b room by (subst unat_plus) simp_all
  have "0 \<le>s ?off" using b room by (simp add: word_sle_eq sint_of_unat)
  moreover have "8 * (unat ?off + 1) \<le> unat sz" using b room by simp
  ultimately have "log_data_point t v s =
      Some (0, upd_task t (\<lambda>_. (tasks s t)\<lparr>buf := Buf sz (f(unat ?off \<mapsto> v)), buf_offset := ?off + 1\<rparr>) s)"
    using log_full_iff [OF inv] room b(1) by (simp add: log_data_point_def log_store_def Let_def upd_task_def)
  moreover have "\<forall>i < length (vs @ [v]). (f(unat ?off \<mapsto> v)) i = Some ((vs @ [v]) ! i)"
    using b(4,5) by (auto simp: nth_append less_Suc_eq)
  ultimately show ?thesis
    using b(2,3) off room by (intro exI [of _ "(tasks s t)\<lparr>buf := Buf sz (f(unat ?off \<mapsto> v)), buf_offset := ?off + 1\<rparr>"])
      (simp add: log_inv_def)
qed

lemma log_all_stores:
  "log_inv s t us \<Longrightarrow> length us + length vs \<le> 2 * unat (no_data_points (tasks s t)) \<Longrightarrow>
   \<exists>p. foldo (\<lambda>v s. map_option snd (log_data_point t v s)) vs s = Some (upd_task t (\<lambda>_. p) s) \<and>
     log_inv (upd_task t (\<lambda>_. p) s) t (us @ vs)"
proof (induction vs arbitrary: s us)
  case Nil
  have "upd_task t (\<lambda>_. tasks s t) s = s" by (simp add: upd_task_def)
  then show ?case using Nil by (intro exI [of _ "tasks s t"]) simp
next
  case (Cons v vs)
  from Cons.prems have "length us < 2 * unat (no_data_points (tasks s t))" by simp
  from log_data_point_stores [OF Cons.prems(1) this, of v] obtain p where
    p: "log_data_point t v s = Some (0, upd_task t (\<lambda>_. p) s)" "log_inv (upd_task t (\<lambda>_. p) s) t (us @ [v])"
    "no_data_points p = no_data_points (tasks s t)" by blast
  have "length (us @ [v]) + length vs \<le> 2 * unat (no_data_points (tasks (upd_task t (\<lambda>_. p) s) t))"
    using Cons.prems(2) p(3) by simp
  from Cons.IH [OF p(2) this] p(1) show ?case by (auto simp: upd_task_def)
qed

text \<open>What the threads of a task lose when the log is full.\<close>

lemma each_thread_disable:
  "fold (\<lambda>u. upd_task u (\<lambda>p. p\<lparr>is_log_enabled := k\<rparr>)) us s =
     s\<lparr>tasks := (\<lambda>u. if u \<in> set us then (tasks s u)\<lparr>is_log_enabled := k\<rparr> else tasks s u)\<rparr>"
proof (induction us arbitrary: s)
  case (Cons t us)
  then show ?case by (auto simp: upd_task_def fun_eq_iff)
qed simp

lemma each_thread_flag:
  "each_thread t (\<lambda>u. upd_task u (\<lambda>p. p\<lparr>is_log_enabled := k\<rparr>)) s =
     s\<lparr>tasks := (\<lambda>u. if u \<in> set (t # thread_group s t) then (tasks s u)\<lparr>is_log_enabled := k\<rparr> else tasks s u)\<rparr>"
  unfolding each_thread_def by (rule each_thread_disable)


text \<open>
  C20. Logging round trip: after a successful \<open>sys_setLogging\<close> for \<open>n\<close> data points, any up to
  \<open>2 n\<close> values logged for the task are returned by \<open>sys_getLog\<close>, in order and with their size in
  bytes, as long as \<open>16 n\<close> fits a signed 32-bit number.
\<close>

theorem log_roundtrip:
  fixes n :: s32
  assumes n: "0 < unat n" "16 * unat n < 2 ^ 31" "avail (n * 2 * TIMESPEC_SIZE)"
    and p: "0 < lp" "0 < up" "find_task_by_vpid lp s = Some t" "is_log_enabled (tasks s t) \<noteq> 1"
    and l: "tasklist_lock s = Unlocked" "\<not> task_spin_lock (tasks s t)" and vs: "length vs \<le> 2 * unat n"
  shows "\<exists>s1 s2 s3. sys_setLogging avail lp up n s = Some (0, s1) \<and>
     foldo (\<lambda>v s. map_option snd (log_data_point t v s)) vs s1 = Some s2 \<and>
     sys_getLog True lp s2 = Some (8 * int (length vs), map Some vs, s3)"
proof -
  have sz: "unat (n * 2 * TIMESPEC_SIZE) = 16 * unat n"
  proof -
    have "unat (n * 2) = unat n * 2" using n(2) by (subst unat_times) simp_all
    then show ?thesis using n(2) by (subst unat_times) simp_all
  qed
  then have nz: "n * 2 * TIMESPEC_SIZE \<noteq> 0" using n(1) by auto
  define b where "b = Buf (n * 2 * TIMESPEC_SIZE) Map.empty"
  have vm: "vmalloc avail (n * 2 * TIMESPEC_SIZE) = b" using n(3) nz by (simp add: vmalloc_def b_def)
  define s0 where "s0 = upd_task t (\<lambda>p. p\<lparr>task_spin_lock := True, user_pid := up, buf := b,
    is_log_enabled := 1, buf_offset := 0, no_data_points := n\<rparr>) s"
  define s1 where "s1 = spin_unlock t (each_thread t (\<lambda>u. upd_task u (\<lambda>p. p\<lparr>is_log_enabled := 1\<rparr>)) s0)"
  have set: "sys_setLogging avail lp up n s = Some (0, s1)"
  proof -
    have "upd_task t (\<lambda>p. p\<lparr>is_log_enabled := 1, buf_offset := 0, no_data_points := n\<rparr>)
        (upd_task t (\<lambda>p. p\<lparr>user_pid := up, buf := b\<rparr>) (upd_task t (\<lambda>p. p\<lparr>task_spin_lock := True\<rparr>) s)) = s0"
      by (simp add: s0_def upd_task_def)
    moreover have "read_unlock (s\<lparr>tasklist_lock := Readers 1\<rparr>) = s" using l(1) by (simp add: read_unlock_def)
    ultimately show ?thesis using p l
      by (simp add: sys_setLogging_def find_task_by_vpid_def spin_lock_def Let_def vm [simplified] s1_def)
        (simp add: b_def)
  qed
  have t1: "buf (tasks s1 t) = b" "no_data_points (tasks s1 t) = n" "buf_offset (tasks s1 t) = 0"
    "tasklist_lock s1 = Unlocked" "find_task_by_vpid lp s1 = Some t"
    unfolding s1_def each_thread_flag using p l
    by (simp_all add: spin_unlock_def s0_def find_task_by_vpid_def)
  have "log_inv s1 t []" using n(2) sz by (simp add: log_inv_def t1 b_def)
  from log_all_stores [OF this, of vs] vs t1(2) obtain q where
    q: "foldo (\<lambda>v s. map_option snd (log_data_point t v s)) vs s1 = Some (upd_task t (\<lambda>_. q) s1)"
    "log_inv (upd_task t (\<lambda>_. q) s1) t vs" by auto
  let ?s2 = "upd_task t (\<lambda>_. q) s1"
  from q(2) obtain sz f where f: "buf q = Buf sz f" "unat sz = 16 * unat (no_data_points q)" "unat sz < 2 ^ 31"
    "unat (buf_offset q) = length vs" "length vs \<le> 2 * unat (no_data_points q)" "\<forall>i < length vs. f i = Some (vs ! i)"
    by (auto simp: log_inv_def)
  have o8: "unat (buf_offset q * TIMESPEC_SIZE) = 8 * length vs" using f by (subst unat_times) simp_all
  have si: "sint (buf_offset q * TIMESPEC_SIZE) = 8 * int (length vs)"
    using f o8 by (subst sint_of_unat) (simp_all add: o8 del: of_nat_unat)
  have "log_read (buf q) (buf_offset q) = Some (map Some vs)"
  proof (cases "vs = []")
    case True
    then have "buf_offset q * TIMESPEC_SIZE = 0" using o8 by (simp add: unat_eq_zero)
    then show ?thesis using True by (simp add: log_read_def)
  next
    case False
    then have "buf_offset q * TIMESPEC_SIZE \<noteq> 0" using o8 by auto
    moreover have "0 \<le>s buf_offset q" using f by (simp add: word_sle_eq sint_of_unat)
    moreover have "map f [0..<length vs] = map Some vs" using f(6) by (intro nth_equalityI) simp_all
    ultimately show ?thesis using f by (simp add: log_read_def)
  qed
  moreover have "read_unlock (?s2\<lparr>tasklist_lock := Readers 1\<rparr>) = ?s2" using t1(4) by (simp add: read_unlock_def)
  ultimately have "\<exists>s3. sys_getLog True lp ?s2 = Some (8 * int (length vs), map Some vs, s3)"
    using p t1(4,5) si by (simp add: sys_getLog_def find_task_by_vpid_def)
  with set q(1) show ?thesis by blast
qed

text \<open>
  C36. \<open>sys_getLog\<close> frees the buffer and leaves logging on: unless the log was full, the next data
  point of the task is written into the freed memory.
\<close>

theorem getLog_use_after_free:
  assumes "0 < nr" "find_task_by_vpid nr s = Some t" "tasklist_lock s = Unlocked" "log_inv s t vs"
    "length vs < 2 * unat (no_data_points (tasks s t))"
  shows "\<exists>r out s'. sys_getLog w nr s = Some (r, out, s') \<and> is_log_enabled (tasks s' t) = is_log_enabled (tasks s t) \<and>
     log_data_point t v s' = None"
proof -
  from assms(4) obtain sz f where b: "buf (tasks s t) = Buf sz f" "unat sz = 16 * unat (no_data_points (tasks s t))"
    "unat sz < 2 ^ 31" "unat (buf_offset (tasks s t)) = length vs" by (auto simp: log_inv_def)
  let ?s = "upd_task t (\<lambda>p. p\<lparr>buf := Freed\<rparr>) s"
  have "0 \<le>s buf_offset (tasks s t)" using b assms(5) by (simp add: word_sle_eq sint_of_unat)
  then obtain out where "log_read (buf (tasks s t)) (buf_offset (tasks s t)) = Some out"
    using b assms(5) by (cases "buf_offset (tasks s t) * TIMESPEC_SIZE = 0") (simp_all add: log_read_def)
  moreover have "read_unlock (s\<lparr>tasklist_lock := Readers 1\<rparr>) = s" using assms(3) by (simp add: read_unlock_def)
  moreover have "upd_task t (\<lambda>p. p\<lparr>buf := vfree (buf p)\<rparr>) s = ?s" using b(1) by (simp add: upd_task_def vfree_def)
  ultimately have "\<exists>r out. sys_getLog w nr s = Some (r, out, ?s)"
    using assms(1-3) by (auto simp: sys_getLog_def find_task_by_vpid_def Let_def)
  moreover have "\<not> 2 * no_data_points (tasks s t) \<le>s buf_offset (tasks s t)"
    using log_full_iff [OF assms(4)] assms(5) by simp
  then have "log_data_point t v ?s = None" by (simp add: log_data_point_def log_store_def Let_def)
  ultimately show ?thesis by auto
qed

definition logged :: kst where
  "logged = upd_task 5 (\<lambda>p. p\<lparr>buf := Buf 16 Map.empty, is_log_enabled := 1, no_data_points := 1\<rparr>) boot"

lemma logged_inv: "log_inv logged 5 []" "tasklist_lock logged = Unlocked" "no_data_points (tasks logged 5) = 1"
  "find_task_by_vpid 5 logged = Some 5"
  by (simp_all add: logged_def log_inv_def boot_def plain_task_def find_task_by_vpid_def)


theorem log_roundtrip_witness:
  "\<exists>s1 s2 s3. sys_setLogging (\<lambda>_. True) 5 6 1 boot = Some (0, s1) \<and>
     foldo (\<lambda>v s. map_option snd (log_data_point 5 v s)) [mk_ts 1 2] s1 = Some s2 \<and>
     sys_getLog True 5 s2 = Some (8, [Some (mk_ts 1 2)], s3)"
  using log_roundtrip [of 1 "\<lambda>_. True" 5 6 boot 5 "[mk_ts 1 2]"]
  by (simp add: boot_def plain_task_def find_task_by_vpid_def)

theorem getLog_use_after_free_witness:
  "\<exists>r out s'. sys_getLog True 5 logged = Some (r, out, s') \<and> log_data_point 5 (mk_ts 1 2) s' = None"
  using getLog_use_after_free [OF _ logged_inv(4,2,1), of True "mk_ts 1 2"] by (auto simp: logged_inv(3))

end
