(* ===== verification/SysClock.thy ===== *)
theory SysClock
  imports Admission
begin

unbundle bit_operations_syntax

text \<open>
  The SysClock power scheme (\<open>make_task_ct_struct\<close>, \<open>sysclock\<close>, \<open>get_table_frequency\<close>,
  \<open>apply_sysclock\<close> and the per-processor variants, of \<open>kernel/sched.c\<close>): the lowest clock
  frequency, as a fraction of the highest, at which the tasks keep their deadlines, and the
  budgets stretched to that frequency.

  An unsigned division by zero gives 0, as the ARM library routine \<open>__aeabi_uidiv\<close> returns it.
\<close>

subsection \<open>The array of tasks\<close>

text \<open>
  The allocation is taken to succeed. The array has as many slots as the counter says: a
  longer list overruns it, a shorter one leaves slots unwritten, and both are \<open>None\<close>.
\<close>

definition ct_slot :: "kst \<Rightarrow> tid \<Rightarrow> task_ct_struct" where
  "ct_slot s t =
     \<lparr>budget = convert_to_usecs (min_budget_time (tasks s t)),
      period = convert_to_usecs (time_period (tasks s t)), util = 0, ct_task = t\<rparr>"

definition make_task_ct_struct :: "kst \<Rightarrow> task_ct_struct list option" where
  "make_task_ct_struct s = do {
     ts \<leftarrow> periodic_tasks s;
     if int (length ts) = periodic_tasks_size s then Some (map (ct_slot s) ts) else None
   }"

definition make_task_ct_struct_per_cpu :: "nat \<Rightarrow> kst \<Rightarrow> task_ct_struct list option" where
  "make_task_ct_struct_per_cpu cpu s = do {
     ts \<leftarrow> cpu_tasks cpu s;
     if int (length ts) = per_cpu_list_size s cpu then Some (map (ct_slot s) ts) else None
   }"

subsection \<open>The frequency of one task\<close>

text \<open>The work released up to and including the time \<open>C\<close>, and the idle time before it.\<close>

definition busy_demand :: "task_ct_struct list \<Rightarrow> nat \<Rightarrow> u32 \<Rightarrow> u32 \<Rightarrow> u32" where
  "busy_demand list i slack C =
     slack + sum_list (map (\<lambda>x. (C div period x + 1) * budget x) (take (i + 1) list))"

partial_function (option) busy_loop :: "task_ct_struct list \<Rightarrow> nat \<Rightarrow> u32 \<Rightarrow> u32 \<Rightarrow> u32 \<Rightarrow> u32 option" where
  "busy_loop list i slack C delta =
     (if C < period (list ! i) \<and> 0 < delta then
        (let Ctemp = busy_demand list i slack C in busy_loop list i slack Ctemp (Ctemp - C))
      else Some C)"

definition idle_duration :: "task_ct_struct list \<Rightarrow> nat \<Rightarrow> u32 \<Rightarrow> u32" where
  "idle_duration list i C =
     (let d = fold (\<lambda>x d. let temp = ceiling C (period x) * period x - C in if temp < d then temp else d)
                (take (i + 1) list) 234567;
          rest = period (list ! i) - C
      in if rest < d then rest else d)"

text \<open>The result is the frequency factor and the value \<open>in_bzp\<close> has when the loop ends.\<close>

partial_function (option) alpha_loop ::
    "task_ct_struct list \<Rightarrow> nat \<Rightarrow> bool \<Rightarrow> u32 \<Rightarrow> u32 \<Rightarrow> u32 \<Rightarrow> (u32 \<times> bool) option" where
  "alpha_loop list i in_bzp C slack al =
     (if C < period (list ! i) then
        (if in_bzp then do {
           C \<leftarrow> busy_loop list i slack C (period (list ! i) - C);
           alpha_loop list i False C slack al
         }
         else
           (let d = idle_duration list i C;
                C = C + d;
                slack = slack + d;
                tW = C;
                w = tW - slack;
                a = w * SCALE_UP_FACTOR div tW
            in alpha_loop list i True C slack (if al < a then al else a)))
      else Some (al, in_bzp))"

fun sysclock_from :: "task_ct_struct list \<Rightarrow> nat list \<Rightarrow> bool \<Rightarrow> u32 \<Rightarrow> kst \<Rightarrow> (u32 \<times> kst) option" where
  "sysclock_from list [] in_bzp max_alpha s = Some (max_alpha, s)"
| "sysclock_from list (i # is) in_bzp max_alpha s = do {
     (al, in_bzp) \<leftarrow> alpha_loop list i in_bzp (budget (list ! i)) 0 (2 * SCALE_UP_FACTOR);
     let s = upd_task (ct_task (list ! i)) (\<lambda>p. p\<lparr>alpha := al\<rparr>) s;
     sysclock_from list is in_bzp (if max_alpha < al then al else max_alpha) s
   }"

definition sysclock_per_cpu :: "u32 \<Rightarrow> task_ct_struct list \<Rightarrow> int \<Rightarrow> kst \<Rightarrow> (u32 \<times> kst) option" where
  "sysclock_per_cpu max_frequency list n s =
     (if n \<le> 0 then Some (0, s)
      else if int (length list) < n then None
      else do {
        (max_alpha, s) \<leftarrow> sysclock_from list [0..<nat n] True 0 s;
        Some (max_frequency * max_alpha, s)
      })"

definition sysclock :: "u32 \<Rightarrow> task_ct_struct list \<Rightarrow> kst \<Rightarrow> (u32 \<times> kst) option" where
  "sysclock max_frequency list s =
     (if periodic_tasks_size s \<le> 0 then Some (0, s)
      else if int (length list) < periodic_tasks_size s then None
      else do {
        (max_alpha, s) \<leftarrow> sysclock_from list [0..<nat (periodic_tasks_size s)] True 0 s;
        Some (max_frequency * max_alpha, s)
      })"

declare busy_loop.simps [code] alpha_loop.simps [code]

subsection \<open>Applying a frequency\<close>

abbreviation (input) CPUFREQ_ENTRY_INVALID :: u32 where "CPUFREQ_ENTRY_INVALID \<equiv> - 1"

text \<open>All processors share one table; its list ends before \<open>CPUFREQ_TABLE_END\<close>.\<close>

definition get_table_frequency :: "u32 \<Rightarrow> kst \<Rightarrow> u32" where
  "get_table_frequency frequency s =
     (case find (\<lambda>f. f \<noteq> CPUFREQ_ENTRY_INVALID \<and> frequency \<le> f) (freq_table s) of
        Some f \<Rightarrow> f | None \<Rightarrow> frequency)"

definition updated_budget :: "timespec \<Rightarrow> u32 \<Rightarrow> u32 \<Rightarrow> timespec" where
  "updated_budget min_budget max_freq frequency =
     ns_to_timespec (fst (div64_32 (timespec_to_ns min_budget * ucast max_freq) frequency))"

definition apply_frequency :: "u32 \<Rightarrow> u32 \<Rightarrow> tid \<Rightarrow> kst \<Rightarrow> kst" where
  "apply_frequency frequency max_freq t s =
     (let s = upd_task t (\<lambda>p. p\<lparr>budget_timer := snd (hrtimer_try_to_cancel (budget_timer p))\<rparr>) s;
          s = upd_task t (\<lambda>p. p\<lparr>period_timer := snd (hrtimer_try_to_cancel (period_timer p))\<rparr>) s;
          s = upd_task t (\<lambda>p. p\<lparr>compute_time := mk_ts 0 0\<rparr>) s;
          s = upd_task t (\<lambda>p. p\<lparr>budget_time := updated_budget (min_budget_time p) max_freq frequency\<rparr>) s
      in each_thread t (\<lambda>u s. snd (wake_up_process u s)) s)"

definition restart_period_timer :: "tid \<Rightarrow> kst \<Rightarrow> kst" where
  "restart_period_timer t s =
     upd_task t (\<lambda>p. p\<lparr>period_timer :=
       snd (hrtimer_start (mono_clock s) (period_timer p) (timespec_to_ktime (time_period p)))\<rparr>) s"

definition apply_sysclock :: "u32 \<Rightarrow> u32 \<Rightarrow> kst \<Rightarrow> (u32 \<times> kst) option" where
  "apply_sysclock frequency max_frequency s = do {
     let frequency = get_table_frequency frequency s;
     ts \<leftarrow> periodic_tasks s;
     let s = fold (apply_frequency frequency max_frequency) ts s;
     let s = fold restart_period_timer ts s;
     Some (frequency, s)
   }"

text \<open>The variant for one processor handles every periodic task all the same.\<close>

definition apply_sysclock_per_cpu :: "u32 \<Rightarrow> u32 \<Rightarrow> nat \<Rightarrow> kst \<Rightarrow> (u32 \<times> kst) option" where
  "apply_sysclock_per_cpu frequency max_frequency cpu s = do {
     let frequency = get_table_frequency frequency s;
     ts \<leftarrow> periodic_tasks s;
     let s = fold (apply_frequency frequency max_frequency) ts s;
     let s = fold restart_period_timer ts s;
     Some (frequency, s)
   }"

subsection \<open>The loops without wrapping\<close>

definition arrived :: "task_ct_struct list \<Rightarrow> nat \<Rightarrow> nat" where
  "arrived ys t = sum_list (map (\<lambda>x. (t div T_of x + 1) * C_of x) ys)"

definition before :: "task_ct_struct list \<Rightarrow> nat \<Rightarrow> nat" where
  "before ys t = sum_list (map (\<lambda>x. cdiv t (T_of x) * C_of x) ys)"

lemma before_released: "before ys t = released (map ct_of ys) t"
  by (simp add: before_def released_def ct_of_def o_def)

lemma before_mono: "t \<le> u \<Longrightarrow> before ys t \<le> before ys u"
  unfolding before_def by (intro sum_list_map_mono mult_le_mono1 cdiv_mono)

lemma before_le_arrived: "before ys t \<le> arrived ys t"
  unfolding before_def arrived_def by (intro sum_list_map_mono mult_le_mono1 cdiv_le)

lemma cdiv_later: "0 < T \<Longrightarrow> t < u \<Longrightarrow> t div T + 1 \<le> cdiv u T"
proof -
  assume T: "0 < T" and tu: "t < u"
  have "cdiv (Suc t) T \<le> cdiv u T" using tu by (intro cdiv_mono) simp
  moreover have "t div T + 1 \<le> cdiv (Suc t) T" using T by (simp add: cdiv_Suc) (simp add: cdiv_def)
  ultimately show ?thesis by linarith
qed

lemma arrived_before: "\<forall>x \<in> set ys. 0 < T_of x \<Longrightarrow> t < u \<Longrightarrow> arrived ys t \<le> before ys u"
  unfolding before_def arrived_def by (intro sum_list_map_mono mult_le_mono1 cdiv_later) auto

lemma arrived_before_upto:
  assumes "\<forall>x \<in> set ys. 0 < T_of x \<and> u \<le> cdiv t (T_of x) * T_of x"
  shows "before ys u \<le> arrived ys t"
  unfolding before_def arrived_def
proof (intro sum_list_map_mono mult_le_mono1)
  fix x assume x: "x \<in> set ys"
  then have "cdiv u (T_of x) \<le> cdiv (cdiv t (T_of x) * T_of x) (T_of x)" using assms by (intro cdiv_mono) simp
  also have "\<dots> = cdiv t (T_of x)" using assms x by (simp add: cdiv_def)
  also have "\<dots> \<le> t div T_of x + 1" by (rule cdiv_le)
  finally show "cdiv u (T_of x) \<le> t div T_of x + 1" .
qed

text \<open>A release at the very time \<open>t\<close> counts for \<open>arrived\<close> and not for \<open>before\<close>.\<close>

lemma arrived_at_release:
  "x \<in> set ys \<Longrightarrow> 0 < C_of x \<Longrightarrow> t mod T_of x = 0 \<Longrightarrow> before ys t < arrived ys t"
proof (induction ys)
  case (Cons y ys)
  have y: "cdiv t (T_of y) * C_of y \<le> (t div T_of y + 1) * C_of y" by (intro mult_le_mono1 cdiv_le)
  show ?case
  proof (cases "x = y")
    case True
    then have "cdiv t (T_of y) * C_of y < (t div T_of y + 1) * C_of y" using Cons.prems by (simp add: cdiv_def)
    then show ?thesis using before_le_arrived [of ys t] by (simp add: before_def arrived_def)
  next
    case False
    then have "before ys t < arrived ys t" using Cons by simp
    with y show ?thesis by (simp add: before_def arrived_def)
  qed
qed simp

lemma arrived_pos: "x \<in> set ys \<Longrightarrow> 0 < C_of x \<Longrightarrow> 0 < arrived ys t"
proof -
  assume x: "x \<in> set ys" "0 < C_of x"
  then have "(t div T_of x + 1) * C_of x \<le> arrived ys t"
    unfolding arrived_def by (intro member_le_sum_list) auto
  moreover have "0 < (t div T_of x + 1) * C_of x" using x(2) by simp
  ultimately show ?thesis by linarith
qed

text \<open>The tasks the loop for task \<open>i\<close> looks at, within the bounds of the 32-bit arithmetic.\<close>

definition sys_ok :: "task_ct_struct list \<Rightarrow> nat \<Rightarrow> bool" where
  "sys_ok xs i \<longleftrightarrow> i < length xs \<and>
     (\<forall>x \<in> set (take (i + 1) xs). 0 < C_of x \<and> C_of x \<le> T_of x \<and> T_of x \<le> T_of (xs ! i)) \<and>
     (2 * (i + 1) + 1) * T_of (xs ! i) < 2 ^ 31 \<and> 1000 * T_of (xs ! i) < 2 ^ 32"

lemma task_set_sys_ok:
  assumes ok: "task_set_ok xs" and i: "i < length xs" and T: "1000 * T_of (xs ! i) < 2 ^ 32"
  shows "sys_ok xs i"
proof -
  have "T_of x \<le> T_of (xs ! i)" if x: "x \<in> set (take (i + 1) xs)" for x
  proof -
    from x obtain j where "j \<le> i" "x = xs ! j" using i by (auto simp: in_set_conv_nth less_Suc_eq_le)
    then show ?thesis using ok i sorted_nth_mono [of "map T_of xs" j i] by (simp add: task_set_ok_def)
  qed
  moreover have "(2 * (i + 1) + 1) * T_of (xs ! i) < 2 ^ 31"
  proof (rule le_less_trans)
    show "(2 * (i + 1) + 1) * T_of (xs ! i) \<le> (2 * length xs + 1) * T_of (xs ! i)"
      using i by (intro mult_le_mono1) simp
    show "(2 * length xs + 1) * T_of (xs ! i) < 2 ^ 31" using ok i by (simp add: task_set_ok_def)
  qed
  moreover have "\<forall>x \<in> set (take (i + 1) xs). 0 < C_of x \<and> C_of x \<le> T_of x"
    using ok set_take_subset [of "i + 1" xs] by (auto simp: task_set_ok_def)
  ultimately show ?thesis unfolding sys_ok_def using i T by blast
qed

lemma sys_ok_bounds:
  assumes "sys_ok xs i"
  shows "T_of (xs ! i) < 2 ^ 31" "0 < T_of (xs ! i)" "xs ! i \<in> set (take (i + 1) xs)"
    "x \<in> set (take (i + 1) xs) \<Longrightarrow> 0 < T_of x \<and> T_of x < 2 ^ 31"
proof -
  show m: "xs ! i \<in> set (take (i + 1) xs)"
    using assms by (auto simp: sys_ok_def in_set_conv_nth intro!: exI [of _ i])
  then show "0 < T_of (xs ! i)" using assms by (auto simp: sys_ok_def)
  have "T_of (xs ! i) \<le> (2 * (i + 1) + 1) * T_of (xs ! i)" by simp
  then show "T_of (xs ! i) < 2 ^ 31" using assms unfolding sys_ok_def by linarith
  then show "0 < T_of x \<and> T_of x < 2 ^ 31" if "x \<in> set (take (i + 1) xs)"
    using assms that by (fastforce simp: sys_ok_def)
qed

lemma arrived_bound:
  assumes "sys_ok xs i" "t < T_of (xs ! i)"
  shows "arrived (take (i + 1) xs) t \<le> 2 * (i + 1) * T_of (xs ! i)"
proof -
  have "(t div T_of x + 1) * C_of x \<le> 2 * T_of (xs ! i)" if x: "x \<in> set (take (i + 1) xs)" for x
  proof -
    have "C_of x \<le> T_of x" "T_of x \<le> T_of (xs ! i)" using assms(1) x by (auto simp: sys_ok_def)
    moreover from this(1) have "(t div T_of x + 1) * C_of x \<le> (t div T_of x + 1) * T_of x" by (rule mult_le_mono2)
    moreover have "(t div T_of x + 1) * T_of x \<le> t + T_of x" by simp
    ultimately show ?thesis using assms(2) by linarith
  qed
  then have "arrived (take (i + 1) xs) t \<le> length (take (i + 1) xs) * (2 * T_of (xs ! i))"
    unfolding arrived_def by (rule sum_list_le_const)
  moreover have "length (take (i + 1) xs) = i + 1" using assms(1) by (simp add: sys_ok_def)
  ultimately show ?thesis by (simp add: ac_simps)
qed

lemma unat_arrived:
  fixes C :: u32
  assumes "arrived ys (unat C) < 2 ^ 31"
  shows "unat (sum_list (map (\<lambda>x. (C div period x + 1) * budget x) ys)) = arrived ys (unat C)"
proof -
  have u: "unat ((C div period x + 1) * budget x) = (unat C div T_of x + 1) * C_of x" if x: "x \<in> set ys" for x
  proof -
    have "(unat C div T_of x + 1) * C_of x \<le> arrived ys (unat C)"
      unfolding arrived_def using x by (intro member_le_sum_list) auto
    then have b: "(unat C div T_of x + 1) * C_of x < 2 ^ 31" using assms by linarith
    show ?thesis
    proof (cases "C_of x = 0")
      case True
      then have "budget x = 0" by (simp add: C_of_def unat_eq_0)
      then show ?thesis by (simp add: C_of_def)
    next
      case False
      then have "(unat C div T_of x + 1) * 1 \<le> (unat C div T_of x + 1) * C_of x" by (intro mult_le_mono2) simp
      from le_less_trans [OF this b] have d: "unat C div T_of x + 1 < 2 ^ 31" by (simp only: mult_1_right)
      have "unat (C div period x + 1) = unat C div T_of x + 1"
        using d by (subst unat_plus) (simp_all add: unat_div T_of_def)
      then show ?thesis using b by (subst unat_times) (simp_all add: C_of_def)
    qed
  qed
  have "sum_list (map (\<lambda>x. unat ((C div period x + 1) * budget x)) ys) = arrived ys (unat C)"
    unfolding arrived_def using u by (metis (no_types, lifting) map_eq_conv)
  then show ?thesis using assms by (subst unat_sum_list) simp_all
qed

lemma unat_busy_demand:
  assumes ok: "sys_ok xs i" and C: "unat C < T_of (xs ! i)" and sl: "unat slack \<le> T_of (xs ! i)"
  shows "unat (busy_demand xs i slack C) = unat slack + arrived (take (i + 1) xs) (unat C)"
    "unat slack + arrived (take (i + 1) xs) (unat C) < 2 ^ 31"
proof -
  have "unat slack + arrived (take (i + 1) xs) (unat C) \<le> T_of (xs ! i) + 2 * (i + 1) * T_of (xs ! i)"
    using arrived_bound [OF ok C] sl by linarith
  also have "\<dots> = (2 * (i + 1) + 1) * T_of (xs ! i)" by (simp add: algebra_simps)
  also have "\<dots> < 2 ^ 31" using ok by (simp add: sys_ok_def)
  finally show b: "unat slack + arrived (take (i + 1) xs) (unat C) < 2 ^ 31" .
  then have "unat (sum_list (map (\<lambda>x. (C div period x + 1) * budget x) (take (i + 1) xs))) = arrived (take (i + 1) xs) (unat C)"
    by (intro unat_arrived) simp
  then show "unat (busy_demand xs i slack C) = unat slack + arrived (take (i + 1) xs) (unat C)"
    unfolding busy_demand_def using b by (subst unat_plus) simp_all
qed

text \<open>
  The busy period: it ends, at a time when everything released so far is done or at the
  deadline, and it never starts to idle before.
\<close>

lemma busy_loop_spec:
  assumes ok: "sys_ok xs i" and sl: "unat slack \<le> T_of (xs ! i)"
  shows "unat C \<le> unat slack + before (take (i + 1) xs) (unat C) \<Longrightarrow> delta \<noteq> 0 \<Longrightarrow>
    \<exists>C'. busy_loop xs i slack C delta = Some C' \<and> unat C \<le> unat C' \<and>
      unat C' \<le> unat slack + before (take (i + 1) xs) (unat C') \<and>
      (unat C' < T_of (xs ! i) \<longrightarrow> unat C' = unat slack + arrived (take (i + 1) xs) (unat C'))"
proof (induction "T_of (xs ! i) - unat C" arbitrary: C delta rule: less_induct)
  case less
  let ?ys = "take (i + 1) xs"
  have lt: "C < period (xs ! i) \<longleftrightarrow> unat C < T_of (xs ! i)" by (simp add: word_less_nat_alt T_of_def)
  have d: "0 < delta" using less.prems(2) by (simp add: word_gt_0)
  show ?case
  proof (cases "unat C < T_of (xs ! i)")
    case False
    then show ?thesis using lt less.prems by (subst busy_loop.simps) auto
  next
    case True
    define C1 where "C1 = busy_demand xs i slack C"
    have u: "unat C1 = unat slack + arrived ?ys (unat C)" unfolding C1_def by (rule unat_busy_demand [OF ok True sl])
    have step: "busy_loop xs i slack C delta = busy_loop xs i slack C1 (C1 - C)"
      using True lt d by (subst busy_loop.simps) (simp add: C1_def Let_def)
    have ge: "unat C \<le> unat C1" using less.prems(1) before_le_arrived [of ?ys "unat C"] u by linarith
    show ?thesis
    proof (cases "C1 = C")
      case True
      then have "busy_loop xs i slack C1 (C1 - C) = Some C" by (subst busy_loop.simps) simp
      then show ?thesis using step less.prems(1) u True by auto
    next
      case False
      then have g: "unat C < unat C1" using ge by (metis word_unat_eq_iff le_neq_implies_less)
      have "arrived ?ys (unat C) \<le> before ?ys (unat C1)"
        using sys_ok_bounds(4) [OF ok] g by (intro arrived_before) auto
      then have "unat C1 \<le> unat slack + before ?ys (unat C1)" using u by linarith
      moreover have "T_of (xs ! i) - unat C1 < T_of (xs ! i) - unat C" using g True by linarith
      ultimately obtain C' where "busy_loop xs i slack C1 (C1 - C) = Some C'" "unat C1 \<le> unat C'"
        "unat C' \<le> unat slack + before ?ys (unat C')"
        "unat C' < T_of (xs ! i) \<longrightarrow> unat C' = unat slack + arrived ?ys (unat C')"
        using less.hyps [of C1 "C1 - C"] False by auto
      then show ?thesis using step g by (intro exI [of _ C']) auto
    qed
  qed
qed

lemma fold_min_word:
  fixes f :: "'b \<Rightarrow> u32"
  defines "g \<equiv> fold (\<lambda>x d. if f x < d then f x else d)"
  shows "g ys d \<le> d" "x \<in> set ys \<Longrightarrow> g ys d \<le> f x" "g ys d = d \<or> (\<exists>x \<in> set ys. g ys d = f x)"
proof -
  have all: "g ys d \<le> d \<and> (\<forall>x \<in> set ys. g ys d \<le> f x) \<and> (g ys d = d \<or> (\<exists>x \<in> set ys. g ys d = f x))"
    unfolding g_def
  proof (induction ys arbitrary: d)
    case (Cons y ys)
    from Cons [of "if f y < d then f y else d"] show ?case by (auto split: if_splits)
  qed simp
  then show "g ys d \<le> d" "g ys d = d \<or> (\<exists>x \<in> set ys. g ys d = f x)" by blast+
  show "x \<in> set ys \<Longrightarrow> g ys d \<le> f x" using all by blast
qed

text \<open>
  The idle time after a busy period: up to the next release, and positive because the busy
  period includes whatever is released at its end.
\<close>

lemma unat_to_release:
  fixes C :: u32
  assumes "sys_ok xs i" "unat C < T_of (xs ! i)" "x \<in> set (take (i + 1) xs)"
  shows "unat (ceiling C (period x) * period x - C) = cdiv (unat C) (T_of x) * T_of x - unat C"
proof -
  have x: "0 < T_of x" "T_of x < 2 ^ 31" and C: "unat C < 2 ^ 31"
    using sys_ok_bounds(1,4) [OF assms(1)] assms(2,3) by (blast, blast, linarith)
  have "T_of x \<le> T_of (xs ! i)" using assms(1,3) by (simp add: sys_ok_def)
  then have b: "cdiv (unat C) (T_of x) * T_of x < 2 ^ 32"
    using cdiv_mult_le [of "unat C" "T_of x"] C x(2) by simp
  have c: "unat (ceiling C (period x)) = cdiv (unat C) (T_of x)" using C x by (simp add: unat_ceiling T_of_def)
  then have m: "unat (ceiling C (period x) * period x) = cdiv (unat C) (T_of x) * T_of x"
    using b by (subst unat_times) (simp_all add: T_of_def)
  moreover have "C \<le> ceiling C (period x) * period x"
    using cdiv_mult_ge [OF x(1), of "unat C"] by (simp only: word_le_nat_alt m)
  ultimately show ?thesis by (simp add: unat_sub)
qed

lemma idle_duration_spec:
  assumes ok: "sys_ok xs i" and C: "unat C < T_of (xs ! i)"
  shows "unat C + unat (idle_duration xs i C) \<le> T_of (xs ! i)"
    and "x \<in> set (take (i + 1) xs) \<Longrightarrow> unat C + unat (idle_duration xs i C) \<le> cdiv (unat C) (T_of x) * T_of x"
    and "(\<And>x. x \<in> set (take (i + 1) xs) \<Longrightarrow> 0 < unat C mod T_of x) \<Longrightarrow> 0 < unat (idle_duration xs i C)"
proof -
  let ?ys = "take (i + 1) xs" and ?f = "\<lambda>x. ceiling C (period x) * period x - C"
  define d where "d = fold (\<lambda>x d. if ?f x < d then ?f x else d) ?ys 234567"
  have d: "idle_duration xs i C = (if period (xs ! i) - C < d then period (xs ! i) - C else d)"
    by (simp add: idle_duration_def d_def Let_def)
  have r: "unat (period (xs ! i) - C) = T_of (xs ! i) - unat C"
    using C by (simp add: T_of_def unat_sub word_le_nat_alt)
  note m = fold_min_word [where f = ?f and ys = ?ys and d = 234567, folded d_def]
  have le: "unat (idle_duration xs i C) \<le> T_of (xs ! i) - unat C" "unat (idle_duration xs i C) \<le> unat d"
    unfolding d using r by (auto simp: word_less_nat_alt)
  then show "unat C + unat (idle_duration xs i C) \<le> T_of (xs ! i)" using C by linarith
  show "unat C + unat (idle_duration xs i C) \<le> cdiv (unat C) (T_of x) * T_of x" if x: "x \<in> set ?ys" for x
  proof -
    have "unat d \<le> unat (?f x)" using m(2) [OF x] by (simp add: word_le_nat_alt)
    then have "unat (idle_duration xs i C) \<le> cdiv (unat C) (T_of x) * T_of x - unat C"
      using le(2) unat_to_release [OF ok C x] by linarith
    moreover have "unat C \<le> cdiv (unat C) (T_of x) * T_of x"
      using sys_ok_bounds(4) [OF ok x] by (intro cdiv_mult_ge) simp
    ultimately show ?thesis by linarith
  qed
  show "0 < unat (idle_duration xs i C)" if p: "\<And>x. x \<in> set ?ys \<Longrightarrow> 0 < unat C mod T_of x"
  proof -
    have "0 < unat (?f x)" if x: "x \<in> set ?ys" for x
    proof -
      have "cdiv (unat C) (T_of x) * T_of x = unat C div T_of x * T_of x + T_of x" using p [OF x] by (simp add: cdiv_def)
      moreover have "unat C mod T_of x < T_of x" using sys_ok_bounds(4) [OF ok x] by simp
      moreover have "unat C div T_of x * T_of x + unat C mod T_of x = unat C" by simp
      ultimately show ?thesis unfolding unat_to_release [OF ok C x] by linarith
    qed
    then have "0 < unat d" using m(3) by auto
    then show ?thesis unfolding d using r C by auto
  qed
qed

text \<open>What a factor \<open>a\<close> promises: at some time up to the deadline, the released work fits.\<close>

definition good_alpha :: "task_ct_struct list \<Rightarrow> nat \<Rightarrow> u32 \<Rightarrow> bool" where
  "good_alpha xs i a \<longleftrightarrow> a = 2000 \<or>
     (\<exists>t. 0 < t \<and> t \<le> T_of (xs ! i) \<and> 1000 * before (take (i + 1) xs) t < (unat a + 1) * t)"

lemma idle_step:
  fixes C slack :: u32
  assumes ok: "sys_ok xs i" and C: "unat C < T_of (xs ! i)"
    and fx: "unat C = unat slack + arrived (take (i + 1) xs) (unat C)"
    and inv: "unat C \<le> unat slack + before (take (i + 1) xs) (unat C)"
  defines "d \<equiv> idle_duration xs i C"
  shows "unat (C + d) = unat C + unat d" "unat (slack + d) = unat slack + unat d" "0 < unat d"
    "unat (C + d) \<le> unat (slack + d) + before (take (i + 1) xs) (unat (C + d))"
    "good_alpha xs i ((C + d - (slack + d)) * 1000 div (C + d))" "unat (slack + d) \<le> T_of (xs ! i)"
proof -
  let ?ys = "take (i + 1) xs"
  have T: "T_of (xs ! i) < 2 ^ 31" by (rule sys_ok_bounds [OF ok])
  have b: "unat C + unat d \<le> T_of (xs ! i)" unfolding d_def by (rule idle_duration_spec [OF ok C])
  show u: "unat (C + d) = unat C + unat d" using b T by (subst unat_plus) simp_all
  show v: "unat (slack + d) = unat slack + unat d" using b T fx by (subst unat_plus) simp_all
  show "unat (slack + d) \<le> T_of (xs ! i)" using v b fx by linarith
  have "before ?ys (unat C) \<le> before ?ys (unat (C + d))" by (rule before_mono) (simp add: u)
  then show "unat (C + d) \<le> unat (slack + d) + before ?ys (unat (C + d))" using inv u v by linarith
  show "0 < unat d"
    unfolding d_def
  proof (rule idle_duration_spec(3) [OF ok C], rule ccontr)
    fix x assume x: "x \<in> set ?ys" "\<not> 0 < unat C mod T_of x"
    then have "before ?ys (unat C) < arrived ?ys (unat C)"
      using ok by (intro arrived_at_release [of x]) (auto simp: sys_ok_def)
    then show False using fx inv by linarith
  qed
  have w: "unat (C + d - (slack + d)) = arrived ?ys (unat C)"
  proof -
    have "slack \<le> C" using fx by (simp add: word_le_nat_alt)
    then have "unat (C - slack) = unat C - unat slack" by (rule unat_sub)
    moreover have "C + d - (slack + d) = C - slack" by simp
    ultimately show ?thesis using fx by simp
  qed
  have "arrived ?ys (unat C) * 1000 < 2 ^ 32" using fx C ok by (auto simp: sys_ok_def)
  then have m: "unat ((C + d - (slack + d)) * 1000) = arrived ?ys (unat C) * 1000"
    using w by (subst unat_times) simp_all
  have a: "unat ((C + d - (slack + d)) * 1000 div (C + d)) = arrived ?ys (unat C) * 1000 div (unat C + unat d)"
    unfolding unat_div m u ..
  have "before ?ys (unat C + unat d) \<le> arrived ?ys (unat C)"
    using sys_ok_bounds(4) [OF ok] idle_duration_spec(2) [OF ok C] unfolding d_def by (intro arrived_before_upto) blast
  moreover have pos: "0 < unat C + unat d"
    using fx arrived_pos [OF sys_ok_bounds(3) [OF ok], of "unat C"] ok sys_ok_bounds(3) [OF ok] by (auto simp: sys_ok_def)
  moreover have "arrived ?ys (unat C) * 1000 <
      (arrived ?ys (unat C) * 1000 div (unat C + unat d) + 1) * (unat C + unat d)"
    using pos dividend_less_div_times [of "unat C + unat d" "arrived ?ys (unat C) * 1000"] by (simp add: algebra_simps)
  ultimately have "1000 * before ?ys (unat C + unat d) <
      (arrived ?ys (unat C) * 1000 div (unat C + unat d) + 1) * (unat C + unat d)" by linarith
  then show "good_alpha xs i ((C + d - (slack + d)) * 1000 div (C + d))"
    unfolding good_alpha_def a using pos b by blast
qed

lemma if_less_le: "(if a < b then a else b) \<le> (a :: 'a::linorder)"
  by (simp add: not_less)

lemma alpha_loop_spec:
  assumes ok: "sys_ok xs i"
  shows "unat slack \<le> T_of (xs ! i) \<Longrightarrow> unat C \<le> unat slack + before (take (i + 1) xs) (unat C) \<Longrightarrow>
    (\<not> bzp \<longrightarrow> unat C < T_of (xs ! i) \<longrightarrow> unat C = unat slack + arrived (take (i + 1) xs) (unat C)) \<Longrightarrow>
    (G \<longrightarrow> good_alpha xs i al) \<Longrightarrow>
    \<exists>al' bzp'. alpha_loop xs i bzp C slack al = Some (al', bzp') \<and> al' \<le> al \<and> (G \<longrightarrow> good_alpha xs i al')"
proof (induction "2 * (T_of (xs ! i) - unat C) + (if bzp then 1 else 0)" arbitrary: C slack al bzp rule: less_induct)
  case less
  have lt: "C < period (xs ! i) \<longleftrightarrow> unat C < T_of (xs ! i)" by (simp add: word_less_nat_alt T_of_def)
  show ?case
  proof (cases "unat C < T_of (xs ! i)")
    case False
    then show ?thesis using lt less.prems by (subst alpha_loop.simps) auto
  next
    case True
    show ?thesis
    proof (cases bzp)
      case bzp: True
      have "period (xs ! i) - C \<noteq> 0" using True lt by auto
      from busy_loop_spec [OF ok less.prems(1,2) this] obtain C' where
        C': "busy_loop xs i slack C (period (xs ! i) - C) = Some C'" "unat C \<le> unat C'"
        "unat C' \<le> unat slack + before (take (i + 1) xs) (unat C')"
        "unat C' < T_of (xs ! i) \<longrightarrow> unat C' = unat slack + arrived (take (i + 1) xs) (unat C')" by blast
      have "\<exists>al' bzp'. alpha_loop xs i False C' slack al = Some (al', bzp') \<and> al' \<le> al \<and> (G \<longrightarrow> good_alpha xs i al')"
        using C' bzp less.prems by (intro less.hyps) (auto simp del: imp_disjL)
      then show ?thesis using True lt bzp C'(1) by (subst alpha_loop.simps) simp
    next
      case bzp: False
      define d where "d = idle_duration xs i C"
      note st = idle_step [OF ok True _ less.prems(2), folded d_def]
      have fx: "unat C = unat slack + arrived (take (i + 1) xs) (unat C)" using less.prems(3) bzp True by blast
      let ?a = "(C + d - (slack + d)) * 1000 div (C + d)"
      have "\<exists>al' bzp'. alpha_loop xs i True (C + d) (slack + d) (if al < ?a then al else ?a) = Some (al', bzp') \<and>
          al' \<le> (if al < ?a then al else ?a) \<and> (G \<longrightarrow> good_alpha xs i al')"
        using st [OF fx] bzp True less.prems(4) by (intro less.hyps) auto
      then obtain al' bzp' where r: "alpha_loop xs i True (C + d) (slack + d) (if al < ?a then al else ?a) = Some (al', bzp')"
        "al' \<le> (if al < ?a then al else ?a)" "G \<longrightarrow> good_alpha xs i al'" by blast
      have "alpha_loop xs i bzp C slack al = alpha_loop xs i True (C + d) (slack + d) (if al < ?a then al else ?a)"
        using True lt bzp by (subst alpha_loop.simps) (simp only: d_def Let_def if_True if_False)
      with r(1,3) order_trans [OF r(2) if_less_le] show ?thesis by (simp only:) blast
    qed
  qed
qed

lemma before_own:
  assumes "sys_ok xs i" "0 < t"
  shows "C_of (xs ! i) \<le> before (take (i + 1) xs) t"
proof -
  have "1 * C_of (xs ! i) \<le> cdiv t (T_of (xs ! i)) * C_of (xs ! i)"
    using cdiv_pos [OF assms(2) sys_ok_bounds(2) [OF assms(1)]] by (rule mult_le_mono1)
  also have "\<dots> \<le> before (take (i + 1) xs) t"
    unfolding before_def using sys_ok_bounds(3) [OF assms(1)] by (intro member_le_sum_list) auto
  finally show ?thesis by simp
qed

text \<open>A task starts in its busy period, or idle when the loop of the task before ended busy.\<close>

lemma alpha_loop_task:
  assumes ok: "sys_ok xs i"
  shows "\<exists>al bzp'. alpha_loop xs i bzp (budget (xs ! i)) 0 2000 = Some (al, bzp') \<and> al \<le> 2000 \<and>
    (bzp \<longrightarrow> good_alpha xs i al)"
proof -
  let ?C = "budget (xs ! i)"
  have C: "unat ?C = C_of (xs ! i)" "0 < C_of (xs ! i)" using ok sys_ok_bounds(3) [OF ok] by (auto simp: C_of_def sys_ok_def)
  show ?thesis
  proof (cases "\<not> bzp \<and> ?C < period (xs ! i)")
    case False
    then show ?thesis
      using alpha_loop_spec [OF ok, of 0 ?C bzp bzp 2000] before_own [OF ok, of "unat ?C"] C
      by (auto simp: good_alpha_def word_less_nat_alt T_of_def)
  next
    case True
    define d where "d = idle_duration xs i ?C"
    have lt: "unat ?C < T_of (xs ! i)" using True by (simp add: word_less_nat_alt T_of_def)
    have b: "unat ?C + unat d \<le> T_of (xs ! i)" unfolding d_def by (rule idle_duration_spec [OF ok lt])
    then have u: "unat (?C + d) = unat ?C + unat d" using sys_ok_bounds(1) [OF ok] by (subst unat_plus) simp_all
    let ?a = "(?C + d - (0 + d)) * 1000 div (?C + d)"
    have st: "alpha_loop xs i bzp ?C 0 2000 = alpha_loop xs i True (?C + d) (0 + d) (if 2000 < ?a then 2000 else ?a)"
      using True by (subst alpha_loop.simps) (simp only: d_def Let_def if_True if_False mult_2 one_add_one)
    have "unat (?C + d) \<le> unat (0 + d) + before (take (i + 1) xs) (unat (?C + d))"
      using before_own [OF ok, of "unat (?C + d)"] C u by simp
    moreover have "unat (0 + d) \<le> T_of (xs ! i)" using b by simp
    ultimately obtain al bzp' where r: "alpha_loop xs i True (?C + d) (0 + d) (if 2000 < ?a then 2000 else ?a) = Some (al, bzp')"
      "al \<le> (if 2000 < ?a then 2000 else ?a)"
      using alpha_loop_spec [OF ok, of "0 + d" "?C + d" True False "if 2000 < ?a then 2000 else ?a"] by blast
    show ?thesis using st r(1) order_trans [OF r(2) if_less_le] True by (simp only:) blast
  qed
qed

lemma good_alpha_meets:
  assumes ok: "sys_ok xs i" and a: "good_alpha xs i al" "al \<noteq> 2000"
    and ys: "i < length ys" "\<forall>j \<le> i. snd (ys ! j) = T_of (xs ! j) \<and> (unat al + 1) * fst (ys ! j) \<le> 1000 * C_of (xs ! j)"
  shows "meets_deadline ys i"
proof -
  let ?ys = "take (i + 1) ys" and ?xs = "take (i + 1) xs"
  from a obtain t where t: "0 < t" "t \<le> T_of (xs ! i)" "1000 * before ?xs t < (unat al + 1) * t"
    by (auto simp: good_alpha_def)
  have len: "length ?ys = i + 1" "length ?xs = i + 1" using ys(1) ok by (simp_all add: sys_ok_def)
  let ?f = "map (\<lambda>(C, T). (unat al + 1) * (cdiv t T * C)) ?ys" and ?g = "map (\<lambda>x. 1000 * (cdiv t (T_of x) * C_of x)) ?xs"
  have pw: "?f ! j \<le> ?g ! j" if j: "j \<le> i" for j
  proof -
    have "cdiv t (T_of (xs ! j)) * ((unat al + 1) * fst (ys ! j)) \<le> cdiv t (T_of (xs ! j)) * (1000 * C_of (xs ! j))"
      using ys(2) j by (intro mult_le_mono2) blast
    moreover have "?f ! j = cdiv t (T_of (xs ! j)) * ((unat al + 1) * fst (ys ! j))"
      using j ys by (simp add: case_prod_beta algebra_simps)
    moreover have "?g ! j = cdiv t (T_of (xs ! j)) * (1000 * C_of (xs ! j))"
      using j ok by (simp add: sys_ok_def)
    ultimately show ?thesis by (simp only:)
  qed
  have "(unat al + 1) * released ?ys t = sum_list ?f"
    unfolding released_def case_prod_beta by (rule sum_list_const_mult [symmetric])
  also have "\<dots> \<le> sum_list ?g"
  proof (rule sum_list_mono2)
    show "length ?f = length ?g" by (simp only: length_map len)
    show "j < length ?f \<longrightarrow> ?f ! j \<le> ?g ! j" for j
    proof
      assume "j < length ?f"
      then have "j \<le> i" unfolding length_map len by simp
      then show "?f ! j \<le> ?g ! j" by (rule pw)
    qed
  qed
  also have "\<dots> = 1000 * before ?xs t" by (simp add: before_def sum_list_const_mult)
  also note t(3)
  finally have "(unat al + 1) * released ?ys t < (unat al + 1) * t" .
  then have r: "released ?ys t \<le> t" unfolding mult_less_cancel1 by linarith
  have "\<forall>x \<in> set ?ys. 0 < snd x"
  proof
    fix x assume "x \<in> set ?ys"
    then obtain j where j: "j \<le> i" "x = ys ! j" using ys(1) by (auto simp: in_set_conv_nth less_Suc_eq_le)
    then have "xs ! j \<in> set ?xs" using len ok by (auto simp: in_set_conv_nth sys_ok_def intro!: exI [of _ j])
    then show "0 < snd x" using j ys(2) sys_ok_bounds(4) [OF ok] by auto
  qed
  then have "meets_deadline ?ys i"
    using t r ys by (intro enough_time_meets [of ?ys i t]) simp_all
  then show ?thesis using meets_deadline_prefix [OF ys(1)] by simp
qed

subsection \<open>Properties of the frequency\<close>



lemma sysclock_from_returns:
  assumes "\<forall>i \<in> set is. sys_ok xs i" "m \<le> 2000"
  shows "\<exists>m' s'. sysclock_from xs is bzp m s = Some (m', s') \<and> m \<le> m' \<and> m' \<le> 2000"
  using assms
proof (induction "is" arbitrary: bzp m s)
  case (Cons i "is")
  then obtain al bzp' where al: "alpha_loop xs i bzp (budget (xs ! i)) 0 2000 = Some (al, bzp')" "al \<le> 2000"
    using alpha_loop_task [of xs i bzp] by auto
  let ?m = "if m < al then al else m"
  have "?m \<le> 2000" "m \<le> ?m" using al(2) Cons.prems(2) by auto
  with Cons al(1) show ?case by (fastforce intro: order_trans)
qed simp

text \<open>
  C18. \<open>sysclock\<close> returns for every such task set, whatever state its flag \<open>in_bzp\<close> is left in
  between two tasks; the result is the highest frequency times a factor of at most 2000.
\<close>

theorem sysclock_returns:
  assumes "task_set_ok xs" "\<forall>x \<in> set xs. 1000 * T_of x < 2 ^ 32" "periodic_tasks_size s = int (length xs)"
  shows "\<exists>m s'. sysclock f xs s = Some (f * m, s') \<and> m \<le> 2000"
proof (cases "xs = []")
  case True
  then show ?thesis using assms(3) by (auto simp: sysclock_def intro!: exI [of _ 0])
next
  case False
  have "\<forall>i \<in> set [0..<length xs]. sys_ok xs i" using assms(1,2) by (auto intro!: task_set_sys_ok)
  from sysclock_from_returns [OF this, of 0 True s] obtain m s' where
    "sysclock_from xs [0..<length xs] True 0 s = Some (m, s')" "m \<le> 2000" by auto
  then show ?thesis using False assms(3) by (auto simp: sysclock_def)
qed

theorem sysclock_returns_witness:
  "\<exists>m s'. sysclock 1300 [ct_entry 1 4, ct_entry 2 8] (boot\<lparr>periodic_tasks_size := 2\<rparr>) = Some (1300 * m, s')"
  using sysclock_returns [OF demo_task_set, of "boot\<lparr>periodic_tasks_size := 2\<rparr>" 1300]
  by (auto simp: ct_entry_def T_of_def)


end
