(* ===== verification/PMClock.thy ===== *)
theory PMClock
  imports SysClock
begin

unbundle bit_operations_syntax

text \<open>
  The PM-Clock power scheme (\<open>get_max\<close>, \<open>inflated_freq\<close>, \<open>pmclock\<close>, \<open>apply_pmclock\<close>,
  \<open>set_pmclock_freq\<close> of \<open>kernel/sched.c\<close>): every task gets a frequency of its own, at least that
  of all less urgent tasks.
\<close>

subsection \<open>The frequencies\<close>

definition get_max :: "u32 list \<Rightarrow> nat \<Rightarrow> nat \<Rightarrow> u32" where
  "get_max pm_freq n pos =
     fold (\<lambda>i m. if m < pm_freq ! i then pm_freq ! i else m) [pos + 1..<n] (pm_freq ! pos)"

text \<open>
  \<open>((long)w / (long)period) + 1\<close>: the time is cut to 32 bits and divided as a signed number,
  and the sum is widened again with its sign.
\<close>

definition jobs :: "u64 \<Rightarrow> u32 \<Rightarrow> u64" where
  "jobs w per = scast (s_div (ucast w) per + 1 :: s32)"

text \<open>The work of the tasks that have their frequency (\<open>ib\<close>) and of those that have none yet (\<open>b\<close>).\<close>

definition pm_demand :: "task_ct_struct list \<Rightarrow> u32 list \<Rightarrow> nat \<Rightarrow> u32 \<Rightarrow> u64 \<Rightarrow> u64 \<times> u64" where
  "pm_demand list pm_freq n per w =
     fold (\<lambda>j (ib, b).
       if period (list ! j) \<le> per \<and> pm_freq ! j \<noteq> 0 then
         (ib + fst (div64_32 (ucast (budget (list ! j)) * SCALE_UP_FACTOR) (pm_freq ! j)) * jobs w (period (list ! j)), b)
       else if period (list ! j) \<le> per \<and> pm_freq ! j = 0 then
         (ib, b + ucast (budget (list ! j)) * jobs w (period (list ! j)))
       else (ib, b)) [0..<n] (0, 0)"

partial_function (option) pm_busy ::
    "task_ct_struct list \<Rightarrow> u32 list \<Rightarrow> nat \<Rightarrow> u32 \<Rightarrow> u64 \<Rightarrow> u64 \<Rightarrow> u64 \<Rightarrow> u64 \<Rightarrow> u64 \<Rightarrow> (u64 \<times> u64 \<times> u64) option" where
  "pm_busy list pm_freq n per S w delta ib b =
     (if w < ucast per \<and> 0 < delta then
        (let (ib, b) = pm_demand list pm_freq n per w;
             w_dash = ib + b + S
         in pm_busy list pm_freq n per S w_dash (w_dash - w) ib b)
      else Some (w, ib, b))"

definition pm_idle :: "task_ct_struct list \<Rightarrow> nat \<Rightarrow> u32 \<Rightarrow> u64 \<Rightarrow> u64" where
  "pm_idle list pos per w =
     fold (\<lambda>x I. let temp_min = ucast (period x * ceiling (ucast w) (period x)) - w in
                 if temp_min < I then temp_min else I) (take (pos + 1) list) (ucast per - w)"

partial_function (option) inflated_loop ::
    "task_ct_struct list \<Rightarrow> u32 list \<Rightarrow> nat \<Rightarrow> nat \<Rightarrow> u32 \<Rightarrow> bool \<Rightarrow> u64 \<Rightarrow> u64 \<Rightarrow> u32 \<Rightarrow> u64 \<Rightarrow> u64 \<Rightarrow> u32 option" where
  "inflated_loop list pm_freq n pos per in_bzp w S al ib b =
     (if w < ucast per then
        (if in_bzp then do {
           (w, ib, b) \<leftarrow> pm_busy list pm_freq n per S w (ucast per - w) ib b;
           inflated_loop list pm_freq n pos per False w S al ib b
         }
         else
           (let I = pm_idle list pos per w;
                S = S + I;
                w = w + I;
                del = w - ib;
                temp = fst (div64_32 (b * SCALE_UP_FACTOR) (ucast del))
            in inflated_loop list pm_freq n pos per True w S (if temp < ucast al then ucast temp else al) ib b))
      else Some al)"

definition inflated_freq :: "task_ct_struct \<Rightarrow> nat \<Rightarrow> u32 list \<Rightarrow> task_ct_struct list \<Rightarrow> nat \<Rightarrow> u32 option" where
  "inflated_freq cur pos pm_freq list n =
     inflated_loop list pm_freq n pos (period cur) True (ucast (budget cur)) 0 1000 0 0"

fun inflate :: "task_ct_struct list \<Rightarrow> u32 list \<Rightarrow> nat \<Rightarrow> nat list \<Rightarrow> u32 list \<Rightarrow> u32 list option" where
  "inflate list pm_freq n [] min_freq = Some min_freq"
| "inflate list pm_freq n (j # js) min_freq = do {
     f \<leftarrow> inflated_freq (list ! j) j pm_freq list n;
     inflate list pm_freq n js (min_freq[j := f])
   }"

fun pm_from :: "task_ct_struct list \<Rightarrow> nat \<Rightarrow> nat list \<Rightarrow> u32 list \<Rightarrow> u32 list \<Rightarrow> kst \<Rightarrow> kst option" where
  "pm_from list n [] min_freq pm_freq s = Some s"
| "pm_from list n (i # is) min_freq pm_freq s = do {
     let pm_freq = pm_freq[i := get_max min_freq n i];
     (min_freq, pm_freq) \<leftarrow>
       (if i \<noteq> 0 \<and> pm_freq ! i < pm_freq ! (i - 1) then do {
          let pm_freq = pm_freq[i := 0];
          min_freq \<leftarrow> inflate list pm_freq n [i..<n] min_freq;
          Some (min_freq, pm_freq)
        }
        else Some (min_freq, pm_freq));
     let pm_freq = pm_freq[i := get_max min_freq n i];
     let s = upd_task (ct_task (list ! i)) (\<lambda>p. p\<lparr>pmclock_freq := get_table_frequency (pm_freq ! i * 1000) s\<rparr>) s;
     pm_from list n is min_freq pm_freq s
   }"

definition pmclock :: "task_ct_struct list \<Rightarrow> kst \<Rightarrow> kst option" where
  "pmclock list s =
     (let n = nat (periodic_tasks_size s) in
      if length list < n then None
      else pm_from list n [0..<n] (map (\<lambda>x. alpha (tasks s (ct_task x))) (take n list)) (replicate n 0) s)"

subsection \<open>Applying them\<close>

definition apply_pmclock :: "u32 \<Rightarrow> kst \<Rightarrow> (int \<times> kst) option" where
  "apply_pmclock max_frequency s = do {
     ts \<leftarrow> periodic_tasks s;
     let s = fold (\<lambda>t s. apply_frequency (get_table_frequency (pmclock_freq (tasks s t)) s) max_frequency t s) ts s;
     let s = fold restart_period_timer ts s;
     Some (0, s)
   }"

text \<open>
  The reference to the policy is not given back. Reading the frequency back only serves the
  log.
\<close>

definition set_pmclock_freq :: "nat \<Rightarrow> u32 \<Rightarrow> kst \<Rightarrow> kst" where
  "set_pmclock_freq cpu frequency s =
     (let (pol, s) = cpufreq_cpu_get cpu s in
      if pol = None \<or> frequency = 0 then s else driver_target cpu frequency s)"

declare pm_busy.simps [code] inflated_loop.simps [code]

subsection \<open>Properties\<close>

lemma fold_max_word:
  fixes f :: "nat \<Rightarrow> u32"
  shows "(\<forall>j \<in> set js. f j \<le> fold (\<lambda>i m. if m < f i then f i else m) js m) \<and>
    m \<le> fold (\<lambda>i m. if m < f i then f i else m) js m \<and>
    (fold (\<lambda>i m. if m < f i then f i else m) js m = m \<or>
     (\<exists>j \<in> set js. fold (\<lambda>i m. if m < f i then f i else m) js m = f j))"
proof (induction js arbitrary: m)
  case (Cons j js)
  from Cons [of "if m < f j then f j else m"] show ?case by (auto split: if_splits)
qed simp

lemma get_max_spec:
  assumes "pos < n"
  shows "pos \<le> j \<Longrightarrow> j < n \<Longrightarrow> ms ! j \<le> get_max ms n pos" "\<exists>j. pos \<le> j \<and> j < n \<and> get_max ms n pos = ms ! j"
proof -
  note m = fold_max_word [where f = "(!) ms" and js = "[pos + 1..<n]" and m = "ms ! pos", folded get_max_def]
  show "ms ! j \<le> get_max ms n pos" if "pos \<le> j" "j < n"
    using m that by (cases "j = pos") auto
  show "\<exists>j. pos \<le> j \<and> j < n \<and> get_max ms n pos = ms ! j"
    using m assms by (metis Suc_eq_plus1 Suc_leD atLeastLessThan_iff atLeastLessThan_upt le_refl)
qed

lemma get_table_frequency_upd [simp]:
  "get_table_frequency f (upd_task t g s) = get_table_frequency f s"
  by (simp add: get_table_frequency_def)

lemma pm_from_uniform:
  assumes top: "\<And>i. i < n \<Longrightarrow> get_max ms n i = L" and xs: "distinct (map ct_task xs)" "length xs = n"
  shows "i \<le> n \<Longrightarrow> length pm = n \<Longrightarrow> (i \<noteq> 0 \<longrightarrow> pm ! (i - 1) = L) \<Longrightarrow>
    \<exists>s'. pm_from xs n [i..<n] ms pm s = Some s' \<and> freq_table s' = freq_table s \<and>
      (\<forall>j < n. pmclock_freq (tasks s' (ct_task (xs ! j))) =
         (if i \<le> j then get_table_frequency (L * 1000) s else pmclock_freq (tasks s (ct_task (xs ! j)))))"
proof (induction "n - i" arbitrary: i pm s)
  case 0
  then show ?case by auto
next
  case (Suc k)
  then have i: "i < n" by simp
  let ?s = "upd_task (ct_task (xs ! i)) (\<lambda>p. p\<lparr>pmclock_freq := get_table_frequency (L * 1000) s\<rparr>) s"
  have "\<exists>s'. pm_from xs n [Suc i..<n] ms (pm[i := L]) ?s = Some s' \<and> freq_table s' = freq_table ?s \<and>
      (\<forall>j < n. pmclock_freq (tasks s' (ct_task (xs ! j))) =
         (if Suc i \<le> j then get_table_frequency (L * 1000) ?s else pmclock_freq (tasks ?s (ct_task (xs ! j)))))"
    using Suc i by (intro Suc.hyps) auto
  then obtain s' where s': "pm_from xs n [Suc i..<n] ms (pm[i := L]) ?s = Some s'" "freq_table s' = freq_table s"
    "\<forall>j < n. pmclock_freq (tasks s' (ct_task (xs ! j))) =
         (if Suc i \<le> j then get_table_frequency (L * 1000) s else pmclock_freq (tasks ?s (ct_task (xs ! j))))" by auto
  have "pm_from xs n [i..<n] ms pm s = Some s'"
    using s'(1) i Suc.prems by (cases "i = 0") (simp_all add: upt_conv_Cons top Let_def)
  moreover have "ct_task (xs ! j) = ct_task (xs ! i) \<longleftrightarrow> j = i" if "j < n" for j
    using xs i that nth_eq_iff_index_eq [of "map ct_task xs" j i] by simp
  ultimately show ?case using s'(2,3) i by (intro exI [of _ s']) auto
qed

text \<open>
  C29. When no task needs a higher frequency than the last one in the list, \<open>pmclock\<close> returns and
  gives every task the same frequency, the one SysClock would run at: the table entry for the
  last task's factor. The factor is scaled by 1000 only, so this is the right frequency on a
  processor of 1 GHz, whatever the highest frequency is.
\<close>

theorem pmclock_uniform:
  assumes "periodic_tasks_size s = int (length xs)" "distinct (map ct_task xs)"
    "\<forall>x \<in> set xs. alpha (tasks s (ct_task x)) \<le> alpha (tasks s (ct_task (last xs)))"
  shows "\<exists>s'. pmclock xs s = Some s' \<and> (\<forall>x \<in> set xs. pmclock_freq (tasks s' (ct_task x)) =
     get_table_frequency (alpha (tasks s (ct_task (last xs))) * 1000) s)"
proof -
  let ?n = "length xs" and ?ms = "map (\<lambda>x. alpha (tasks s (ct_task x))) xs"
  let ?L = "alpha (tasks s (ct_task (last xs)))"
  have top: "get_max ?ms ?n i = ?L" if i: "i < ?n" for i
  proof (rule antisym)
    show "get_max ?ms ?n i \<le> ?L" using get_max_spec(2) [OF i, of ?ms] assms(3) by auto
    have "?ms ! (?n - 1) \<le> get_max ?ms ?n i" using i by (intro get_max_spec) simp_all
    moreover have "?ms ! (?n - 1) = ?L" using i last_conv_nth [of xs] by fastforce
    ultimately show "?L \<le> get_max ?ms ?n i" by simp
  qed
  from pm_from_uniform [of ?n ?ms ?L xs 0 "replicate ?n 0" s, OF top assms(2)] obtain s' where
    "pm_from xs ?n [0..<?n] ?ms (replicate ?n 0) s = Some s'"
    "\<forall>j < ?n. pmclock_freq (tasks s' (ct_task (xs ! j))) = get_table_frequency (?L * 1000) s" by auto
  then show ?thesis using assms(1) by (auto simp: pmclock_def in_set_conv_nth)
qed

theorem pmclock_uniform_witness:
  "\<exists>s'. pmclock [(ct_entry 1 4)\<lparr>ct_task := 5\<rparr>, (ct_entry 2 8)\<lparr>ct_task := 6\<rparr>] (boot\<lparr>periodic_tasks_size := 2\<rparr>) = Some s'"
  using pmclock_uniform [of "boot\<lparr>periodic_tasks_size := 2\<rparr>" "[(ct_entry 1 4)\<lparr>ct_task := 5\<rparr>, (ct_entry 2 8)\<lparr>ct_task := 6\<rparr>]"]
  by (auto simp: boot_def plain_task_def ct_entry_def)

text \<open>
  Every use of \<open>set_pmclock_freq\<close>, which \<open>__schedule\<close> runs at each switch to a task with a
  frequency, takes a reference to the policy of the processor and never gives it back.
\<close>

lemma set_pmclock_freq_leaks:
  assumes "cpufreq s cpu \<noteq> None"
  shows "policy_refs (set_pmclock_freq cpu f s) cpu = policy_refs s cpu + 1"
  using assms by (auto simp: set_pmclock_freq_def cpufreq_cpu_get_def driver_target_def Let_def split: option.splits)

end
