(* ===== verification/Accounting.thy ===== *)
theory Accounting
  imports Logging PMClock
begin

unbundle bit_operations_syntax

text \<open>
  Enforcing the budgets: the two timer callbacks and the additions to \<open>__schedule\<close>
  (\<open>kernel/sched.c\<close>), and \<open>__run_hrtimer\<close> (\<open>kernel/hrtimer.c\<close>), which runs the callbacks.

  The task that \<open>pick_next_task\<close> picks, whether a signal is pending for the task that leaves, and
  whether the call is a preemption are arguments of a scheduling pass. A pass takes no time: the
  clocks read the same throughout. The notification of workqueues about sleeping workers is
  left out.
\<close>

subsection \<open>The timer callbacks\<close>

text \<open>The loop of the budget callback changes \<open>curr\<close>, not the thread it iterates over.\<close>

definition budget_timer_callback :: "tid \<Rightarrow> kst \<Rightarrow> (hrtimer_restart \<times> kst) option" where
  "budget_timer_callback t s = do {
     s \<leftarrow> spin_lock t s;
     let s = each_thread t (\<lambda>temp s.
               if state (tasks s t) \<noteq> TASK_UNINTERRUPTIBLE
               then set_tsk_need_resched t (set_task_state t TASK_UNINTERRUPTIBLE s) else s) s;
     Some (HRTIMER_NORESTART, spin_unlock t s)
   }"

text \<open>\<open>res\<close> is the resolution of the clock base.\<close>

definition period_timer_callback :: "ktime \<Rightarrow> tid \<Rightarrow> kst \<Rightarrow> (hrtimer_restart \<times> kst) option" where
  "period_timer_callback res t s = do {
     s \<leftarrow> spin_lock t s;
     let s = upd_task t (\<lambda>p. p\<lparr>compute_time := mk_ts 0 0\<rparr>) s;
     (orun, timer) \<leftarrow> hrtimer_forward res (period_timer (tasks s t)) (mono_clock s)
                       (timespec_to_ktime (time_period (tasks s t)));
     let s = upd_task t (\<lambda>p. p\<lparr>period_timer := timer\<rparr>) s;
     let s = each_thread t (\<lambda>temp s. snd (wake_up_process temp s)) s;
     Some (HRTIMER_RESTART, spin_unlock t s)
   }"

datatype timer_kind = BudgetTimer | PeriodTimer

definition timer_of :: "timer_kind \<Rightarrow> task_struct \<Rightarrow> hrtimer" where
  "timer_of k p = (case k of BudgetTimer \<Rightarrow> budget_timer p | PeriodTimer \<Rightarrow> period_timer p)"

definition set_timer :: "timer_kind \<Rightarrow> tid \<Rightarrow> hrtimer \<Rightarrow> kst \<Rightarrow> kst" where
  "set_timer k t h =
     upd_task t (\<lambda>p. case k of BudgetTimer \<Rightarrow> p\<lparr>budget_timer := h\<rparr> | PeriodTimer \<Rightarrow> p\<lparr>period_timer := h\<rparr>)"

text \<open>The function a timer calls finds its task from the timer's place in the structure.\<close>

definition timer_function :: "ktime \<Rightarrow> timer_kind \<Rightarrow> tid \<Rightarrow> timer_fn \<Rightarrow> kst \<Rightarrow> (hrtimer_restart \<times> kst) option" where
  "timer_function res k t fn s =
     (if k = BudgetTimer \<and> fn = BudgetFn then budget_timer_callback t s
      else if k = PeriodTimer \<and> fn = PeriodFn then period_timer_callback res t s
      else None)"

text \<open>\<open>__run_hrtimer\<close>; \<open>BUG_ON(timer->state != HRTIMER_STATE_CALLBACK)\<close> is \<open>None\<close>.\<close>

definition run_hrtimer :: "ktime \<Rightarrow> timer_kind \<Rightarrow> tid \<Rightarrow> kst \<Rightarrow> kst option" where
  "run_hrtimer res k t s = do {
     let s = set_timer k t (remove_hrtimer_to (timer_of k (tasks s t)) HRTIMER_STATE_CALLBACK) s;
     (restart, s) \<leftarrow> timer_function res k t (h_fn (timer_of k (tasks s t))) s;
     s \<leftarrow> (if restart \<noteq> HRTIMER_NORESTART
           then if h_state (timer_of k (tasks s t)) \<noteq> HRTIMER_STATE_CALLBACK then None
                else Some (set_timer k t (enqueue_hrtimer (timer_of k (tasks s t))) s)
           else Some s);
     let h = timer_of k (tasks s t);
     Some (set_timer k t (h\<lparr>h_state := h_state h AND NOT HRTIMER_STATE_CALLBACK\<rparr>) s)
   }"

subsection \<open>The parts of a scheduling pass\<close>

definition deactivate_prev :: "bool \<Rightarrow> bool \<Rightarrow> tid \<Rightarrow> kst \<Rightarrow> kst" where
  "deactivate_prev signal_pending preempt_active prev s =
     (if state (tasks s prev) \<noteq> TASK_RUNNING \<and> \<not> preempt_active
      then if signal_pending then set_task_state prev TASK_RUNNING s
           else upd_task prev (\<lambda>p. p\<lparr>on_rq := False\<rparr>) s
      else s)"

definition account_prev :: "tid \<Rightarrow> kst \<Rightarrow> kst option" where
  "account_prev prev s =
     (if is_budget_set (tasks s prev) = 1 then do {
        let leader = group_leader (tasks s prev);
        s \<leftarrow> spin_lock leader s;
        let diff = timespec_sub (raw_clock s) (exec_time (tasks s leader));
        let s = upd_task leader (\<lambda>p. p\<lparr>budget_timer := snd (hrtimer_try_to_cancel (budget_timer p))\<rparr>) s;
        let s = upd_task leader (\<lambda>p. p\<lparr>compute_time := timespec_add (compute_time p) diff\<rparr>) s;
        Some (spin_unlock leader s)
      }
      else Some s)"

definition log_prev :: "tid \<Rightarrow> kst \<Rightarrow> kst option" where
  "log_prev prev s =
     (let leader = group_leader (tasks s prev) in
      if is_log_enabled (tasks s prev) = 1 \<and> buf_offset (tasks s leader) \<noteq> 0 then do {
        s \<leftarrow> spin_lock leader s;
        let diff = timespec_sub (raw_clock s) (exec_time (tasks s leader));
        (r, s) \<leftarrow> log_data_point leader diff s;
        Some (spin_unlock leader s)
      }
      else Some s)"

definition stamp_next :: "tid \<Rightarrow> kst \<Rightarrow> kst option" where
  "stamp_next next s =
     (if is_budget_set (tasks s next) = 1 \<or> is_log_enabled (tasks s next) = 1 then do {
        let leader = group_leader (tasks s next);
        s \<leftarrow> spin_lock leader s;
        let s = upd_task leader (\<lambda>p. p\<lparr>exec_time := raw_clock s\<rparr>) s;
        Some (spin_unlock leader s)
      }
      else Some s)"

text \<open>The loops that put a task to sleep change \<open>next\<close>, once for every thread of the leader.\<close>

definition force_sleep :: "tid \<Rightarrow> tid \<Rightarrow> kst \<Rightarrow> kst" where
  "force_sleep leader next s =
     each_thread leader (\<lambda>iterator s. set_tsk_need_resched next (set_task_state next TASK_UNINTERRUPTIBLE s)) s"

definition budget_next :: "tid \<Rightarrow> bool \<Rightarrow> kst \<Rightarrow> (bool \<times> kst) option" where
  "budget_next next flag s =
     (if is_budget_set (tasks s next) = 1 then do {
        let leader = group_leader (tasks s next);
        s \<leftarrow> spin_lock leader s;
        let p = tasks s leader;
        let (flag, s) =
          (if 0 <s timespec_compare (budget_time p) (compute_time p) then
             let temp = timespec_sub (budget_time p) (compute_time p);
                 time_remaining = timespec_to_ktime temp
             in if tv_sec temp = 0 \<and> tv_nsec temp \<le>s 10000 then (flag, force_sleep leader next s)
                else (flag \<or> power_scheme s = 2,
                      upd_task leader (\<lambda>p. p\<lparr>budget_timer :=
                        snd (hrtimer_start (mono_clock s) (budget_timer p) time_remaining)\<rparr>) s)
           else if state (tasks s next) \<noteq> TASK_UNINTERRUPTIBLE then (flag, force_sleep leader next s)
           else (flag, s));
        Some (flag, spin_unlock leader s)
      }
      else Some (flag, s))"

definition log_next :: "tid \<Rightarrow> kst \<Rightarrow> kst option" where
  "log_next next s =
     (if is_log_enabled (tasks s next) = 1 then do {
        let leader = group_leader (tasks s next);
        s \<leftarrow> spin_lock leader s;
        (r, s) \<leftarrow> log_data_point leader (exec_time (tasks s leader)) s;
        Some (spin_unlock leader s)
      }
      else Some s)"

definition context_switch :: "tid \<Rightarrow> tid \<Rightarrow> kst \<Rightarrow> kst" where
  "context_switch prev next s =
     (let s = upd_task next (\<lambda>p. p\<lparr>on_cpu := 1\<rparr>) s;
          s = s\<lparr>current := next\<rparr>
      in upd_task prev (\<lambda>p. p\<lparr>on_cpu := 0\<rparr>) s)"

subsection \<open>A scheduling pass\<close>

text \<open>From the label \<open>need_resched\<close> to the end of the switch, in the frame of the task that leaves.\<close>

definition sched_pass :: "bool \<Rightarrow> bool \<Rightarrow> tid \<Rightarrow> bool \<Rightarrow> kst \<Rightarrow> (bool \<times> kst) option" where
  "sched_pass signal_pending preempt_active next flag s =
     (let prev = current s;
          s = deactivate_prev signal_pending preempt_active prev s;
          s = clear_tsk_need_resched prev s
      in if prev \<noteq> next then do {
           s \<leftarrow> account_prev prev s;
           s \<leftarrow> log_prev prev s;
           s \<leftarrow> stamp_next next s;
           (flag, s) \<leftarrow> budget_next next flag s;
           s \<leftarrow> log_next next s;
           Some (flag, context_switch prev next s)
         }
         else Some (flag, s))"

text \<open>What \<open>__schedule\<close> does when it returns, with the \<open>flag\<close> and \<open>next\<close> of its frame.\<close>

definition sched_tail :: "bool \<Rightarrow> tid \<Rightarrow> kst \<Rightarrow> kst" where
  "sched_tail flag next s =
     (if flag \<and> is_freq_lock_taken s = 0 then
        let s = s\<lparr>is_freq_lock_taken := 1\<rparr>;
            s = (if state (tasks s next) \<noteq> TASK_UNINTERRUPTIBLE
                 then set_pmclock_freq 0 (pmclock_freq (tasks s next)) s else s)
        in s\<lparr>is_freq_lock_taken := 0\<rparr>
      else s)"

text \<open>
  The locals of \<open>__schedule\<close> live on the stack of the task that called it. A task that leaves
  keeps its \<open>flag\<close> and \<open>next\<close> there, and finds them again when it is switched back in. A task
  that never left has no frame yet.
\<close>

record sst =
  ks :: kst
  frames :: "tid \<Rightarrow> (bool \<times> tid) option"

definition schedule_pass :: "bool \<Rightarrow> bool \<Rightarrow> tid \<Rightarrow> bool \<Rightarrow> sst \<Rightarrow> sst option" where
  "schedule_pass signal_pending preempt_active next flag S =
     (let prev = current (ks S) in do {
        (flag, s) \<leftarrow> sched_pass signal_pending preempt_active next flag (ks S);
        Some (S\<lparr>ks := s, frames := (frames S)(prev \<mapsto> (flag, next))\<rparr>)
      })"

text \<open>
  The rest of the function, in the frame of the task that now runs: another pass with the
  picks \<open>nexts\<close> as long as it is to be rescheduled, and then the frequency.
\<close>

fun schedule_rest :: "(bool \<times> bool \<times> tid) list \<Rightarrow> sst \<Rightarrow> sst option" where
  "schedule_rest nexts S =
     (let t = current (ks S) in
      case frames S t of
        None \<Rightarrow> Some S
      | Some (flag, next) \<Rightarrow>
          if need_resched (tasks (ks S) t) then
            (case nexts of
               [] \<Rightarrow> Some S
             | (sig, pre, n) # rest \<Rightarrow> do { S \<leftarrow> schedule_pass sig pre n flag S; schedule_rest rest S })
          else Some (S\<lparr>ks := sched_tail flag next (ks S), frames := (frames S)(t := None)\<rparr>))"

declare schedule_rest.simps [simp del]

definition schedule :: "bool \<Rightarrow> bool \<Rightarrow> tid \<Rightarrow> (bool \<times> bool \<times> tid) list \<Rightarrow> sst \<Rightarrow> sst option" where
  "schedule signal_pending preempt_active next nexts S = do {
     S \<leftarrow> schedule_pass signal_pending preempt_active next False S;
     schedule_rest nexts S
   }"

subsection \<open>Locks and logs\<close>

text \<open>
  The locks held are exactly the spin locks of \<open>H\<close>, and every thread that is logged has a
  leader with a usable buffer.
\<close>

definition log_ok :: "kst \<Rightarrow> bool" where
  "log_ok s \<longleftrightarrow> (\<forall>t. is_log_enabled (tasks s t) = 1 \<longrightarrow> (\<exists>vs. log_inv s (group_leader (tasks s t)) vs))"

definition sane :: "tid set \<Rightarrow> kst \<Rightarrow> bool" where
  "sane H s \<longleftrightarrow> tasklist_lock s = Unlocked \<and> (\<forall>t. task_spin_lock (tasks s t) \<longleftrightarrow> t \<in> H) \<and> log_ok s"

text \<open>Changes that neither the locks nor the logs see.\<close>

definition quiet :: "(task_struct \<Rightarrow> task_struct) \<Rightarrow> bool" where
  "quiet f \<longleftrightarrow> (\<forall>p. task_spin_lock (f p) = task_spin_lock p \<and> is_log_enabled (f p) = is_log_enabled p \<and>
     group_leader (f p) = group_leader p \<and> buf (f p) = buf p \<and> buf_offset (f p) = buf_offset p \<and>
     no_data_points (f p) = no_data_points p)"

lemma log_inv_cong:
  "buf (tasks s' t) = buf (tasks s t) \<Longrightarrow> buf_offset (tasks s' t) = buf_offset (tasks s t) \<Longrightarrow>
   no_data_points (tasks s' t) = no_data_points (tasks s t) \<Longrightarrow> log_inv s' t vs \<longleftrightarrow> log_inv s t vs"
  by (simp add: log_inv_def)

lemma sane_quiet [simp]: "quiet f \<Longrightarrow> sane H (upd_task t f s) \<longleftrightarrow> sane H s"
proof -
  assume q: "quiet f"
  have "log_inv (upd_task t f s) u vs \<longleftrightarrow> log_inv s u vs" for u vs
    using q by (intro log_inv_cong) (simp_all add: quiet_def)
  then show ?thesis using q by (auto simp: sane_def log_ok_def quiet_def)
qed

lemma log_ok_state: "tasks s' = tasks s \<Longrightarrow> log_ok s' \<longleftrightarrow> log_ok s"
  by (simp add: log_ok_def log_inv_def)

lemma sane_current [simp]: "sane H (s\<lparr>current := t\<rparr>) \<longleftrightarrow> sane H s"
  using log_ok_state [of "s\<lparr>current := t\<rparr>" s] by (simp add: sane_def)

lemma log_inv_lock [simp]:
  "log_inv (upd_task t (\<lambda>p. p\<lparr>task_spin_lock := b\<rparr>) s) u = log_inv s u"
  by (simp add: log_inv_def fun_eq_iff)

lemma sane_lock: "sane H s \<Longrightarrow> t \<notin> H \<Longrightarrow> \<exists>s'. spin_lock t s = Some s' \<and> sane (insert t H) s'"
  by (auto simp: spin_lock_def sane_def log_ok_def)

lemma sane_unlock: "sane (insert t H) s \<Longrightarrow> t \<notin> H \<Longrightarrow> sane H (spin_unlock t s)"
  by (auto simp: spin_unlock_def sane_def log_ok_def)

lemma sane_log:
  assumes s: "sane H s" and inv: "log_inv s t vs"
  shows "\<exists>r s'. log_data_point t v s = Some (r, s') \<and> sane H s'"
proof (cases "length vs < 2 * unat (no_data_points (tasks s t))")
  case True
  from log_data_point_stores [OF inv True, of v] obtain p where
    p: "log_data_point t v s = Some (0, upd_task t (\<lambda>_. p) s)" "log_inv (upd_task t (\<lambda>_. p) s) t (vs @ [v])"
    "is_log_enabled p = is_log_enabled (tasks s t)" by blast
  have q: "task_spin_lock p = task_spin_lock (tasks s t)" "group_leader p = group_leader (tasks s t)"
  proof -
    have e: "log_data_point t v s = Some (0, s') \<Longrightarrow> task_spin_lock (tasks s' t) = task_spin_lock (tasks s t) \<and>
        group_leader (tasks s' t) = group_leader (tasks s t)" for s'
      by (auto simp: log_data_point_def log_store_def Let_def bind_eq_Some_conv split: if_splits logbuf.splits)
    show "task_spin_lock p = task_spin_lock (tasks s t)" "group_leader p = group_leader (tasks s t)"
      using e [OF p(1)] by simp_all
  qed
  have "log_inv (upd_task t (\<lambda>_. p) s) u ws \<longleftrightarrow> log_inv s u ws" if "u \<noteq> t" for u ws
    using that by (intro log_inv_cong) simp_all
  then have "log_ok (upd_task t (\<lambda>_. p) s)"
    using s p(2,3) q(2) by (auto simp: sane_def log_ok_def) metis+
  then show ?thesis using p(1) s q(1) by (auto simp: sane_def)
next
  case False
  then have full: "2 * no_data_points (tasks s t) \<le>s buf_offset (tasks s t)"
    using log_full_iff [OF inv] inv by (auto simp: log_inv_def)
  have l: "tasklist_lock s = Unlocked" using s by (simp add: sane_def)
  obtain u where r: "log_data_point t v s = Some (- 1,
      s\<lparr>tasks := (\<lambda>u. if u \<in> set (t # thread_group s t) then (tasks s u)\<lparr>is_log_enabled := 0\<rparr> else tasks s u),
        events := SendSig u SIGUSR1 # events s, tasklist_lock := Unlocked\<rparr>)"
    using full l by (simp add: log_data_point_def Let_def each_thread_flag send_sig_info_def write_unlock_def
        cong: if_cong)
  show ?thesis unfolding r using s by (auto simp: sane_def log_ok_def log_inv_def)
qed

lemma quiet_updates [simp]:
  "quiet (\<lambda>p. p\<lparr>state := a\<rparr>)" "quiet (\<lambda>p. p\<lparr>need_resched := b\<rparr>)" "quiet (\<lambda>p. p\<lparr>on_rq := b\<rparr>)" "quiet (\<lambda>p. p\<lparr>on_cpu := c\<rparr>)"
  "quiet (\<lambda>p. p\<lparr>budget_timer := h p\<rparr>)" "quiet (\<lambda>p. p\<lparr>period_timer := h p\<rparr>)" "quiet (\<lambda>p. p\<lparr>compute_time := g p\<rparr>)"
  "quiet (\<lambda>p. p\<lparr>exec_time := g p\<rparr>)" "quiet (\<lambda>p. p\<lparr>state := a, on_rq := b\<rparr>)" "quiet (\<lambda>p. p\<lparr>budget_time := g p\<rparr>)"
  by (simp_all add: quiet_def)

lemma sane_wake [simp]: "sane H (snd (wake_up_process t s)) \<longleftrightarrow> sane H s"
  by (simp add: wake_up_process_simps)

lemma sane_sleep [simp]:
  "sane H (set_task_state t v s) \<longleftrightarrow> sane H s" "sane H (set_tsk_need_resched t s) \<longleftrightarrow> sane H s"
  "sane H (clear_tsk_need_resched t s) \<longleftrightarrow> sane H s"
  by (simp_all add: set_task_state_def set_tsk_need_resched_def clear_tsk_need_resched_def)

lemma sane_force_sleep [simp]: "sane H (force_sleep l t s) \<longleftrightarrow> sane H s"
  unfolding force_sleep_def each_thread_def
proof -
  have "sane H (fold (\<lambda>i s. set_tsk_need_resched t (set_task_state t TASK_UNINTERRUPTIBLE s)) us s) \<longleftrightarrow> sane H s" for us
    by (induction us arbitrary: s) simp_all
  then show "sane H (fold (\<lambda>i s. set_tsk_need_resched t (set_task_state t TASK_UNINTERRUPTIBLE s)) (l # thread_group s l) s)
      \<longleftrightarrow> sane H s" .
qed

subsection \<open>A pass returns and leaves no lock behind\<close>

lemma spin_lock_log: "spin_lock t s = Some s' \<Longrightarrow> log_inv s' u vs \<longleftrightarrow> log_inv s u vs"
  by (auto simp: spin_lock_def split: if_splits)

lemma account_prev_sane:
  assumes "sane {} s"
  shows "\<exists>s'. account_prev prev s = Some s' \<and> sane {} s'"
proof -
  obtain s1 where "spin_lock (group_leader (tasks s prev)) s = Some s1" "sane {group_leader (tasks s prev)} s1"
    using sane_lock [OF assms] by blast
  then show ?thesis using assms sane_unlock [of "group_leader (tasks s prev)" "{}"]
    by (auto simp: account_prev_def Let_def)
qed

lemma stamp_next_sane:
  assumes "sane {} s"
  shows "\<exists>s'. stamp_next next s = Some s' \<and> sane {} s'"
proof -
  obtain s1 where "spin_lock (group_leader (tasks s next)) s = Some s1" "sane {group_leader (tasks s next)} s1"
    using sane_lock [OF assms] by blast
  then show ?thesis using assms sane_unlock [of "group_leader (tasks s next)" "{}"]
    by (auto simp: stamp_next_def Let_def)
qed

lemma budget_next_sane:
  assumes "sane {} s"
  shows "\<exists>flag' s'. budget_next next flag s = Some (flag', s') \<and> sane {} s'"
proof -
  obtain s1 where "spin_lock (group_leader (tasks s next)) s = Some s1" "sane {group_leader (tasks s next)} s1"
    using sane_lock [OF assms] by blast
  then show ?thesis using assms sane_unlock [of "group_leader (tasks s next)" "{}"]
    by (auto simp: budget_next_def Let_def)
qed

lemma log_part_sane:
  assumes "sane {} s" "is_log_enabled (tasks s t) = 1"
  shows "\<exists>s1 r s2. spin_lock (group_leader (tasks s t)) s = Some s1 \<and>
    log_data_point (group_leader (tasks s t)) (f s1) s1 = Some (r, s2) \<and> sane {} (spin_unlock (group_leader (tasks s t)) s2)"
proof -
  let ?l = "group_leader (tasks s t)"
  obtain s1 where s1: "spin_lock ?l s = Some s1" "sane {?l} s1" using sane_lock [OF assms(1)] by blast
  from assms obtain vs where "log_inv s ?l vs" by (auto simp: sane_def log_ok_def)
  then have "log_inv s1 ?l vs" using spin_lock_log [OF s1(1)] by simp
  from sane_log [OF s1(2) this, of "f s1"] s1(1) show ?thesis using sane_unlock [of ?l "{}"] by auto
qed

lemma log_prev_sane: "sane {} s \<Longrightarrow> \<exists>s'. log_prev prev s = Some s' \<and> sane {} s'"
  using log_part_sane [of s prev "\<lambda>s1. timespec_sub (raw_clock s1) (exec_time (tasks s1 (group_leader (tasks s prev))))"]
  by (auto simp: log_prev_def Let_def)

lemma log_next_sane: "sane {} s \<Longrightarrow> \<exists>s'. log_next next s = Some s' \<and> sane {} s'"
  using log_part_sane [of s "next" "\<lambda>s1. exec_time (tasks s1 (group_leader (tasks s next)))"]
  by (auto simp: log_next_def Let_def)

lemma sched_pass_sane:
  assumes "sane {} s"
  shows "\<exists>flag' s'. sched_pass sig pre next flag s = Some (flag', s') \<and> sane {} s'"
proof -
  define s0 where "s0 = clear_tsk_need_resched (current s) (deactivate_prev sig pre (current s) s)"
  have s0: "sane {} s0" using assms by (simp add: s0_def deactivate_prev_def)
  obtain s1 where s1: "account_prev (current s) s0 = Some s1" "sane {} s1" using account_prev_sane [OF s0] by blast
  obtain s2 where s2: "log_prev (current s) s1 = Some s2" "sane {} s2" using log_prev_sane [OF s1(2)] by blast
  obtain s3 where s3: "stamp_next next s2 = Some s3" "sane {} s3" using stamp_next_sane [OF s2(2)] by blast
  obtain f s4 where s4: "budget_next next flag s3 = Some (f, s4)" "sane {} s4" using budget_next_sane [OF s3(2)] by blast
  obtain s5 where s5: "log_next next s4 = Some s5" "sane {} s5" using log_next_sane [OF s4(2)] by blast
  have "sane {} (context_switch (current s) next s5)" using s5(2) by (simp add: context_switch_def Let_def)
  moreover have "sched_pass sig pre next flag s =
      (if current s \<noteq> next then Some (f, context_switch (current s) next s5) else Some (flag, s0))"
    using s1(1) s2(1) s3(1) s4(1) s5(1) unfolding sched_pass_def Let_def s0_def [symmetric] by simp
  ultimately show ?thesis using s0 by (cases "current s = next") auto
qed

subsection \<open>Arming a timer\<close>

lemma timespec_to_ktime_ns: "ts_normal ts \<Longrightarrow> sint (timespec_to_ktime ts) = ts_ns ts"
proof -
  assume "ts_normal ts"
  then have "sint (tv_nsec ts) = uint (tv_nsec ts)" using sint_nonneg_unat(2) [of "tv_nsec ts"] by (simp add: ts_normal_def)
  then have "(ucast (tv_nsec ts) :: s64) = scast (tv_nsec ts)" by (metis ucast_eq scast_eq)
  then have "timespec_to_ktime ts = timespec_to_ns ts"
    by (simp add: timespec_to_ktime_def ktime_set_def timespec_to_ns_def)
  then show ?thesis by (simp add: sint_timespec_to_ns)
qed

lemma hrtimer_start_armed:
  assumes "0 \<le> sint tim" "0 \<le> sint now" "sint tim + sint now < 2 ^ 63"
  shows "sint (h_expires (snd (hrtimer_start now h tim))) = sint now + sint tim"
    "hrtimer_is_queued (snd (hrtimer_start now h tim))"
proof -
  have a: "sint (ktime_add_safe tim now) = sint tim + sint now" using assms by (rule ktime_add_safe_exact)
  then have "sint (ktime_add_safe (ktime_add_safe tim now) 0) = sint tim + sint now"
    using assms by (subst ktime_add_safe_exact) simp_all
  then show "sint (h_expires (snd (hrtimer_start now h tim))) = sint now + sint tim"
    by (simp add: hrtimer_start_def Let_def case_prod_beta hrtimer_set_expires_range_ns_def enqueue_hrtimer_def)
  show "hrtimer_is_queued (snd (hrtimer_start now h tim))"
    by (simp add: hrtimer_start_def Let_def case_prod_beta)
qed

subsection \<open>What the parts of a pass change\<close>

text \<open>Two states that differ in locks, logs and the running task only.\<close>

definition same_rt :: "kst \<Rightarrow> kst \<Rightarrow> bool" where
  "same_rt s s' \<longleftrightarrow> (\<forall>u. \<exists>k b e off. tasks s' u =
      (tasks s u)\<lparr>task_spin_lock := k, buf := b, is_log_enabled := e, buf_offset := off\<rparr>) \<and>
    mono_clock s' = mono_clock s \<and> raw_clock s' = raw_clock s \<and> power_scheme s' = power_scheme s \<and>
    thread_group s' = thread_group s \<and> current s' = current s"

lemma same_rtD:
  assumes "same_rt s s'"
  shows "budget_time (tasks s' u) = budget_time (tasks s u)" "compute_time (tasks s' u) = compute_time (tasks s u)"
    "budget_timer (tasks s' u) = budget_timer (tasks s u)" "state (tasks s' u) = state (tasks s u)"
    "group_leader (tasks s' u) = group_leader (tasks s u)" "is_budget_set (tasks s' u) = is_budget_set (tasks s u)"
    "exec_time (tasks s' u) = exec_time (tasks s u)" "pmclock_freq (tasks s' u) = pmclock_freq (tasks s u)"
    "need_resched (tasks s' u) = need_resched (tasks s u)"
    "mono_clock s' = mono_clock s" "raw_clock s' = raw_clock s" "power_scheme s' = power_scheme s"
proof -
  from assms obtain k b e off where "tasks s' u =
      (tasks s u)\<lparr>task_spin_lock := k, buf := b, is_log_enabled := e, buf_offset := off\<rparr>"
    unfolding same_rt_def by blast
  then show "budget_time (tasks s' u) = budget_time (tasks s u)" "compute_time (tasks s' u) = compute_time (tasks s u)"
    "budget_timer (tasks s' u) = budget_timer (tasks s u)" "state (tasks s' u) = state (tasks s u)"
    "group_leader (tasks s' u) = group_leader (tasks s u)" "is_budget_set (tasks s' u) = is_budget_set (tasks s u)"
    "exec_time (tasks s' u) = exec_time (tasks s u)" "pmclock_freq (tasks s' u) = pmclock_freq (tasks s u)"
    "need_resched (tasks s' u) = need_resched (tasks s u)"
    by simp_all
qed (use assms in \<open>simp_all add: same_rt_def\<close>)

lemma same_rt_refl: "same_rt s s"
  unfolding same_rt_def
proof (intro conjI allI)
  fix u show "\<exists>k b e off. tasks s u = (tasks s u)\<lparr>task_spin_lock := k, buf := b, is_log_enabled := e, buf_offset := off\<rparr>"
    by (intro exI [of _ "task_spin_lock (tasks s u)"] exI [of _ "buf (tasks s u)"]
        exI [of _ "is_log_enabled (tasks s u)"] exI [of _ "buf_offset (tasks s u)"]) simp
qed simp_all

lemma same_rt_trans: "same_rt s s1 \<Longrightarrow> same_rt s1 s2 \<Longrightarrow> same_rt s s2"
  unfolding same_rt_def
proof (elim conjE, intro conjI allI)
  fix u
  assume a: "\<forall>u. \<exists>k b e off. tasks s1 u = (tasks s u)\<lparr>task_spin_lock := k, buf := b, is_log_enabled := e, buf_offset := off\<rparr>"
    "\<forall>u. \<exists>k b e off. tasks s2 u = (tasks s1 u)\<lparr>task_spin_lock := k, buf := b, is_log_enabled := e, buf_offset := off\<rparr>"
  from a(1) obtain k b e off where 1: "tasks s1 u = (tasks s u)\<lparr>task_spin_lock := k, buf := b, is_log_enabled := e, buf_offset := off\<rparr>"
    by blast
  from a(2) obtain k' b' e' off' where "tasks s2 u = (tasks s1 u)\<lparr>task_spin_lock := k', buf := b', is_log_enabled := e', buf_offset := off'\<rparr>"
    by blast
  with 1 show "\<exists>k b e off. tasks s2 u = (tasks s u)\<lparr>task_spin_lock := k, buf := b, is_log_enabled := e, buf_offset := off\<rparr>"
    by (intro exI [of _ k'] exI [of _ b'] exI [of _ e'] exI [of _ off']) simp
qed simp_all

lemma same_rt_upd:
  assumes "\<And>p. \<exists>k b e off. f p = p\<lparr>task_spin_lock := k, buf := b, is_log_enabled := e, buf_offset := off\<rparr>"
  shows "same_rt s (upd_task t f s)"
proof -
  have "\<exists>k b e off. tasks (upd_task t f s) u =
      (tasks s u)\<lparr>task_spin_lock := k, buf := b, is_log_enabled := e, buf_offset := off\<rparr>" for u
    using assms [of "tasks s t"] same_rt_refl [of s] unfolding same_rt_def by (cases "u = t") auto
  then show ?thesis by (simp add: same_rt_def)
qed

lemma same_rt_lock: "spin_lock t s = Some s' \<Longrightarrow> same_rt s s'" "same_rt s (spin_unlock t s)"
proof -
  have e: "\<exists>k b e off. p\<lparr>task_spin_lock := x\<rparr> = p\<lparr>task_spin_lock := k, buf := b, is_log_enabled := e, buf_offset := off\<rparr>" for p x
    by (intro exI [of _ x] exI [of _ "buf p"] exI [of _ "is_log_enabled p"] exI [of _ "buf_offset p"]) simp
  show "same_rt s (spin_unlock t s)" unfolding spin_unlock_def by (rule same_rt_upd) (rule e)
  show "spin_lock t s = Some s' \<Longrightarrow> same_rt s s'"
    using same_rt_upd [of "\<lambda>p. p\<lparr>task_spin_lock := True\<rparr>" s t, OF e] by (simp add: spin_lock_def split: if_splits)
qed

lemma same_rt_log: "log_data_point t v s = Some (r, s') \<Longrightarrow> same_rt s s'"
proof -
  assume l: "log_data_point t v s = Some (r, s')"
  show ?thesis
  proof (cases "2 * no_data_points (tasks s t) \<le>s buf_offset (tasks s t)")
    case False
    then obtain b off where s': "s' = upd_task t (\<lambda>p. p\<lparr>buf := b, buf_offset := off\<rparr>) s"
      using l by (auto simp: log_data_point_def log_store_def Let_def bind_eq_Some_conv split: if_splits logbuf.splits)
    have "\<exists>k b' e off'. p\<lparr>buf := b, buf_offset := off\<rparr> =
        p\<lparr>task_spin_lock := k, buf := b', is_log_enabled := e, buf_offset := off'\<rparr>" for p
      by (intro exI [of _ "task_spin_lock p"] exI [of _ b] exI [of _ "is_log_enabled p"] exI [of _ off]) simp
    then show ?thesis unfolding s' by (rule same_rt_upd)
  next
    case True
    note unf = log_data_point_def Let_def each_thread_flag send_sig_info_def write_lock_def write_unlock_def bind_eq_Some_conv
    have t: "tasks s' u = (if u \<in> set (t # thread_group s t) then (tasks s u)\<lparr>is_log_enabled := 0\<rparr> else tasks s u)" for u
      using True l by (auto simp: unf split: if_splits)
    have f: "mono_clock s' = mono_clock s" "raw_clock s' = raw_clock s" "power_scheme s' = power_scheme s"
        "thread_group s' = thread_group s" "current s' = current s"
      using True l by (auto simp: unf split: if_splits)
    have "\<exists>k b e off. tasks s' u = (tasks s u)\<lparr>task_spin_lock := k, buf := b, is_log_enabled := e, buf_offset := off\<rparr>" for u
      by (intro exI [of _ "task_spin_lock (tasks s u)"] exI [of _ "buf (tasks s u)"]
          exI [of _ "is_log_enabled (tasks s' u)"] exI [of _ "buf_offset (tasks s u)"]) (simp add: t)
    with f show ?thesis by (simp add: same_rt_def)
  qed
qed

lemma log_parts_same: "log_prev prev s = Some s' \<Longrightarrow> same_rt s s'" "log_next next s = Some s' \<Longrightarrow> same_rt s s'"
proof -
  have part: "same_rt s (spin_unlock l s2)" if "spin_lock l s = Some s1" "log_data_point l' v s1 = Some (r, s2)" for l l' v r s1 s2
    using same_rt_lock(1) [OF that(1)] same_rt_log [OF that(2)] same_rt_lock(2) [of s2 l] same_rt_trans by blast
  show "log_prev prev s = Some s' \<Longrightarrow> same_rt s s'"
    by (auto simp: log_prev_def Let_def bind_eq_Some_conv same_rt_refl intro: part split: if_splits)
  show "log_next next s = Some s' \<Longrightarrow> same_rt s s'"
    by (auto simp: log_next_def Let_def bind_eq_Some_conv same_rt_refl intro: part split: if_splits)
qed

lemma force_sleep_tasks:
  "tasks (force_sleep l t s) u =
     (if u = t then (tasks s t)\<lparr>state := TASK_UNINTERRUPTIBLE, need_resched := True\<rparr> else tasks s u)"
  "mono_clock (force_sleep l t s) = mono_clock s" "raw_clock (force_sleep l t s) = raw_clock s"
proof -
  let ?f = "\<lambda>i :: tid. \<lambda>s. set_tsk_need_resched t (set_task_state t TASK_UNINTERRUPTIBLE s)"
  have f: "tasks (fold ?f us s) u = (if u = t \<and> us \<noteq> [] then (tasks s t)\<lparr>state := TASK_UNINTERRUPTIBLE, need_resched := True\<rparr>
      else tasks s u) \<and> mono_clock (fold ?f us s) = mono_clock s \<and> raw_clock (fold ?f us s) = raw_clock s" for us
    by (induction us arbitrary: s) (auto simp: set_tsk_need_resched_def set_task_state_def)
  show "tasks (force_sleep l t s) u =
     (if u = t then (tasks s t)\<lparr>state := TASK_UNINTERRUPTIBLE, need_resched := True\<rparr> else tasks s u)"
    "mono_clock (force_sleep l t s) = mono_clock s" "raw_clock (force_sleep l t s) = raw_clock s"
    using f [of "l # thread_group s l"] unfolding force_sleep_def each_thread_def by simp_all
qed

text \<open>Entering a task with a budget: it is put to sleep, or its timer runs.\<close>

definition armed_for :: "ktime \<Rightarrow> task_struct \<Rightarrow> bool" where
  "armed_for now p \<longleftrightarrow> 0 <s timespec_compare (budget_time p) (compute_time p) \<and>
     (\<exists>h. budget_timer p = snd (hrtimer_start now h (timespec_to_ktime (timespec_sub (budget_time p) (compute_time p)))))"

lemma budget_next_spec:
  assumes b: "budget_next next flag s = Some (flag', s')" and set: "is_budget_set (tasks s next) = 1"
  shows "state (tasks s' next) = TASK_UNINTERRUPTIBLE \<or> armed_for (mono_clock s) (tasks s' (group_leader (tasks s next)))"
proof -
  let ?l = "group_leader (tasks s next)"
  from b set obtain s1 where l: "spin_lock ?l s = Some s1" by (auto simp: budget_next_def Let_def bind_eq_Some_conv)
  then have m: "mono_clock s1 = mono_clock s" using same_rtD(10) [OF same_rt_lock(1)] by blast
  let ?p = "tasks s1 ?l"
  consider (sleep) "s' = spin_unlock ?l (force_sleep ?l next s1)"
    | (asleep) "s' = spin_unlock ?l s1" "state (tasks s1 next) = TASK_UNINTERRUPTIBLE"
    | (arm) "0 <s timespec_compare (budget_time ?p) (compute_time ?p)"
       "s' = spin_unlock ?l (upd_task ?l (\<lambda>p. p\<lparr>budget_timer := snd (hrtimer_start (mono_clock s1) (budget_timer p)
          (timespec_to_ktime (timespec_sub (budget_time ?p) (compute_time ?p))))\<rparr>) s1)"
    using b set l by (auto simp: budget_next_def Let_def split: if_splits)
  then show ?thesis
  proof cases
    case arm
    then show ?thesis by (auto simp: armed_for_def spin_unlock_def m)
  qed (auto simp: spin_unlock_def force_sleep_tasks)
qed

lemma budget_next_frame:
  assumes "budget_next next flag s = Some (flag', s')"
  shows "compute_time (tasks s' u) = compute_time (tasks s u)" "mono_clock s' = mono_clock s"
    "is_budget_set (tasks s next) \<noteq> 1 \<or> u \<noteq> group_leader (tasks s next) \<Longrightarrow> budget_timer (tasks s' u) = budget_timer (tasks s u)"
    "group_leader (tasks s' u) = group_leader (tasks s u)"
  using assms
  by (auto simp: budget_next_def Let_def bind_eq_Some_conv spin_lock_def spin_unlock_def force_sleep_tasks split: if_splits)

lemma stamp_next_frame:
  assumes "stamp_next next s = Some s'"
  shows "compute_time (tasks s' u) = compute_time (tasks s u)" "mono_clock s' = mono_clock s"
    "budget_timer (tasks s' u) = budget_timer (tasks s u)" "is_budget_set (tasks s' u) = is_budget_set (tasks s u)"
    "group_leader (tasks s' u) = group_leader (tasks s u)"
  using assms by (auto simp: stamp_next_def Let_def bind_eq_Some_conv spin_lock_def spin_unlock_def split: if_splits)

lemma account_prev_spec:
  assumes "account_prev prev s = Some s'"
  shows "is_budget_set (tasks s prev) = 1 \<Longrightarrow> compute_time (tasks s' (group_leader (tasks s prev))) =
      timespec_add (compute_time (tasks s (group_leader (tasks s prev))))
        (timespec_sub (raw_clock s) (exec_time (tasks s (group_leader (tasks s prev)))))"
    "is_budget_set (tasks s prev) = 1 \<Longrightarrow> budget_timer (tasks s' (group_leader (tasks s prev))) =
      snd (hrtimer_try_to_cancel (budget_timer (tasks s (group_leader (tasks s prev)))))"
    "mono_clock s' = mono_clock s" "is_budget_set (tasks s' u) = is_budget_set (tasks s u)"
    "group_leader (tasks s' u) = group_leader (tasks s u)"
  using assms by (auto simp: account_prev_def Let_def bind_eq_Some_conv spin_lock_def spin_unlock_def split: if_splits)

text \<open>The stages of a pass that switches.\<close>

lemma sched_pass_stages:
  assumes "sched_pass sig pre next flag s = Some (flag', s')" "current s \<noteq> next"
  obtains s0 s1 s2 s3 s4 s5 where
    "s0 = clear_tsk_need_resched (current s) (deactivate_prev sig pre (current s) s)"
    "account_prev (current s) s0 = Some s1" "log_prev (current s) s1 = Some s2" "stamp_next next s2 = Some s3"
    "budget_next next flag s3 = Some (flag', s4)" "log_next next s4 = Some s5" "s' = context_switch (current s) next s5"
  using assms by (auto simp: sched_pass_def Let_def bind_eq_Some_conv)

lemma stage0_frame:
  assumes "s0 = clear_tsk_need_resched t (deactivate_prev sig pre t s)"
  shows "compute_time (tasks s0 u) = compute_time (tasks s u)" "exec_time (tasks s0 u) = exec_time (tasks s u)"
    "budget_timer (tasks s0 u) = budget_timer (tasks s u)" "is_budget_set (tasks s0 u) = is_budget_set (tasks s u)"
    "group_leader (tasks s0 u) = group_leader (tasks s u)" "raw_clock s0 = raw_clock s" "mono_clock s0 = mono_clock s"
  by (simp_all add: assms clear_tsk_need_resched_def deactivate_prev_def set_task_state_def)

lemma context_switch_frame:
  "compute_time (tasks (context_switch t u s) v) = compute_time (tasks s v)"
  "budget_timer (tasks (context_switch t u s) v) = budget_timer (tasks s v)"
  "budget_time (tasks (context_switch t u s) v) = budget_time (tasks s v)"
  "state (tasks (context_switch t u s) v) = state (tasks s v)" "current (context_switch t u s) = u"
  by (simp_all add: context_switch_def Let_def)

subsection \<open>Properties of a pass\<close>


lemma boot_sane: "sane {} boot"
  by (simp add: sane_def log_ok_def boot_def plain_task_def)



text \<open>
  C7. Execution time is accounted exactly: when a task with a budget leaves, the time since it was
  entered is added to the compute time of its leader, to the nanosecond, and the leader's budget
  timer no longer runs (unless the entering task belongs to the same leader, or the timer's
  callback is running on another processor).
\<close>

theorem sched_pass_accounts:
  assumes pass: "sched_pass sig pre next flag s = Some (flag', s')" and sw: "current s \<noteq> next"
    and set: "is_budget_set (tasks s (current s)) = 1" and l: "l = group_leader (tasks s (current s))"
    and valid: "timespec_valid (raw_clock s)" "timespec_valid (exec_time (tasks s l))" "timespec_valid (compute_time (tasks s l))"
      "ts_ns (exec_time (tasks s l)) \<le> ts_ns (raw_clock s)"
      "ts_ns (compute_time (tasks s l)) + ts_ns (raw_clock s) < 2147483646 * NSEC_PER_SEC"
  shows "ts_ns (compute_time (tasks s' l)) =
       ts_ns (compute_time (tasks s l)) + (ts_ns (raw_clock s) - ts_ns (exec_time (tasks s l))) \<and>
     (l \<noteq> group_leader (tasks s next) \<longrightarrow> hrtimer_callback_running (budget_timer (tasks s l)) \<or>
        \<not> hrtimer_is_queued (budget_timer (tasks s' l)))"
proof -
  from sched_pass_stages [OF pass sw] obtain s0 s1 s2 s3 s4 s5 where st:
    "s0 = clear_tsk_need_resched (current s) (deactivate_prev sig pre (current s) s)"
    "account_prev (current s) s0 = Some s1" "log_prev (current s) s1 = Some s2" "stamp_next next s2 = Some s3"
    "budget_next next flag s3 = Some (flag', s4)" "log_next next s4 = Some s5" "s' = context_switch (current s) next s5" .
  note f = stage0_frame [OF st(1)] same_rtD [OF log_parts_same(1) [OF st(3)]] account_prev_spec(3-) [OF st(2)]
    stamp_next_frame [OF st(4)] same_rtD [OF log_parts_same(2) [OF st(6)]] budget_next_frame(1) [OF st(5)]
  let ?d = "timespec_sub (raw_clock s) (exec_time (tasks s l))"
  have c: "compute_time (tasks s' l) = timespec_add (compute_time (tasks s l)) ?d"
    using account_prev_spec(1) [OF st(2)] set l by (simp add: st(7) context_switch_frame f)
  have d: "ts_ns ?d = ts_ns (raw_clock s) - ts_ns (exec_time (tasks s l))" "ts_normal ?d"
    using timespec_sub_exact [OF valid(1,2)] by simp_all
  have "timespec_valid ?d \<and> sint (tv_sec (compute_time (tasks s l))) + sint (tv_sec ?d) + 1 < 2147483648"
  proof -
    have r: "0 \<le> ts_ns (exec_time (tasks s l))" "ts_normal (compute_time (tasks s l))"
      using valid(2,3) by (simp_all add: timespec_valid_normal ts_normal_def ts_ns_def)
    have "ts_ns ?d div NSEC_PER_SEC = sint (tv_sec ?d)" "ts_ns (compute_time (tasks s l)) div NSEC_PER_SEC = sint (tv_sec (compute_time (tasks s l)))"
      using ts_ns_split(1) d(2) r(2) by blast+
    then show ?thesis using d valid(3-) r by (simp add: timespec_valid_normal) linarith
  qed
  then have "ts_ns (compute_time (tasks s' l)) = ts_ns (compute_time (tasks s l)) + ts_ns ?d"
    unfolding c using valid(3) by (intro timespec_add_exact) auto
  moreover have "budget_timer (tasks s' l) = snd (hrtimer_try_to_cancel (budget_timer (tasks s l)))"
    if "l \<noteq> group_leader (tasks s next)"
    using account_prev_spec(2) [OF st(2)] budget_next_frame(3) [OF st(5), of l] set l that
    by (simp add: st(7) context_switch_frame f)
  ultimately show ?thesis by (auto simp: d hrtimer_try_to_cancel_def)
qed
definition budgeted :: kst where
  "budgeted = upd_task 5 (\<lambda>p. p\<lparr>is_budget_set := 1, budget_time := mk_ts 0 500000000, compute_time := mk_ts 0 100000000,
     time_period := mk_ts 1 0, period_timer := (hrtimer_init zero_timer)\<lparr>h_fn := PeriodFn, h_state := 1\<rparr>,
     budget_timer := (hrtimer_init zero_timer)\<lparr>h_fn := BudgetFn\<rparr>\<rparr>) boot"

lemma budgeted_enter:
  "map_option (\<lambda>(f, s). (budget_time (tasks s 5), compute_time (tasks s 5))) (sched_pass False False 5 False budgeted)
     = Some (mk_ts 0 500000000, mk_ts 0 100000000)"
  by code_simp


theorem sched_pass_accounts_witness:
  "\<exists>f s'. sched_pass False False 1 False (budgeted\<lparr>current := 5, raw_clock := mk_ts 0 50000\<rparr>) = Some (f, s') \<and>
     ts_ns (compute_time (tasks s' 5)) = 100050000"
proof -
  let ?s = "budgeted\<lparr>current := 5, raw_clock := mk_ts 0 50000\<rparr>"
  have "sched_pass False False 1 False ?s \<noteq> None" by code_simp
  then obtain f s' where s': "sched_pass False False 1 False ?s = Some (f, s')" by auto
  have v: "timespec_valid (mk_ts 0 50000)" "timespec_valid (mk_ts 0 0)" "timespec_valid (mk_ts 0 100000000)" by code_simp+
  have n: "ts_ns (mk_ts 0 50000) = 50000" "ts_ns (mk_ts 0 0) = 0" "ts_ns (mk_ts 0 100000000) = 100000000"
    by (simp_all add: ts_ns_def mk_ts_def)
  have t: "is_budget_set (tasks ?s 5) = 1" "group_leader (tasks ?s 5) = 5" "exec_time (tasks ?s 5) = mk_ts 0 0"
    "compute_time (tasks ?s 5) = mk_ts 0 100000000" by (simp_all add: budgeted_def boot_def plain_task_def)
  have "ts_ns (compute_time (tasks s' 5)) = 100050000"
    using sched_pass_accounts [OF s', of 5] v n t by simp
  with s' show ?thesis by blast
qed

subsection \<open>Properties of the timers\<close>

lemma fold_wake:
  "tasks (fold (\<lambda>u s. snd (wake_up_process u s)) us s) t =
     (if t \<in> set us \<and> state (tasks s t) AND TASK_ALL \<noteq> 0
      then (tasks s t)\<lparr>state := TASK_RUNNING, on_rq := True\<rparr> else tasks s t)"
  "mono_clock (fold (\<lambda>u s. snd (wake_up_process u s)) us s) = mono_clock s"
  by (induction us arbitrary: s) (auto simp: wake_up_process_simps)

text \<open>
  C6. The end of a period: when the period timer of a task fires, its used time is set back to zero,
  every thread of the process that slept is runnable again, and the timer is queued once more,
  with an expiry in the future that lies a whole number of periods after the old one, and no
  longer marked as running. The kernel's \<open>BUG_ON\<close> in \<open>__run_hrtimer\<close> cannot fire.
\<close>

theorem period_timer_replenishes:
  fixes s :: kst and t :: tid
  defines "h \<equiv> period_timer (tasks s t)" and "iv \<equiv> timespec_to_ktime (time_period (tasks s t))"
  assumes lock: "\<not> task_spin_lock (tasks s t)" and fn: "h_fn h = PeriodFn"
    and e: "0 \<le> sint (h_expires h)" and n: "0 \<le> sint (mono_clock s)" "sint (mono_clock s) < 2 ^ 61"
    and i: "0 < sint iv" "sint iv < 2 ^ 61" and res: "\<not> iv <s res"
  shows "\<exists>s' k. run_hrtimer res PeriodTimer t s = Some s' \<and> ts_ns (compute_time (tasks s' t)) = 0 \<and>
     \<not> task_spin_lock (tasks s' t) \<and>
     (\<forall>u \<in> set (t # thread_group s t). state (tasks s' u) AND TASK_ALL = 0) \<and>
     hrtimer_is_queued (period_timer (tasks s' t)) \<and> \<not> hrtimer_callback_running (period_timer (tasks s' t)) \<and>
     sint (mono_clock s) < sint (h_expires (period_timer (tasks s' t))) \<and>
     sint (h_expires (period_timer (tasks s' t))) = sint (h_expires h) + sint iv * int k"
proof -
  let ?h = "remove_hrtimer_to h HRTIMER_STATE_CALLBACK"
  have e': "0 \<le> sint (h_expires ?h)" using e by (simp add: remove_hrtimer_to_def)
  from hrtimer_forward_grid [OF e' n i res] obtain orun h' where fw: "hrtimer_forward res ?h (mono_clock s) iv = Some (orun, h')"
    "sint (mono_clock s) < sint (h_expires h')" "sint (h_expires h') = sint (h_expires h) + sint iv * int (unat orun)"
    by (auto simp: remove_hrtimer_to_def)
  have st: "h_state h' = HRTIMER_STATE_CALLBACK"
    using fw(1) by (auto simp: hrtimer_forward_def remove_hrtimer_to_def Let_def bind_eq_Some_conv hrtimer_add_expires_def
        hrtimer_add_expires_ns_def split: if_splits)
  define s1 where "s1 = upd_task t (\<lambda>p. p\<lparr>task_spin_lock := True, compute_time := mk_ts 0 0, period_timer := h'\<rparr>) s"
  define s2 where "s2 = spin_unlock t (fold (\<lambda>u s. snd (wake_up_process u s)) (t # thread_group s t) s1)"
  have cb: "period_timer_callback res t (set_timer PeriodTimer t ?h s) = Some (HRTIMER_RESTART, s2)"
  proof -
    have "upd_task t (\<lambda>p. p\<lparr>period_timer := h'\<rparr>) (upd_task t (\<lambda>p. p\<lparr>compute_time := mk_ts 0 0\<rparr>)
        (upd_task t (\<lambda>p. p\<lparr>task_spin_lock := True\<rparr>) (upd_task t (\<lambda>p. p\<lparr>period_timer := ?h\<rparr>) s))) = s1"
      by (simp add: s1_def upd_task_def)
    moreover have "thread_group s1 = thread_group s" by (simp add: s1_def)
    ultimately show ?thesis using lock fw(1) unfolding s2_def period_timer_callback_def set_timer_def each_thread_def
      by (simp add: spin_lock_def iv_def)
  qed
  have t2: "period_timer (tasks s2 t) = h'" "compute_time (tasks s2 t) = mk_ts 0 0" "\<not> task_spin_lock (tasks s2 t)"
    unfolding s2_def spin_unlock_def tasks_upd_task fold_wake(1) by (simp_all add: s1_def)
  have wake: "state (tasks s2 u) AND TASK_ALL = 0" if "u \<in> set (t # thread_group s t)" for u
    using that unfolding s2_def spin_unlock_def tasks_upd_task fold_wake(1) by (auto simp: s1_def)
  let ?h2 = "enqueue_hrtimer h'"
  let ?s = "set_timer PeriodTimer t (?h2\<lparr>h_state := h_state ?h2 AND NOT HRTIMER_STATE_CALLBACK\<rparr>) (set_timer PeriodTimer t ?h2 s2)"
  have "run_hrtimer res PeriodTimer t s = Some ?s"
  proof -
    have "timer_of PeriodTimer (tasks (set_timer PeriodTimer t ?h s) t) = ?h" "h_fn ?h = PeriodFn"
      using fn by (simp_all add: timer_of_def set_timer_def remove_hrtimer_to_def)
    then show ?thesis using cb st t2(1)
      by (simp add: run_hrtimer_def timer_function_def timer_of_def h_def [symmetric])
        (simp add: set_timer_def timer_of_def Let_def)
  qed
  moreover have "h_state ?h2 AND NOT HRTIMER_STATE_CALLBACK = 1" by (simp add: enqueue_hrtimer_def st)
  ultimately show ?thesis using fw(2,3) t2 wake
    by (intro exI [of _ ?s] exI [of _ "unat orun"])
      (simp add: set_timer_def mk_ts_def ts_ns_def enqueue_hrtimer_def hrtimer_is_queued_def hrtimer_callback_running_def)
qed

theorem period_timer_replenishes_witness:
  "\<exists>s'. run_hrtimer 1 PeriodTimer 5 budgeted = Some s' \<and> ts_ns (compute_time (tasks s' 5)) = 0 \<and>
     hrtimer_is_queued (period_timer (tasks s' 5))"
proof -
  have "period_timer (tasks budgeted 5) = (hrtimer_init zero_timer)\<lparr>h_fn := PeriodFn, h_state := 1\<rparr>"
    "time_period (tasks budgeted 5) = mk_ts 1 0" "mono_clock budgeted = 0" "\<not> task_spin_lock (tasks budgeted 5)"
    by (simp_all add: budgeted_def boot_def plain_task_def)
  moreover have iv: "sint (timespec_to_ktime (mk_ts 1 0)) = 1000000000"
    by (subst timespec_to_ktime_ns) (simp_all add: ts_normal_def mk_ts_def ts_ns_def)
  ultimately show ?thesis
    using period_timer_replenishes [of budgeted 5 1] by (auto simp: hrtimer_init_def word_sless_alt)
qed

lemma fold_const_idem:
  "us \<noteq> [] \<Longrightarrow> f (f s) = f s \<Longrightarrow> fold (\<lambda>_. f) us s = f s"
proof (induction us arbitrary: s)
  case (Cons u us)
  then show ?case by (cases us) simp_all
qed simp

text \<open>
  C24. The end of a budget: when the budget timer fires, the task it belongs to goes to sleep and is
  marked for rescheduling, and the timer is not restarted. Nothing happens to the other threads
  of the process, although the callback walks over them: they keep running past the budget.
\<close>

theorem budget_timer_stops_leader:
  assumes "\<not> task_spin_lock (tasks s t)" "h_fn (budget_timer (tasks s t)) = BudgetFn"
  shows "\<exists>s'. run_hrtimer res BudgetTimer t s = Some s' \<and> state (tasks s' t) = TASK_UNINTERRUPTIBLE \<and>
     (state (tasks s t) \<noteq> TASK_UNINTERRUPTIBLE \<longrightarrow> need_resched (tasks s' t)) \<and>
     \<not> hrtimer_is_queued (budget_timer (tasks s' t)) \<and> (\<forall>u. u \<noteq> t \<longrightarrow> tasks s' u = tasks s u)"
proof -
  let ?h = "remove_hrtimer_to (budget_timer (tasks s t)) HRTIMER_STATE_CALLBACK"
  let ?f = "\<lambda>s. if state (tasks s t) \<noteq> TASK_UNINTERRUPTIBLE
    then set_tsk_need_resched t (set_task_state t TASK_UNINTERRUPTIBLE s) else s"
  define s1 where "s1 = upd_task t (\<lambda>p. p\<lparr>task_spin_lock := True\<rparr>) (set_timer BudgetTimer t ?h s)"
  have "fold (\<lambda>_. ?f) (t # thread_group s1 t) s1 = ?f s1"
    by (rule fold_const_idem) (simp_all add: set_tsk_need_resched_def set_task_state_def)
  then have cb: "budget_timer_callback t (set_timer BudgetTimer t ?h s) = Some (HRTIMER_NORESTART, spin_unlock t (?f s1))"
    using assms(1) unfolding budget_timer_callback_def each_thread_def
    by (simp add: spin_lock_def s1_def set_timer_def)
  have "timer_of BudgetTimer (tasks (set_timer BudgetTimer t ?h s) t) = ?h" "h_fn ?h = BudgetFn"
    using assms(2) by (simp_all add: timer_of_def set_timer_def remove_hrtimer_to_def)
  then have r: "run_hrtimer res BudgetTimer t s = Some (set_timer BudgetTimer t
      ((budget_timer (tasks (spin_unlock t (?f s1)) t))\<lparr>h_state := h_state (budget_timer (tasks (spin_unlock t (?f s1)) t)) AND NOT HRTIMER_STATE_CALLBACK\<rparr>)
      (spin_unlock t (?f s1)))"
    using cb by (simp add: run_hrtimer_def timer_function_def timer_of_def Let_def)
  have bt: "budget_timer (tasks (spin_unlock t (?f s1)) t) = ?h"
    by (simp add: spin_unlock_def s1_def set_timer_def set_tsk_need_resched_def set_task_state_def)
  show ?thesis unfolding r bt
    by (rule exI, rule conjI, rule refl)
      (simp add: set_timer_def remove_hrtimer_to_def hrtimer_is_queued_def spin_unlock_def s1_def set_tsk_need_resched_def set_task_state_def)
qed

theorem budget_timer_stops_leader_witness:
  "\<exists>s'. run_hrtimer 1 BudgetTimer 5 budgeted = Some s' \<and> state (tasks s' 5) = TASK_UNINTERRUPTIBLE"
  using budget_timer_stops_leader [of budgeted 5 1] by (auto simp: budgeted_def boot_def plain_task_def)

subsection \<open>The frequency after a switch\<close>


definition two_budgets :: sst where
  "two_budgets = \<lparr>ks = (upd_task 6 (\<lambda>_. (tasks budgeted 5)\<lparr>pid := 6, group_leader := 6, pmclock_freq := 640000\<rparr>)
      (upd_task 5 (\<lambda>p. p\<lparr>pmclock_freq := 1300000\<rparr>) budgeted))\<lparr>power_scheme := 2, current := 5\<rparr>, frames = (\<lambda>_. None)\<rparr>"

lemma two_budgets_back:
  "do { S \<leftarrow> schedule_pass False True 6 False two_budgets; S' \<leftarrow> schedule_pass False True 5 False S;
     Some (frames S' 5 = Some (True, 6) \<and> current (ks S') = 5 \<and> \<not> need_resched (tasks (ks S') 5) \<and> is_freq_lock_taken (ks S') = 0 \<and>
       state (tasks (ks S') 6) \<noteq> TASK_UNINTERRUPTIBLE \<and> cpufreq (ks S') 0 \<noteq> None \<and> pmclock_freq (tasks (ks S') 6) = 640000) } = Some True"
  by code_simp


end
