(* ===== verification/Isolation.thy ===== *)
theory Isolation
  imports Accounting
begin

unbundle bit_operations_syntax

text \<open>
  The purpose of the budgets: over any sequence of scheduling passes, timer interrupts and wake-ups on
  a processor (\<open>act\<close>, \<open>run\<close>, built from \<open>sched_pass\<close> and \<open>run_hrtimer\<close> of \<open>Accounting\<close>), a process gets no
  more processor time than its budget in every period. The invariant \<open>in_budget\<close> ties the charged
  time, the time stamp of the last entry and the expiry of the budget timer together; each action
  keeps it.
\<close>

subsection \<open>Runs of one processor\<close>

text \<open>
  What happens on a processor: the clocks move on, \<open>__schedule\<close> makes a pass, a timer of a task fires,
  a task is woken.
\<close>

datatype action =
    Tick timespec ktime
  | Switch bool bool bool tid
  | Fires timer_kind tid
  | Wake tid

fun act :: "ktime \<Rightarrow> action \<Rightarrow> kst \<Rightarrow> kst option" where
  "act res (Tick raw now) s = Some (s\<lparr>raw_clock := raw, mono_clock := now\<rparr>)"
| "act res (Switch sig pre flag nx) s = map_option snd (sched_pass sig pre nx flag s)"
| "act res (Fires k u) s = run_hrtimer res k u s"
| "act res (Wake u) s = Some (snd (wake_up_process u s))"

definition run :: "ktime \<Rightarrow> action list \<Rightarrow> kst \<Rightarrow> kst option" where
  "run res = foldo (act res)"

text \<open>The time that passes while a thread of \<open>l\<close> is on the processor, and the number of its periods that end.\<close>

fun tick_of :: "tid \<Rightarrow> action \<Rightarrow> kst \<Rightarrow> int" where
  "tick_of l (Tick raw now) s = (if group_leader (tasks s (current s)) = l then sint now - sint (mono_clock s) else 0)"
| "tick_of l a s = 0"

fun cpu_time :: "tid \<Rightarrow> ktime \<Rightarrow> action list \<Rightarrow> kst \<Rightarrow> int" where
  "cpu_time l res [] s = 0"
| "cpu_time l res (a # as) s = tick_of l a s + (case act res a s of None \<Rightarrow> 0 | Some s' \<Rightarrow> cpu_time l res as s')"

definition periods :: "tid \<Rightarrow> action list \<Rightarrow> nat" where
  "periods l as = length (filter (\<lambda>a. a = Fires PeriodTimer l) as)"

text \<open>
  What the process has used of its budget: the time that is charged and the time since it was
  entered, which is charged when it leaves.
\<close>

definition used :: "tid \<Rightarrow> kst \<Rightarrow> int" where
  "used l s = ts_ns (compute_time (tasks s l)) +
     (if current s = l then ts_ns (raw_clock s) - ts_ns (exec_time (tasks s l)) else 0)"

text \<open>
  A processor without latencies: both clocks run at the same rate, a timer is not missed, and a
  process that is to sleep leaves before time passes, before it is woken and before its period ends.
  As in the kernel, a signal does not wake an uninterruptible sleeper.
\<close>

fun timely :: "tid \<Rightarrow> action \<Rightarrow> kst \<Rightarrow> bool" where
  "timely l (Tick raw now) s \<longleftrightarrow>
     timespec_valid raw \<and> sint now < 2 ^ 61 \<and> sint (mono_clock s) \<le> sint now \<and>
     ts_ns raw - ts_ns (raw_clock s) = sint now - sint (mono_clock s) \<and>
     (current s = l \<longrightarrow> now = mono_clock s \<or>
        state (tasks s l) \<noteq> TASK_UNINTERRUPTIBLE \<and> sint now \<le> sint (h_expires (budget_timer (tasks s l))))"
| "timely l (Switch sig pre flag nx) s \<longleftrightarrow> (sig \<and> current s = l \<longrightarrow> state (tasks s l) \<noteq> TASK_UNINTERRUPTIBLE)"
| "timely l (Fires k u) s \<longleftrightarrow> (k = PeriodTimer \<and> u = l \<and> current s = l \<longrightarrow> state (tasks s l) \<noteq> TASK_UNINTERRUPTIBLE)"
| "timely l (Wake u) s \<longleftrightarrow> \<not> (u = l \<and> current s = l)"

fun timely_run :: "tid \<Rightarrow> ktime \<Rightarrow> action list \<Rightarrow> kst \<Rightarrow> bool" where
  "timely_run l res [] s \<longleftrightarrow> True"
| "timely_run l res (a # as) s \<longleftrightarrow>
     timely l a s \<and> (case act res a s of None \<Rightarrow> True | Some s' \<Rightarrow> timely_run l res as s')"

subsection \<open>The invariant\<close>

definition single_threaded :: "tid \<Rightarrow> kst \<Rightarrow> bool" where
  "single_threaded l s \<longleftrightarrow> (\<forall>u. group_leader (tasks s u) = l \<longleftrightarrow> u = l) \<and> (\<forall>u. l \<notin> set (thread_group s u))"

definition stopped_or_armed :: "tid \<Rightarrow> kst \<Rightarrow> bool" where
  "stopped_or_armed l s \<longleftrightarrow> state (tasks s l) = TASK_UNINTERRUPTIBLE \<or>
     hrtimer_is_queued (budget_timer (tasks s l)) \<and>
     sint (h_expires (budget_timer (tasks s l))) - sint (mono_clock s) \<le> ts_ns (budget_time (tasks s l)) - used l s"

definition in_budget :: "tid \<Rightarrow> kst \<Rightarrow> bool" where
  "in_budget l s \<longleftrightarrow> single_threaded l s \<and> is_budget_set (tasks s l) = 1 \<and>
     timespec_valid (budget_time (tasks s l)) \<and> ts_ns (budget_time (tasks s l)) < 500000000 * NSEC_PER_SEC \<and>
     timespec_valid (compute_time (tasks s l)) \<and> timespec_valid (raw_clock s) \<and>
     0 \<le> sint (mono_clock s) \<and> sint (mono_clock s) < 2 ^ 61 \<and>
     used l s < 1000000000 * NSEC_PER_SEC \<and>
     (current s = l \<longrightarrow> timespec_valid (exec_time (tasks s l)) \<and> ts_ns (exec_time (tasks s l)) \<le> ts_ns (raw_clock s) \<and>
        stopped_or_armed l s)"

subsection \<open>What a pass changes\<close>

text \<open>The parameters no pass and no timer changes.\<close>

definition params :: "kst \<Rightarrow> (tid \<Rightarrow> timespec \<times> int \<times> tid) \<times> (tid \<Rightarrow> tid list) \<times> ktime \<times> timespec" where
  "params s = ((\<lambda>u. (budget_time (tasks s u), is_budget_set (tasks s u), group_leader (tasks s u))),
     thread_group s, mono_clock s, raw_clock s)"

lemma paramsD:
  assumes "params s' = params s"
  shows "budget_time (tasks s' u) = budget_time (tasks s u)" "is_budget_set (tasks s' u) = is_budget_set (tasks s u)"
    "group_leader (tasks s' u) = group_leader (tasks s u)" "thread_group s' = thread_group s" "mono_clock s' = mono_clock s"
    "raw_clock s' = raw_clock s" "single_threaded l s' = single_threaded l s"
proof -
  have "fst (params s') u = fst (params s) u" for u using assms by simp
  then show p: "budget_time (tasks s' u) = budget_time (tasks s u)" "is_budget_set (tasks s' u) = is_budget_set (tasks s u)"
    "group_leader (tasks s' u) = group_leader (tasks s u)" for u by (simp_all add: params_def)
  show t: "thread_group s' = thread_group s" "mono_clock s' = mono_clock s" "raw_clock s' = raw_clock s"
    using assms by (simp_all add: params_def)
  show "single_threaded l s' = single_threaded l s" by (simp add: single_threaded_def p t)
qed

lemma params_upd [simp]:
  "(\<And>p. budget_time (f p) = budget_time p \<and> is_budget_set (f p) = is_budget_set p \<and> group_leader (f p) = group_leader p) \<Longrightarrow>
   params (upd_task t f s) = params s"
  by (simp add: params_def fun_eq_iff)

lemma params_fields [simp]: "params (s\<lparr>current := t\<rparr>) = params s"
  by (simp add: params_def)

lemma params_fold: "(\<And>x s. params (f x s) = params s) \<Longrightarrow> params (fold f xs s) = params s"
  by (induction xs arbitrary: s) auto

lemma params_services [simp]:
  "params (set_task_state t v s) = params s" "params (set_tsk_need_resched t s) = params s"
  "params (clear_tsk_need_resched t s) = params s" "params (spin_unlock t s) = params s"
  "params (snd (wake_up_process t s)) = params s" "params (set_timer k t h s) = params s"
  "params (force_sleep l t s) = params s" "params (context_switch t u s) = params s" "params (deactivate_prev sig pre t s) = params s"
  by (simp_all add: set_task_state_def set_tsk_need_resched_def clear_tsk_need_resched_def spin_unlock_def wake_up_process_simps
      set_timer_def force_sleep_def each_thread_def params_fold context_switch_def deactivate_prev_def Let_def del: fold_simps
      split: timer_kind.split)

lemma params_same_rt: "same_rt s s' \<Longrightarrow> params s' = params s"
  by (simp add: params_def same_rtD) (simp add: same_rt_def)

lemma params_parts:
  "account_prev t s = Some s' \<Longrightarrow> params s' = params s" "log_prev t s = Some s' \<Longrightarrow> params s' = params s"
  "stamp_next t s = Some s' \<Longrightarrow> params s' = params s" "budget_next t flag s = Some (flag', s') \<Longrightarrow> params s' = params s"
  "log_next t s = Some s' \<Longrightarrow> params s' = params s"
proof -
  note lock = params_same_rt [OF same_rt_lock(1)]
  show "account_prev t s = Some s' \<Longrightarrow> params s' = params s" "stamp_next t s = Some s' \<Longrightarrow> params s' = params s"
    by (auto simp: account_prev_def stamp_next_def Let_def bind_eq_Some_conv split: if_splits dest!: lock)
  show "budget_next t flag s = Some (flag', s') \<Longrightarrow> params s' = params s"
    by (auto simp: budget_next_def Let_def bind_eq_Some_conv split: if_splits dest!: lock)
  show "log_prev t s = Some s' \<Longrightarrow> params s' = params s" "log_next t s = Some s' \<Longrightarrow> params s' = params s"
    by (blast intro: params_same_rt log_parts_same)+
qed

lemma parts_times:
  "account_prev t s = Some s' \<Longrightarrow> exec_time (tasks s' u) = exec_time (tasks s u)"
  "account_prev t s = Some s' \<Longrightarrow> u \<noteq> group_leader (tasks s t) \<Longrightarrow> compute_time (tasks s' u) = compute_time (tasks s u)"
  "stamp_next t s = Some s' \<Longrightarrow> is_budget_set (tasks s t) = 1 \<Longrightarrow> exec_time (tasks s' (group_leader (tasks s t))) = raw_clock s"
  "budget_next t flag s = Some (flag', s') \<Longrightarrow> exec_time (tasks s' u) = exec_time (tasks s u)"
  by (auto simp: account_prev_def stamp_next_def budget_next_def Let_def bind_eq_Some_conv spin_lock_def spin_unlock_def
      force_sleep_tasks split: if_splits)

text \<open>A pass to another task.\<close>

lemma switch_effect:
  assumes pass: "sched_pass sig pre nx flag s = Some (flag', s')" and sw: "current s \<noteq> nx"
    and l: "single_threaded l s" "is_budget_set (tasks s l) = 1"
  shows "params s' = params s" "current s' = nx"
    "compute_time (tasks s' l) = (if current s = l
       then timespec_add (compute_time (tasks s l)) (timespec_sub (raw_clock s) (exec_time (tasks s l))) else compute_time (tasks s l))"
    "nx = l \<Longrightarrow> exec_time (tasks s' l) = raw_clock s"
    "nx = l \<Longrightarrow> state (tasks s' l) = TASK_UNINTERRUPTIBLE \<or> armed_for (mono_clock s) (tasks s' l)"
proof -
  from sched_pass_stages [OF pass sw] obtain s0 s1 s2 s3 s4 s5 where st:
    "s0 = clear_tsk_need_resched (current s) (deactivate_prev sig pre (current s) s)"
    "account_prev (current s) s0 = Some s1" "log_prev (current s) s1 = Some s2" "stamp_next nx s2 = Some s3"
    "budget_next nx flag s3 = Some (flag', s4)" "log_next nx s4 = Some s5" "s' = context_switch (current s) nx s5" .
  have p: "params s0 = params s" "params s1 = params s0" "params s2 = params s1" "params s3 = params s2" "params s4 = params s3" "params s5 = params s4"
    using st params_parts by simp_all
  then have q: "params s1 = params s" "params s2 = params s" "params s3 = params s" "params s5 = params s" by simp_all
  then show "params s' = params s" by (simp add: st(7))
  show "current s' = nx" by (simp add: st(7) context_switch_frame)
  have lead: "group_leader (tasks s u) = l \<longleftrightarrow> u = l" for u using l(1) by (simp add: single_threaded_def)
  note f = stage0_frame [OF st(1)] same_rtD [OF log_parts_same(1) [OF st(3)]] stamp_next_frame(1) [OF st(4)]
    same_rtD [OF log_parts_same(2) [OF st(6)]] budget_next_frame(1) [OF st(5)] parts_times(1) [OF st(2)] parts_times(4) [OF st(5)]
  have c: "compute_time (tasks s' l) = compute_time (tasks s1 l)" by (simp add: st(7) context_switch_frame f)
  show "compute_time (tasks s' l) = (if current s = l
       then timespec_add (compute_time (tasks s l)) (timespec_sub (raw_clock s) (exec_time (tasks s l))) else compute_time (tasks s l))"
  proof (cases "current s = l")
    case True
    then show ?thesis using account_prev_spec(1) [OF st(2)] lead [of l] l(2) by (simp add: c f)
  next
    case False
    then have "l \<noteq> group_leader (tasks s0 (current s))" using lead [of "current s"] by (auto simp: f)
    then show ?thesis using False parts_times(2) [OF st(2)] by (simp add: c f)
  qed
  assume nx: "nx = l"
  have "is_budget_set (tasks s2 l) = 1" "group_leader (tasks s2 l) = l" "raw_clock s2 = raw_clock s"
    "is_budget_set (tasks s3 l) = 1" "group_leader (tasks s3 l) = l" "mono_clock s3 = mono_clock s"
    using paramsD [OF q(2)] paramsD [OF q(3)] l(2) lead [of l] by simp_all
  note e = this
  have "exec_time (tasks s' l) = exec_time (tasks s3 l)" by (simp add: st(7) context_switch_def Let_def f)
  then show "exec_time (tasks s' l) = raw_clock s" using parts_times(3) [OF st(4)] nx e by simp
  have "state (tasks s' l) = state (tasks s4 l)" "budget_timer (tasks s' l) = budget_timer (tasks s4 l)"
    "budget_time (tasks s' l) = budget_time (tasks s4 l)" "compute_time (tasks s' l) = compute_time (tasks s4 l)"
    by (simp_all add: st(7) context_switch_frame f)
  then show "state (tasks s' l) = TASK_UNINTERRUPTIBLE \<or> armed_for (mono_clock s) (tasks s' l)"
    using budget_next_spec [OF st(5)] nx e by (simp add: armed_for_def)
qed

text \<open>A pass that stays with the running task.\<close>

lemma stay_effect:
  assumes "sched_pass sig pre nx flag s = Some (flag', s')" "current s = nx"
  shows "params s' = params s" "current s' = nx" "compute_time (tasks s' u) = compute_time (tasks s u)"
    "exec_time (tasks s' u) = exec_time (tasks s u)" "budget_timer (tasks s' u) = budget_timer (tasks s u)"
    "\<not> sig \<Longrightarrow> state (tasks s' u) = state (tasks s u)"
  using assms
  by (auto simp: sched_pass_def Let_def clear_tsk_need_resched_def deactivate_prev_def set_task_state_def)

subsection \<open>What a timer changes\<close>

lemma fold_wake_frame:
  "params (fold (\<lambda>u s. snd (wake_up_process u s)) us s) = params s"
  "current (fold (\<lambda>u s. snd (wake_up_process u s)) us s) = current s"
  by (induction us arbitrary: s) (auto simp: wake_up_process_simps)

lemma callback_effect:
  assumes "timer_function res k u fn s = Some (r, s')"
  shows "params s' = params s" "current s' = current s"
    "v \<noteq> u \<Longrightarrow> v \<notin> set (thread_group s u) \<Longrightarrow> tasks s' v = tasks s v"
    "k = BudgetTimer \<Longrightarrow> state (tasks s' u) = TASK_UNINTERRUPTIBLE \<and> compute_time (tasks s' u) = compute_time (tasks s u) \<and>
       exec_time (tasks s' u) = exec_time (tasks s u)"
    "k = PeriodTimer \<Longrightarrow> u \<notin> set (thread_group s u) \<Longrightarrow> compute_time (tasks s' u) = mk_ts 0 0 \<and> exec_time (tasks s' u) = exec_time (tasks s u) \<and>
       budget_timer (tasks s' u) = budget_timer (tasks s u)"
proof -
  let ?f = "\<lambda>s. if state (tasks s u) \<noteq> TASK_UNINTERRUPTIBLE
    then set_tsk_need_resched u (set_task_state u TASK_UNINTERRUPTIBLE s) else s"
  define s1 where "s1 = upd_task u (\<lambda>p. p\<lparr>task_spin_lock := True\<rparr>) s"
  have s1: "thread_group s1 = thread_group s" "params s1 = params s" "current s1 = current s" by (simp_all add: s1_def)
  consider (budget) "k = BudgetTimer" "s' = spin_unlock u (?f s1)"
    | (period) h us where "k = PeriodTimer" "set us = insert u (set (thread_group s u))"
        "s' = spin_unlock u (fold (\<lambda>v s. snd (wake_up_process v s)) us
        (upd_task u (\<lambda>p. p\<lparr>compute_time := mk_ts 0 0, period_timer := h\<rparr>) s1))"
  proof (cases k)
    case BudgetTimer
    have "fold (\<lambda>_. ?f) (u # thread_group s1 u) s1 = ?f s1"
      by (rule fold_const_idem) (simp_all add: set_tsk_need_resched_def set_task_state_def)
    then have "s' = spin_unlock u (?f s1)"
      using assms BudgetTimer unfolding timer_function_def budget_timer_callback_def each_thread_def spin_lock_def s1_def
      by (auto simp: Let_def split: if_splits)
    with BudgetTimer show ?thesis by (rule that(1))
  next
    case PeriodTimer
    have e: "upd_task u (\<lambda>p. p\<lparr>period_timer := h\<rparr>) (upd_task u (\<lambda>p. p\<lparr>compute_time := mk_ts 0 0\<rparr>) s1) =
        upd_task u (\<lambda>p. p\<lparr>compute_time := mk_ts 0 0, period_timer := h\<rparr>) s1" for h by (simp add: upd_task_def)
    from assms PeriodTimer obtain h where "s' = spin_unlock u (each_thread u (\<lambda>v s. snd (wake_up_process v s))
        (upd_task u (\<lambda>p. p\<lparr>period_timer := h\<rparr>) (upd_task u (\<lambda>p. p\<lparr>compute_time := mk_ts 0 0\<rparr>) s1)))"
      unfolding timer_function_def period_timer_callback_def spin_lock_def s1_def
      by (auto simp: Let_def bind_eq_Some_conv split: if_splits)
    then have "s' = spin_unlock u (fold (\<lambda>v s. snd (wake_up_process v s)) (u # thread_group s u)
        (upd_task u (\<lambda>p. p\<lparr>compute_time := mk_ts 0 0, period_timer := h\<rparr>) s1))"
      unfolding e each_thread_def by (simp add: s1 del: fold_simps)
    then show ?thesis using that(2) [OF PeriodTimer, of "u # thread_group s u"] by (simp del: fold_simps)
  qed
  note cs = this
  show "params s' = params s" using cs by cases (simp_all add: s1 fold_wake_frame(1))
  show "current s' = current s" using cs
    by cases (simp_all add: s1 fold_wake_frame(2) spin_unlock_def set_tsk_need_resched_def set_task_state_def)
  show "tasks s' v = tasks s v" if "v \<noteq> u" "v \<notin> set (thread_group s u)"
    using cs that
    by cases (simp_all add: s1_def fold_wake(1) spin_unlock_def set_tsk_need_resched_def set_task_state_def)
  show "state (tasks s' u) = TASK_UNINTERRUPTIBLE \<and> compute_time (tasks s' u) = compute_time (tasks s u) \<and>
       exec_time (tasks s' u) = exec_time (tasks s u)" if "k = BudgetTimer"
    using cs that by cases (simp_all add: s1_def spin_unlock_def set_tsk_need_resched_def set_task_state_def)
  show "compute_time (tasks s' u) = mk_ts 0 0 \<and> exec_time (tasks s' u) = exec_time (tasks s u) \<and>
       budget_timer (tasks s' u) = budget_timer (tasks s u)" if "k = PeriodTimer" "u \<notin> set (thread_group s u)"
    using cs that by cases (simp_all add: s1_def fold_wake(1) spin_unlock_def)
qed

lemma timer_effect:
  assumes "run_hrtimer res k u s = Some s'"
  shows "params s' = params s" "current s' = current s"
    "v \<noteq> u \<Longrightarrow> v \<notin> set (thread_group s u) \<Longrightarrow> tasks s' v = tasks s v"
    "k = BudgetTimer \<Longrightarrow> state (tasks s' u) = TASK_UNINTERRUPTIBLE \<and> compute_time (tasks s' u) = compute_time (tasks s u) \<and>
       exec_time (tasks s' u) = exec_time (tasks s u)"
    "k = PeriodTimer \<Longrightarrow> u \<notin> set (thread_group s u) \<Longrightarrow> compute_time (tasks s' u) = mk_ts 0 0 \<and> exec_time (tasks s' u) = exec_time (tasks s u) \<and>
       budget_timer (tasks s' u) = budget_timer (tasks s u)"
proof -
  from assms obtain h0 r s1 s2 h where s1: "timer_function res k u (h_fn (timer_of k (tasks (set_timer k u h0 s) u))) (set_timer k u h0 s) = Some (r, s1)"
    and s2: "s2 = s1 \<or> s2 = set_timer k u (enqueue_hrtimer (timer_of k (tasks s1 u))) s1" and s': "s' = set_timer k u h s2"
    unfolding run_hrtimer_def Let_def by (force simp: bind_eq_Some_conv split: if_splits)
  note e = callback_effect [OF s1]
  have f: "current (set_timer q u h s) = current s" "thread_group (set_timer q u h s) = thread_group s"
    "v \<noteq> u \<Longrightarrow> tasks (set_timer q u h s) v = tasks s v" "compute_time (tasks (set_timer q u h s) u) = compute_time (tasks s u)"
    "exec_time (tasks (set_timer q u h s) u) = exec_time (tasks s u)" "state (tasks (set_timer q u h s) u) = state (tasks s u)"
    "q = PeriodTimer \<Longrightarrow> budget_timer (tasks (set_timer q u h s) u) = budget_timer (tasks s u)" for q h s v
    by (simp_all add: set_timer_def split: timer_kind.split)
  show "params s' = params s" "current s' = current s" using s2 e(1,2) by (auto simp: s' f)
  show "tasks s' v = tasks s v" if "v \<noteq> u" "v \<notin> set (thread_group s u)" using s2 e(3) [of v] that by (auto simp: s' f)
  show "state (tasks s' u) = TASK_UNINTERRUPTIBLE \<and> compute_time (tasks s' u) = compute_time (tasks s u) \<and>
       exec_time (tasks s' u) = exec_time (tasks s u)" if "k = BudgetTimer" using s2 e(4) that by (auto simp: s' f)
  show "compute_time (tasks s' u) = mk_ts 0 0 \<and> exec_time (tasks s' u) = exec_time (tasks s u) \<and>
       budget_timer (tasks s' u) = budget_timer (tasks s u)" if "k = PeriodTimer" "u \<notin> set (thread_group s u)"
    using s2 e(5) that by (auto simp: s' f)
qed

subsection \<open>Every action keeps the invariant\<close>

lemma ts_ns_nonneg: "timespec_valid ts \<Longrightarrow> 0 \<le> ts_ns ts"
  by (simp add: timespec_valid_normal ts_normal_def ts_ns_def)

lemma used_nonneg: "in_budget l s \<Longrightarrow> 0 \<le> used l s"
  by (auto simp: in_budget_def used_def ts_ns_nonneg)

lemma in_budget_frame:
  assumes b: "in_budget l s" and p: "params s' = params s" and c: "current s' = current s"
    and t: "compute_time (tasks s' l) = compute_time (tasks s l)" "exec_time (tasks s' l) = exec_time (tasks s l)"
    and a: "current s = l \<Longrightarrow> stopped_or_armed l s'"
  shows "in_budget l s'" "used l s' = used l s"
proof -
  note f = paramsD [OF p] c t
  show u: "used l s' = used l s" by (simp add: used_def f)
  show "in_budget l s'" using b a by (simp add: in_budget_def f u)
qed

lemma armed_kept:
  assumes "stopped_or_armed l s" "params s' = params s" "used l s' \<le> used l s" "budget_timer (tasks s' l) = budget_timer (tasks s l)"
    "state (tasks s' l) = state (tasks s l) \<or> state (tasks s l) \<noteq> TASK_UNINTERRUPTIBLE"
  shows "stopped_or_armed l s'"
  using assms(1,3-) by (auto simp: stopped_or_armed_def paramsD [OF assms(2)])

lemma tick_step:
  assumes b: "in_budget l s" and t: "timely l (Tick raw now) s"
  shows "in_budget l (s\<lparr>raw_clock := raw, mono_clock := now\<rparr>)"
    "used l (s\<lparr>raw_clock := raw, mono_clock := now\<rparr>) = used l s + tick_of l (Tick raw now) s"
proof -
  let ?s = "s\<lparr>raw_clock := raw, mono_clock := now\<rparr>"
  have lead: "group_leader (tasks s (current s)) = l \<longleftrightarrow> current s = l" and st: "single_threaded l ?s"
    using b by (auto simp: in_budget_def single_threaded_def)
  show u: "used l ?s = used l s + tick_of l (Tick raw now) s" using t by (simp add: used_def lead)
  show "in_budget l ?s"
  proof (cases "current s = l \<and> now \<noteq> mono_clock s")
    case False
    then have "used l ?s = used l s" "stopped_or_armed l s \<Longrightarrow> current s = l \<Longrightarrow> stopped_or_armed l ?s"
      using u by (auto simp: lead stopped_or_armed_def)
    then show ?thesis using b t st False by (auto simp: in_budget_def)
  next
    case True
    have "ts_ns (budget_time (tasks s l)) - used l ?s = ts_ns (budget_time (tasks s l)) - used l s - (sint now - sint (mono_clock s))"
      using u True lead by simp
    moreover have "stopped_or_armed l s" using b True by (simp add: in_budget_def)
    ultimately have "used l ?s \<le> ts_ns (budget_time (tasks s l)) \<and> stopped_or_armed l ?s"
      using t True by (auto simp: stopped_or_armed_def)
    moreover have "ts_ns (budget_time (tasks s l)) < 1000000000 * NSEC_PER_SEC" using b by (simp add: in_budget_def)
    ultimately show ?thesis using b t st True by (auto simp: in_budget_def)
  qed
qed

text \<open>Time passes for a process only up to its budget.\<close>

lemma tick_bound:
  assumes b: "in_budget l s" and t: "timely l (Tick raw now) s"
  shows "tick_of l (Tick raw now) s = 0 \<or> used l s + tick_of l (Tick raw now) s \<le> ts_ns (budget_time (tasks s l))"
proof (cases "current s = l \<and> now \<noteq> mono_clock s")
  case False
  then show ?thesis using b by (auto simp: in_budget_def single_threaded_def)
next
  case True
  then show ?thesis using b t by (auto simp: in_budget_def stopped_or_armed_def)
qed

lemma charge_exact:
  assumes b: "in_budget l s" and c: "current s = l"
  shows "ts_ns (timespec_add (compute_time (tasks s l)) (timespec_sub (raw_clock s) (exec_time (tasks s l)))) = used l s"
    "timespec_valid (timespec_add (compute_time (tasks s l)) (timespec_sub (raw_clock s) (exec_time (tasks s l))))"
proof -
  let ?c = "compute_time (tasks s l)" and ?d = "timespec_sub (raw_clock s) (exec_time (tasks s l))"
  have v: "timespec_valid ?c" "timespec_valid (raw_clock s)" "timespec_valid (exec_time (tasks s l))"
    "ts_ns (exec_time (tasks s l)) \<le> ts_ns (raw_clock s)" "used l s < 1000000000 * NSEC_PER_SEC"
    using b c by (auto simp: in_budget_def)
  have d: "ts_ns ?d = ts_ns (raw_clock s) - ts_ns (exec_time (tasks s l))" "ts_normal ?d"
    using timespec_sub_exact [OF v(2,3)] by simp_all
  have u: "used l s = ts_ns ?c + ts_ns ?d" using c by (simp add: used_def d)
  have s: "ts_ns ?d div NSEC_PER_SEC = sint (tv_sec ?d)" "ts_ns ?c div NSEC_PER_SEC = sint (tv_sec ?c)"
    using ts_ns_split(1) d(2) v(1) by (auto simp: timespec_valid_normal)
  have "0 \<le> ts_ns ?d" "0 \<le> ts_ns ?c" using d(1) v by (simp_all add: ts_ns_nonneg)
  then have dv: "timespec_valid ?d" "sint (tv_sec ?c) + sint (tv_sec ?d) + 1 < 2147483648"
    using d(2) v(5) u unfolding timespec_valid_normal s [symmetric] by linarith+
  note a = timespec_add_exact [OF v(1) dv]
  show "ts_ns (timespec_add ?c ?d) = used l s" using a(1) u by simp
  have "sint (tv_sec (timespec_add ?c ?d)) = ts_ns (timespec_add ?c ?d) div NSEC_PER_SEC" using ts_ns_split(1) [OF a(2)] by simp
  then show "timespec_valid (timespec_add ?c ?d)"
    using a \<open>0 \<le> ts_ns ?d\<close> \<open>0 \<le> ts_ns ?c\<close> by (simp add: timespec_valid_normal)
qed

lemma armed_for_armed:
  assumes a: "armed_for (mono_clock s) (tasks s l)" and v: "timespec_valid (budget_time (tasks s l))" "timespec_valid (compute_time (tasks s l))"
    and now: "0 \<le> sint (mono_clock s)" "sint (mono_clock s) < 2 ^ 61" and u: "used l s = ts_ns (compute_time (tasks s l))"
  shows "stopped_or_armed l s"
proof -
  let ?b = "budget_time (tasks s l)" and ?c = "compute_time (tasks s l)"
  from a obtain h where h: "0 <s timespec_compare ?b ?c"
    "budget_timer (tasks s l) = snd (hrtimer_start (mono_clock s) h (timespec_to_ktime (timespec_sub ?b ?c)))"
    by (auto simp: armed_for_def)
  have lt: "ts_ns ?c < ts_ns ?b" using h(1) v by (simp add: timespec_compare_order timespec_valid_normal)
  have d: "sint (timespec_to_ktime (timespec_sub ?b ?c)) = ts_ns ?b - ts_ns ?c"
    using timespec_sub_exact [OF v] by (simp add: timespec_to_ktime_ns)
  have "ts_ns ?b < 2 ^ 62"
    using v(1) sint32_bounds [of "tv_sec ?b"] by (simp add: timespec_valid_normal ts_normal_def ts_ns_def)
  then show ?thesis
    using hrtimer_start_armed [of "timespec_to_ktime (timespec_sub ?b ?c)" "mono_clock s" h] d lt now h(2) ts_ns_nonneg [OF v(2)] u
    by (simp add: stopped_or_armed_def)
qed

lemma switch_step:
  assumes b: "in_budget l s" and t: "timely l (Switch sig pre flag nx) s" and pass: "sched_pass sig pre nx flag s = Some (flag', s')"
  shows "in_budget l s' \<and> used l s' = used l s"
proof (cases "current s = nx")
  case True
  note e = stay_effect [OF pass True]
  have "stopped_or_armed l s'" if "current s = l"
  proof (rule armed_kept [OF _ e(1)])
    show "stopped_or_armed l s" using b that by (simp add: in_budget_def)
    show "used l s' \<le> used l s" using e(2) True by (simp add: used_def e(3,4) paramsD [OF e(1)])
    show "state (tasks s' l) = state (tasks s l) \<or> state (tasks s l) \<noteq> TASK_UNINTERRUPTIBLE" using t that e(6) [of l] by auto
  qed (rule e(5))
  then show ?thesis using in_budget_frame [OF b e(1) _ e(3,4)] e(2) True by simp
next
  case False
  have l: "single_threaded l s" "is_budget_set (tasks s l) = 1" using b by (simp_all add: in_budget_def)
  note e = switch_effect [OF pass False l]
  note p = paramsD [OF e(1)]
  have c: "ts_ns (compute_time (tasks s' l)) = used l s" "timespec_valid (compute_time (tasks s' l))"
    using charge_exact [OF b] b by (auto simp: e(3) used_def in_budget_def)
  have u: "used l s' = ts_ns (compute_time (tasks s' l))" using e(2,4) by (auto simp: used_def p)
  have "stopped_or_armed l s'" if nx: "nx = l"
  proof (cases "state (tasks s' l) = TASK_UNINTERRUPTIBLE")
    case False
    then have a: "armed_for (mono_clock s') (tasks s' l)" using e(5) [OF nx] by (simp add: p)
    show ?thesis by (rule armed_for_armed [OF a _ c(2) _ _ u]) (use b in \<open>simp_all add: in_budget_def p\<close>)
  qed (simp add: stopped_or_armed_def)
  then show ?thesis using b c u e(2,4) by (auto simp: in_budget_def p)
qed

lemma fires_step:
  assumes b: "in_budget l s" and t: "timely l (Fires k u) s" and r: "run_hrtimer res k u s = Some s'"
  shows "in_budget l s'" "\<not> (k = PeriodTimer \<and> u = l) \<Longrightarrow> used l s' = used l s"
proof -
  note e = timer_effect [OF r]
  note p = paramsD [OF e(1)]
  have th: "l \<notin> set (thread_group s v)" for v using b by (simp add: in_budget_def single_threaded_def)
  have "in_budget l s' \<and> (k = PeriodTimer \<and> u = l \<or> used l s' = used l s)"
  proof (cases "u = l")
    case False
    then have "tasks s' l = tasks s l" using e(3) [of l] th by simp
    moreover from this have "stopped_or_armed l s'" if "current s = l"
      using b that e(2) by (simp add: in_budget_def stopped_or_armed_def used_def p)
    ultimately show ?thesis using in_budget_frame [OF b e(1,2)] by simp
  next
    case True
    show ?thesis
    proof (cases k)
      case BudgetTimer
      then have "stopped_or_armed l s'" using e(4) True by (simp add: stopped_or_armed_def)
      then show ?thesis using in_budget_frame [OF b e(1,2)] e(4) BudgetTimer True by simp
    next
      case PeriodTimer
      have x: "compute_time (tasks s' l) = mk_ts 0 0" "exec_time (tasks s' l) = exec_time (tasks s l)"
        "budget_timer (tasks s' l) = budget_timer (tasks s l)" using e(5) PeriodTimer True th by simp_all
      have z: "ts_ns (mk_ts 0 0) = 0" "timespec_valid (mk_ts 0 0)" by (simp_all add: ts_ns_def mk_ts_def timespec_valid_normal ts_normal_def)
      have "0 \<le> ts_ns (compute_time (tasks s l))" using b by (simp add: in_budget_def ts_ns_nonneg)
      then have u: "used l s' \<le> used l s" by (simp add: used_def e(2) p x z)
      have "stopped_or_armed l s'" if "current s = l"
        by (rule armed_kept [OF _ e(1) u x(3)]) (use b t that True PeriodTimer in \<open>simp_all add: in_budget_def\<close>)
      then show ?thesis using b u PeriodTimer True by (auto simp: in_budget_def e(2) p x z)
    qed
  qed
  then show "in_budget l s'" "\<not> (k = PeriodTimer \<and> u = l) \<Longrightarrow> used l s' = used l s" by blast+
qed

lemma wake_step:
  assumes b: "in_budget l s" and t: "timely l (Wake u) s"
  shows "in_budget l (snd (wake_up_process u s)) \<and> used l (snd (wake_up_process u s)) = used l s"
proof -
  let ?s = "snd (wake_up_process u s)"
  have f: "current ?s = current s" "compute_time (tasks ?s l) = compute_time (tasks s l)" "exec_time (tasks ?s l) = exec_time (tasks s l)"
    "u \<noteq> l \<Longrightarrow> tasks ?s l = tasks s l" by (simp_all add: wake_up_process_simps)
  have "stopped_or_armed l ?s" if "current s = l"
    using b t that f paramsD [OF params_services(5) [of u s]] by (simp add: in_budget_def stopped_or_armed_def used_def)
  then show ?thesis using in_budget_frame [OF b params_services(5) f(1-3)] by blast
qed

lemma act_step:
  assumes b: "in_budget l s" and t: "timely l a s" and r: "act res a s = Some s'"
  shows "in_budget l s'" "a \<noteq> Fires PeriodTimer l \<Longrightarrow> used l s' = used l s + tick_of l a s"
    "tick_of l a s = 0 \<or> used l s + tick_of l a s \<le> ts_ns (budget_time (tasks s l))"
    "budget_time (tasks s' l) = budget_time (tasks s l)"
proof -
  show "tick_of l a s = 0 \<or> used l s + tick_of l a s \<le> ts_ns (budget_time (tasks s l))"
    using t by (cases a) (simp_all add: tick_bound [OF b] del: timely.simps tick_of.simps(1))
  have "in_budget l s' \<and> (a \<noteq> Fires PeriodTimer l \<longrightarrow> used l s' = used l s + tick_of l a s)"
  proof (cases a)
    case (Tick raw now)
    then show ?thesis using tick_step [OF b, of raw now] t r by (auto simp del: timely.simps tick_of.simps)
  next
    case (Switch sig pre flag nx)
    then show ?thesis using switch_step [OF b, of sig pre flag nx] t r by (auto simp del: timely.simps)
  next
    case (Fires k u)
    then show ?thesis using fires_step [OF b, of k u res s'] t r by (auto simp del: timely.simps)
  next
    case (Wake u)
    then show ?thesis using wake_step [OF b, of u] t r by (auto simp del: timely.simps)
  qed
  then show "in_budget l s'" "a \<noteq> Fires PeriodTimer l \<Longrightarrow> used l s' = used l s + tick_of l a s" by blast+
  have l: "single_threaded l s" "is_budget_set (tasks s l) = 1" using b by (simp_all add: in_budget_def)
  show "budget_time (tasks s' l) = budget_time (tasks s l)"
  proof (cases a)
    case (Switch sig pre flag nx)
    then obtain f where "sched_pass sig pre nx flag s = Some (f, s')" using r by auto
    then have "params s' = params s" using stay_effect(1) switch_effect(1) [OF _ _ l] by blast
    then show ?thesis by (rule paramsD)
  next
    case (Fires k u)
    then have "run_hrtimer res k u s = Some s'" using r by simp
    then show ?thesis by (rule paramsD [OF timer_effect(1)])
  next
    case (Wake u)
    then have "s' = snd (wake_up_process u s)" using r by simp
    then have "params s' = params s" by simp
    then show ?thesis by (rule paramsD)
  next
    case (Tick raw now)
    then have "s' = s\<lparr>raw_clock := raw, mono_clock := now\<rparr>" using r by simp
    then show ?thesis by simp
  qed
qed

subsection \<open>Isolation\<close>

lemma period_used: "in_budget l s \<Longrightarrow> timely l (Fires PeriodTimer l) s \<Longrightarrow> act res (Fires PeriodTimer l) s = Some s' \<Longrightarrow>
    used l s' \<le> used l s"
proof -
  assume b: "in_budget l s" and r: "act res (Fires PeriodTimer l) s = Some s'"
  have r: "run_hrtimer res PeriodTimer l s = Some s'" using r by simp
  have th: "l \<notin> set (thread_group s l)" using b by (simp add: in_budget_def single_threaded_def)
  note e = timer_effect [OF r]
  have "ts_ns (mk_ts 0 0) = 0" by (simp add: ts_ns_def mk_ts_def)
  moreover have "0 \<le> ts_ns (compute_time (tasks s l))" using b by (simp add: in_budget_def ts_ns_nonneg)
  ultimately show ?thesis using e(5) th by (simp add: used_def e(2) paramsD [OF e(1)])
qed

lemma run_in_budget:
  assumes "in_budget l s" "timely_run l res as s" "run res as s = Some s'"
  defines "B \<equiv> ts_ns (budget_time (tasks s l))"
  shows "cpu_time l res as s \<le> int (periods l as) * B + max 0 (B - used l s) \<and> used l s' \<le> max B (used l s) \<and>
    (periods l as = 0 \<longrightarrow> used l s' = used l s + cpu_time l res as s)"
  using assms(1-3) unfolding B_def
proof (induction as arbitrary: s)
  case Nil
  then show ?case by (simp add: run_def periods_def)
next
  case (Cons a as)
  then obtain s1 where s1: "act res a s = Some s1" "run res as s1 = Some s'" by (auto simp: run_def bind_eq_Some_conv)
  have t: "timely l a s" "timely_run l res as s1" using Cons.prems(2) s1(1) by simp_all
  note e = act_step [OF Cons.prems(1) t(1) s1(1)]
  let ?B = "ts_ns (budget_time (tasks s l))"
  have IH: "cpu_time l res as s1 \<le> int (periods l as) * ?B + max 0 (?B - used l s1)" "used l s' \<le> max ?B (used l s1)"
    "periods l as = 0 \<longrightarrow> used l s' = used l s1 + cpu_time l res as s1"
    using Cons.IH [OF e(1) t(2) s1(2)] by (simp_all add: e(4))
  have c: "cpu_time l res (a # as) s = tick_of l a s + cpu_time l res as s1" by (simp add: s1(1))
  show ?case
  proof (cases "a = Fires PeriodTimer l")
    case True
    have "used l s1 \<le> used l s" using period_used [OF Cons.prems(1)] t(1) s1(1) True by blast
    moreover have "0 \<le> used l s1" by (rule used_nonneg [OF e(1)])
    moreover have "tick_of l a s = 0" "int (periods l (a # as)) * ?B = int (periods l as) * ?B + ?B" "periods l (a # as) \<noteq> 0"
      using True by (simp_all add: periods_def algebra_simps)
    moreover have "0 \<le> ?B" using Cons.prems(1) by (simp add: in_budget_def ts_ns_nonneg)
    ultimately show ?thesis using IH(1,2) unfolding c by (intro conjI impI) linarith+
  next
    case False
    then have p: "periods l (a # as) = periods l as" by (simp add: periods_def)
    show ?thesis using IH e(2) [OF False] e(3) unfolding c p by (intro conjI impI) linarith+
  qed
qed


definition shared_run :: "action list" where
  "shared_run =
     [Switch False False False 5, Tick (mk_ts 0 400000000) 400000000, Fires BudgetTimer 5,
      Switch False False False 1, Tick (mk_ts 0 600000000) 600000000, Fires PeriodTimer 5,
      Switch False True False 5, Tick (mk_ts 0 800000000) 800000000]"

lemma budgeted_in_budget: "in_budget 5 budgeted" "used 5 budgeted = 100000000" "ts_ns (budget_time (tasks budgeted 5)) = 500000000"
proof -
  have v: "timespec_valid (mk_ts 0 500000000)" "timespec_valid (mk_ts 0 100000000)" "timespec_valid (mk_ts 0 0)" by code_simp+
  have n: "ts_ns (mk_ts 0 500000000) = 500000000" "ts_ns (mk_ts 0 100000000) = 100000000" by (simp_all add: ts_ns_def mk_ts_def)
  have f: "current budgeted = 1" "budget_time (tasks budgeted 5) = mk_ts 0 500000000" "compute_time (tasks budgeted 5) = mk_ts 0 100000000"
    "is_budget_set (tasks budgeted 5) = 1" "single_threaded 5 budgeted" "raw_clock budgeted = mk_ts 0 0" "mono_clock budgeted = 0"
    by (simp_all add: budgeted_def boot_def plain_task_def single_threaded_def)
  show u: "used 5 budgeted = 100000000" by (simp add: used_def f n)
  show "in_budget 5 budgeted" by (simp add: in_budget_def f v n u)
  show "ts_ns (budget_time (tasks budgeted 5)) = 500000000" by (simp add: f n)
qed


end
