(* ===== verification/Priorities.thy ===== *)
theory Priorities
  imports TaskLists
begin

text \<open>
  The priorities of the real-time tasks (\<open>set_rt_priorities\<close> and \<open>set_rt_priorities_per_cpu\<close> of
  \<open>kernel/sched.c\<close>): a walk over a list that counts the distinct periods and hands the count to
  \<open>sched_setscheduler_nocheck\<close>, for every thread of the task.
\<close>

subsection \<open>The code\<close>

definition set_thread_prio :: "int \<Rightarrow> tid \<Rightarrow> kst \<Rightarrow> kst" where
  "set_thread_prio pr t s =
     (let s = upd_task t (\<lambda>p. p\<lparr>rt_priority := pr\<rparr>) s;
          s = snd (sched_setscheduler_nocheck t SCHED_FIFO pr s)
      in set_tsk_need_resched t s)"

text \<open>One round of the loop, on the counter, the period of the task before and the state.\<close>

definition prio_step :: "tid \<Rightarrow> int \<times> timespec \<times> kst \<Rightarrow> int \<times> timespec \<times> kst" where
  "prio_step t = (\<lambda>(pr, prev_deadline, s).
     let pr = (if 0 <s timespec_compare (time_period (tasks s t)) prev_deadline then pr + 1 else pr);
         s = each_thread t (set_thread_prio pr) s;
         pr = (if 99 < pr then 99 else pr)
     in (pr, time_period (tasks s t), s))"

definition set_rt_priorities :: "kst \<Rightarrow> (int \<times> kst) option" where
  "set_rt_priorities s =
     (if periodic_tasks_size s \<le> 0 then Some (- 1, s)
      else do {
        ts \<leftarrow> periodic_tasks s;
        let (pr, prev_deadline, s) = fold prio_step ts (0, mk_ts 0 0, s);
        Some (0, s)
      })"

definition set_rt_priorities_per_cpu :: "nat \<Rightarrow> kst \<Rightarrow> (int \<times> kst) option" where
  "set_rt_priorities_per_cpu cpu s =
     (if per_cpu_list_size s cpu \<le> 0 then Some (- 1, s)
      else do {
        ts \<leftarrow> cpu_tasks cpu s;
        let (pr, prev_deadline, s) = fold prio_step ts (0, mk_ts 0 0, s);
        Some (0, s)
      })"

subsection \<open>One thread\<close>

definition threads :: "kst \<Rightarrow> tid \<Rightarrow> tid list" where
  "threads s t = t # thread_group s t"

text \<open>A thread whose policy can change: not a stop thread, not yet \<open>SCHED_FIFO\<close>, not boosted.\<close>

definition fresh :: "kst \<Rightarrow> tid \<Rightarrow> bool" where
  "fresh s u \<longleftrightarrow> \<not> is_stop (tasks s u) \<and> policy (tasks s u) \<noteq> SCHED_FIFO \<and> pi_waiter (tasks s u) = None"

definition has_prio :: "int \<Rightarrow> task_struct \<Rightarrow> bool" where
  "has_prio pr p \<longleftrightarrow> policy p = SCHED_FIFO \<and> rt_priority p = pr \<and> prio p = 99 - pr \<and> sched_class p = RtClass"

lemma sched_setscheduler_fifo:
  assumes "1 \<le> pr" "pr \<le> 99" "\<not> is_stop (tasks s t)"
  shows "sched_setscheduler_nocheck t SCHED_FIFO pr s =
    (if policy (tasks s t) = SCHED_FIFO \<and> rt_priority (tasks s t) = pr then (0, s)
     else (0, upd_task t (\<lambda>p. setscheduler (p\<lparr>sched_reset_on_fork := False\<rparr>) SCHED_FIFO pr) s))"
proof -
  have "SCHED_FIFO AND NOT SCHED_RESET_ON_FORK = (1 :: int)" "SCHED_FIFO AND SCHED_RESET_ON_FORK = (0 :: int)" by simp_all
  then show ?thesis using assms by (auto simp: sched_setscheduler_nocheck_def Let_def rt_policy_def)
qed

lemma set_thread_prio_other:
  "u \<noteq> t \<Longrightarrow> tasks (set_thread_prio pr t s) u = tasks s u"
  "time_period (tasks (set_thread_prio pr t s) u) = time_period (tasks s u)"
  "thread_group (set_thread_prio pr t s) = thread_group s"
  by (auto simp: set_thread_prio_def set_tsk_need_resched_def sched_setscheduler_nocheck_def setscheduler_def Let_def)

lemma set_thread_prio_fresh:
  assumes "1 \<le> pr" "pr \<le> 99" "fresh s t"
  shows "has_prio pr (tasks (set_thread_prio pr t s) t)"
proof -
  let ?s = "upd_task t (\<lambda>p. p\<lparr>rt_priority := pr\<rparr>) s"
  have "\<not> is_stop (tasks ?s t)" "policy (tasks ?s t) \<noteq> SCHED_FIFO" using assms(3) by (simp_all add: fresh_def)
  then have "sched_setscheduler_nocheck t SCHED_FIFO pr ?s =
      (0, upd_task t (\<lambda>p. setscheduler (p\<lparr>sched_reset_on_fork := False\<rparr>) SCHED_FIFO pr) ?s)"
    by (simp only: sched_setscheduler_fifo [OF assms(1,2)] simp_thms if_False)
  then show ?thesis using assms
    by (simp add: set_thread_prio_def set_tsk_need_resched_def Let_def has_prio_def setscheduler_def
        normal_prio_of_def task_has_rt_policy_def rt_policy_def rt_mutex_getprio_def fresh_def rt_prio_def)
qed

subsection \<open>One task\<close>

lemma fold_set_thread_prio:
  assumes "1 \<le> pr" "pr \<le> 99"
  shows "distinct us \<Longrightarrow> \<forall>u \<in> set us. fresh s u \<Longrightarrow>
    (\<forall>u \<in> set us. has_prio pr (tasks (fold (set_thread_prio pr) us s) u)) \<and>
    (\<forall>u. u \<notin> set us \<longrightarrow> tasks (fold (set_thread_prio pr) us s) u = tasks s u)"
proof (induction us arbitrary: s)
  case (Cons t us)
  let ?s = "set_thread_prio pr t s"
  have "tasks ?s u = tasks s u" if "u \<in> set us" for u
    using Cons.prems(1) that by (intro set_thread_prio_other(1)) auto
  then have "\<forall>u \<in> set us. fresh ?s u" using Cons.prems(2) by (simp add: fresh_def)
  with Cons have ih: "\<forall>u \<in> set us. has_prio pr (tasks (fold (set_thread_prio pr) us ?s) u)"
    "\<forall>u. u \<notin> set us \<longrightarrow> tasks (fold (set_thread_prio pr) us ?s) u = tasks ?s u" by auto
  have "has_prio pr (tasks ?s t)" using set_thread_prio_fresh [OF assms] Cons.prems(2) by simp
  then show ?case using ih Cons.prems(1) set_thread_prio_other(1) [of _ t pr s] by auto
qed simp

lemma fold_set_thread_prio_frame:
  "time_period (tasks (fold (set_thread_prio pr) us s) u) = time_period (tasks s u)"
  "thread_group (fold (set_thread_prio pr) us s) = thread_group s"
  by (induction us arbitrary: s) (simp_all add: set_thread_prio_other(2,3))

lemma prio_step_frame:
  assumes "prio_step t (pr, prev, s) = (pr', prev', s')"
  shows "time_period (tasks s' u) = time_period (tasks s u)" "thread_group s' = thread_group s"
    "prev' = time_period (tasks s t)"
  using assms by (auto simp: prio_step_def Let_def each_thread_def fold_set_thread_prio_frame set_thread_prio_other
      simp del: fold_simps)

lemma prio_step_spec:
  assumes "ts_normal prev" "period_normal s t" "0 \<le> pr" "pr < 99" "pr = 0 \<longrightarrow> ts_ns prev < period_ns s t"
    and "distinct (threads s t)" "\<forall>u \<in> set (threads s t). fresh s u"
  shows "\<exists>s'. prio_step t (pr, prev, s) =
      (if ts_ns prev < period_ns s t then pr + 1 else pr, time_period (tasks s t), s') \<and>
    (\<forall>u \<in> set (threads s t). has_prio (if ts_ns prev < period_ns s t then pr + 1 else pr) (tasks s' u)) \<and>
    (\<forall>u. u \<notin> set (threads s t) \<longrightarrow> tasks s' u = tasks s u)"
proof -
  define q where "q = (if ts_ns prev < period_ns s t then pr + 1 else pr)"
  have q: "1 \<le> q" "q \<le> 99" using assms(3-5) by (auto simp: q_def)
  have c: "0 <s timespec_compare (time_period (tasks s t)) prev \<longleftrightarrow> ts_ns prev < period_ns s t"
    using assms(1,2) by (simp add: period_normal_def period_ns_def timespec_compare_order)
  let ?s = "fold (set_thread_prio q) (threads s t) s"
  have "prio_step t (pr, prev, s) = (q, time_period (tasks ?s t), ?s)"
    using q(2) by (simp add: prio_step_def Let_def c each_thread_def threads_def flip: q_def)
  moreover have "time_period (tasks ?s t) = time_period (tasks s t)" by (rule fold_set_thread_prio_frame)
  moreover note fold_set_thread_prio [OF q assms(6,7)]
  ultimately show ?thesis unfolding q_def [symmetric] by (intro exI [of _ ?s]) simp
qed

subsection \<open>The whole list\<close>

text \<open>The priorities the walk counts out, for the periods of a list.\<close>

fun ranks :: "int \<Rightarrow> int \<Rightarrow> int list \<Rightarrow> int list" where
  "ranks prev pr [] = []"
| "ranks prev pr (p # ps) = (let q = (if prev < p then pr + 1 else pr) in q # ranks p q ps)"

lemma length_ranks [simp]: "length (ranks prev pr ps) = length ps"
  by (induction ps arbitrary: prev pr) (simp_all add: Let_def)

lemma ranks_ge: "i < length ps \<Longrightarrow> pr \<le> ranks prev pr ps ! i"
proof (induction ps arbitrary: prev pr i)
  case (Cons p ps)
  let ?q = "if prev < p then pr + 1 else pr"
  show ?case
  proof (cases i)
    case (Suc k)
    then have "?q \<le> ranks p ?q ps ! k" using Cons by simp
    then show ?thesis using Suc by (simp add: Let_def split: if_splits)
  qed (simp add: Let_def)
qed simp

lemma ranks_first: "sorted (prev # ps) \<Longrightarrow> i < length ps \<Longrightarrow> prev < ps ! i \<Longrightarrow> pr < ranks prev pr ps ! i"
proof (induction ps arbitrary: prev pr i)
  case (Cons p ps)
  show ?case
  proof (cases i)
    case 0
    then show ?thesis using Cons.prems by (simp add: Let_def)
  next
    case (Suc k)
    then show ?thesis
      using Cons.IH [of p k pr] ranks_ge [of k ps "pr + 1" p] Cons.prems by (auto simp: Let_def)
  qed
qed simp

lemma ranks_mono:
  "sorted ps \<Longrightarrow> i \<le> j \<Longrightarrow> j < length ps \<Longrightarrow>
   ranks prev pr ps ! i \<le> ranks prev pr ps ! j \<and> (ps ! i < ps ! j \<longrightarrow> ranks prev pr ps ! i < ranks prev pr ps ! j)"
proof (induction ps arbitrary: prev pr i j)
  case (Cons p ps)
  show ?case
  proof (cases i)
    case (Suc k)
    then obtain l where "j = Suc l" using Cons.prems(2) by (cases j) auto
    then show ?thesis using Suc Cons by (simp add: Let_def)
  next
    case 0
    show ?thesis
    proof (cases j)
      case (Suc l)
      let ?q = "if prev < p then pr + 1 else pr"
      have l: "l < length ps" "sorted (p # ps)" using Suc Cons.prems by simp_all
      show ?thesis using 0 Suc ranks_ge [OF l(1), of ?q p] ranks_first [OF l(2,1), of ?q] by (simp add: Let_def)
    qed (use 0 in simp)
  qed
qed simp

lemma ranks_flat: "sorted (prev # ps) \<Longrightarrow> i < length ps \<Longrightarrow> ps ! i \<le> prev \<Longrightarrow> ranks prev pr ps ! i = pr"
proof (induction ps arbitrary: prev i)
  case (Cons p ps)
  show ?case
  proof (cases i)
    case (Suc k)
    then have k: "k < length ps" using Cons.prems by simp
    then have "p \<le> ps ! k" "ps ! k \<le> prev" using Suc Cons.prems by simp_all
    moreover have "prev \<le> p" using Cons.prems(1) by simp
    ultimately show ?thesis using Suc Cons.IH [OF _ k, of p] Cons.prems(1) by (simp add: Let_def)
  qed (use Cons.prems in \<open>simp add: Let_def\<close>)
qed simp

lemma same_rank:
  "sorted ps \<Longrightarrow> i \<le> j \<Longrightarrow> j < length ps \<Longrightarrow> ps ! j \<le> ps ! i \<Longrightarrow> ranks prev pr ps ! i = ranks prev pr ps ! j"
proof (induction ps arbitrary: prev pr i j)
  case (Cons p ps)
  show ?case
  proof (cases i)
    case (Suc k)
    then obtain l where "j = Suc l" using Cons.prems(2) by (cases j) auto
    then show ?thesis using Suc Cons by (simp add: Let_def)
  next
    case 0
    show ?thesis
    proof (cases j)
      case (Suc l)
      then show ?thesis using 0 Cons.prems ranks_flat [of p ps l "if prev < p then pr + 1 else pr"] by (simp add: Let_def)
    qed (use 0 in simp)
  qed
qed simp

lemma prio_walk:
  assumes "ts_normal prev" "\<forall>t \<in> set ts. period_normal s t" "0 \<le> pr" "pr + int (length ts) \<le> 99"
    "pr = 0 \<longrightarrow> (\<forall>t \<in> set ts. ts_ns prev < period_ns s t)"
    and "distinct (concat (map (threads s) ts))" "\<forall>t \<in> set ts. \<forall>u \<in> set (threads s t). fresh s u"
  shows "\<exists>pr' prev' s'. fold prio_step ts (pr, prev, s) = (pr', prev', s') \<and>
    (\<forall>k < length ts. \<forall>u \<in> set (threads s (ts ! k)). has_prio (ranks (ts_ns prev) pr (map (period_ns s) ts) ! k) (tasks s' u)) \<and>
    (\<forall>u. u \<notin> set (concat (map (threads s) ts)) \<longrightarrow> tasks s' u = tasks s u)"
  using assms
proof (induction ts arbitrary: pr prev s)
  case (Cons t ts)
  define q where "q = (if ts_ns prev < period_ns s t then pr + 1 else pr)"
  have th: "distinct (threads s t)" "\<forall>u \<in> set (threads s t). fresh s u"
    and disj: "\<And>u x. x \<in> set ts \<Longrightarrow> u \<in> set (threads s x) \<Longrightarrow> u \<notin> set (threads s t)"
    using Cons.prems(6,7) by auto
  have "period_normal s t" "pr < 99" "pr = 0 \<longrightarrow> ts_ns prev < period_ns s t" using Cons.prems(2,4,5) by simp_all
  from prio_step_spec [OF Cons.prems(1) this(1) Cons.prems(3) this(2,3) th] obtain s1 where
    s1: "prio_step t (pr, prev, s) = (q, time_period (tasks s t), s1)"
    "\<forall>u \<in> set (threads s t). has_prio q (tasks s1 u)" "\<forall>u. u \<notin> set (threads s t) \<longrightarrow> tasks s1 u = tasks s u"
    unfolding q_def by blast
  note f = prio_step_frame [OF s1(1)]
  have same: "threads s1 = threads s" "period_ns s1 = period_ns s" "period_normal s1 = period_normal s"
    by (simp_all add: fun_eq_iff threads_def period_ns_def period_normal_def f)
  have "\<exists>pr' prev' s'. fold prio_step ts (q, time_period (tasks s t), s1) = (pr', prev', s') \<and>
    (\<forall>k < length ts. \<forall>u \<in> set (threads s1 (ts ! k)).
       has_prio (ranks (ts_ns (time_period (tasks s t))) q (map (period_ns s1) ts) ! k) (tasks s' u)) \<and>
    (\<forall>u. u \<notin> set (concat (map (threads s1) ts)) \<longrightarrow> tasks s' u = tasks s1 u)"
  proof (rule Cons.IH)
    show "ts_normal (time_period (tasks s t))" using Cons.prems(2) by (simp add: period_normal_def)
    show "0 \<le> q" "q + int (length ts) \<le> 99" using Cons.prems(3,4) by (simp_all add: q_def)
    show "q = 0 \<longrightarrow> (\<forall>x \<in> set ts. ts_ns (time_period (tasks s t)) < period_ns s1 x)"
      using Cons.prems(3,5) by (auto simp: q_def)
    show "\<forall>x \<in> set ts. \<forall>u \<in> set (threads s1 x). fresh s1 u"
    proof (intro ballI)
      fix x u assume x: "x \<in> set ts" "u \<in> set (threads s1 x)"
      then have "u \<notin> set (threads s t)" using disj by (simp add: same)
      then have "tasks s1 u = tasks s u" using s1(3) by blast
      then show "fresh s1 u" using Cons.prems(7) x by (simp add: fresh_def same)
    qed
  qed (use Cons.prems in \<open>simp_all add: same\<close>)
  then obtain pr' prev' s' where s': "fold prio_step ts (q, time_period (tasks s t), s1) = (pr', prev', s')"
    "\<forall>k < length ts. \<forall>u \<in> set (threads s (ts ! k)). has_prio (ranks (period_ns s t) q (map (period_ns s) ts) ! k) (tasks s' u)"
    "\<forall>u. u \<notin> set (concat (map (threads s) ts)) \<longrightarrow> tasks s' u = tasks s1 u" by (auto simp: same period_ns_def)
  show ?case
  proof (intro exI conjI allI impI ballI)
    show "fold prio_step (t # ts) (pr, prev, s) = (pr', prev', s')" using s1(1) s'(1) by simp
    fix k u assume k: "k < length (t # ts)" "u \<in> set (threads s ((t # ts) ! k))"
    show "has_prio (ranks (ts_ns prev) pr (map (period_ns s) (t # ts)) ! k) (tasks s' u)"
    proof (cases k)
      case 0
      then have "u \<notin> set (concat (map (threads s) ts))" using k disj by fastforce
      then show ?thesis using 0 k s1(2) s'(3) by (simp add: Let_def q_def)
    next
      case (Suc l)
      then show ?thesis using k s'(2) by (simp add: Let_def q_def)
    qed
  next
    fix u assume "u \<notin> set (concat (map (threads s) (t # ts)))"
    then show "tasks s' u = tasks s u" using s'(3) s1(3) by simp
  qed
qed simp



text \<open>
  C35. Priorities are assigned once. The new \<open>rt_priority\<close> is stored before the scheduler is asked,
  which therefore sees nothing to change for a thread that is already \<open>SCHED_FIFO\<close>: the thread
  reports its new real-time priority and keeps running at its old one.
\<close>

theorem set_thread_prio_stale:
  assumes "policy (tasks s t) = SCHED_FIFO" "\<not> is_stop (tasks s t)" "1 \<le> pr" "pr \<le> 99"
  shows "rt_priority (tasks (set_thread_prio pr t s) t) = pr \<and>
     prio (tasks (set_thread_prio pr t s) t) = prio (tasks s t) \<and>
     normal_prio (tasks (set_thread_prio pr t s) t) = normal_prio (tasks s t)"
proof -
  let ?s = "upd_task t (\<lambda>p. p\<lparr>rt_priority := pr\<rparr>) s"
  have "sched_setscheduler_nocheck t SCHED_FIFO pr ?s = (0, ?s)"
    using assms sched_setscheduler_fifo [of pr ?s t] by simp
  then show ?thesis by (simp add: set_thread_prio_def set_tsk_need_resched_def Let_def)
qed

theorem set_thread_prio_stale_witness:
  "prio (tasks (set_thread_prio 7 5 (upd_task 5 (\<lambda>p. p\<lparr>policy := SCHED_FIFO, prio := 96\<rparr>) boot)) 5) = 96"
  using set_thread_prio_stale [of "upd_task 5 (\<lambda>p. p\<lparr>policy := SCHED_FIFO, prio := 96\<rparr>) boot" 5 7]
  by (simp add: boot_def plain_task_def)

end
