(* ===== verification/Syscalls.thy ===== *)
theory Syscalls
  imports Accounting Priorities BinPacking
begin

unbundle bit_operations_syntax

text \<open>
  The system calls that give a process its budget and period and take them away again
  (\<open>setProcessBudget/\<close>, \<open>cancelBudget/\<close>, \<open>waitUntilNextPeriod/\<close>, \<open>startScheduling/\<close>,
  \<open>stopScheduling/\<close>, \<open>setPMScheme/\<close>, \<open>setGlobalSysClock/\<close>), and what \<open>do_exit\<close>
  (\<open>kernel/exit.c\<close>) does for a task that has a budget.

  The result is the return value and the state; \<open>None\<close> is a fault (a policy that does not exist,
  a list that is not initialised) or a call that never returns (a lock that is already held, a
  timer whose callback keeps running). Reading the frequency back for the log is left out, and
  so are the results of \<open>cpufreq_driver_target\<close>, which are only logged.
\<close>

subsection \<open>setProcessBudget\<close>

definition positive_time :: "timespec \<Rightarrow> bool" where
  "positive_time ts \<longleftrightarrow> 0 <s tv_sec ts \<or> 0 <s tv_nsec ts"

text \<open>The timers: cancelled when they were used before, initialised otherwise.\<close>

definition reset_period_timer :: "tid \<Rightarrow> kst \<Rightarrow> kst option" where
  "reset_period_timer t s =
     (if positive_time (time_period (tasks s t)) then do {
        (r, h) \<leftarrow> hrtimer_cancel (period_timer (tasks s t));
        Some (upd_task t (\<lambda>p. p\<lparr>period_timer := h\<rparr>) s)
      }
      else Some (upd_task t (\<lambda>p. p\<lparr>period_timer := (hrtimer_init (period_timer p))\<lparr>h_fn := PeriodFn\<rparr>\<rparr>) s))"

definition reset_budget_timer :: "tid \<Rightarrow> kst \<Rightarrow> kst option" where
  "reset_budget_timer t s =
     (if positive_time (budget_time (tasks s t)) then do {
        (r, h) \<leftarrow> hrtimer_cancel (budget_timer (tasks s t));
        Some (upd_task t (\<lambda>p. p\<lparr>budget_timer := h\<rparr>) s)
      }
      else Some (upd_task t (\<lambda>p. p\<lparr>budget_timer := (hrtimer_init (budget_timer p))\<lparr>h_fn := BudgetFn\<rparr>\<rparr>) s))"

definition set_budget_flags :: "tid \<Rightarrow> int \<Rightarrow> kst \<Rightarrow> kst" where
  "set_budget_flags t v s = each_thread t (\<lambda>u. upd_task u (\<lambda>p. p\<lparr>is_budget_set := v\<rparr>)) s"

definition set_parameters :: "tid \<Rightarrow> timespec \<Rightarrow> timespec \<Rightarrow> kst \<Rightarrow> kst option" where
  "set_parameters t task_budget per s =
     (let s = (if is_bin_packing_set s = 0
               then set_budget_flags t 1 (upd_task t (\<lambda>p. p\<lparr>is_budget_set := 1\<rparr>) s) else s);
          s = upd_task t (\<lambda>p. p\<lparr>time_period := per, min_budget_time := task_budget\<rparr>) s;
          s = (if is_bin_packing_set s = 1 then upd_task t (\<lambda>p. p\<lparr>budget_time := task_budget\<rparr>) s else s)
      in add_periodic_task t s)"

text \<open>The \<open>switch\<close> over the power scheme; the result is \<open>ret_freq\<close>.\<close>

definition start_task :: "tid \<Rightarrow> u32 \<Rightarrow> cpufreq_policy \<Rightarrow> kst \<Rightarrow> (u32 \<times> kst) option" where
  "start_task t bud pol s =
     (if power_scheme s = 0 then do {
        let temp_time = bud div (pol_cur pol div 1000) * 1000;
        let s = upd_task t (\<lambda>p. p\<lparr>budget_time := ns_to_timespec (ucast temp_time)\<rparr>) s;
        Some (0, restart_period_timer t s)
      }
      else if power_scheme s = 1 then do {
        list \<leftarrow> make_task_ct_struct s;
        (sysclock_freq, s) \<leftarrow> sysclock (cpuinfo_max_freq pol div 1000) list s;
        apply_sysclock sysclock_freq (cpuinfo_max_freq pol) s
      }
      else if power_scheme s = 2 then do {
        list \<leftarrow> make_task_ct_struct s;
        (sysclock_freq, s) \<leftarrow> sysclock (cpuinfo_max_freq pol div 1000) list s;
        s \<leftarrow> pmclock list s;
        (r, s) \<leftarrow> apply_pmclock (cpuinfo_max_freq pol) s;
        Some (0, s)
      }
      else Some (0, s))"

text \<open>What happens once the task is found, up to the unlocking.\<close>

definition give_budget :: "tid \<Rightarrow> u32 \<Rightarrow> timespec \<Rightarrow> timespec \<Rightarrow> cpufreq_policy \<Rightarrow> kst \<Rightarrow> (u32 \<times> kst) option" where
  "give_budget t bud task_budget per pol s = do {
     s \<leftarrow> (if is_budget_set (tasks s t) = 1 then del_periodic_task t s else Some s);
     s \<leftarrow> reset_period_timer t s;
     s \<leftarrow> reset_budget_timer t s;
     s \<leftarrow> set_parameters t task_budget per s;
     if is_bin_packing_set s = 0 then do {
       (r, s) \<leftarrow> set_rt_priorities s;
       start_task t bud pol s
     }
     else Some (0, s)
   }"

definition sys_setProcessBudget :: "int \<Rightarrow> u32 \<Rightarrow> timespec \<Rightarrow> kst \<Rightarrow> (int \<times> kst) option" where
  "sys_setProcessBudget nr bud per s =
     (let (pol, s) = cpufreq_cpu_get 0 s in do {
        pol \<leftarrow> pol;
        let max_frequency = cpuinfo_max_freq pol div 1000;
        if \<not> positive_time per then Some (- EINVAL, s)
        else if nr \<le> 0 then Some (- EINVAL, s)
        else do {
          s \<leftarrow> write_lock s;
          let temp_time = bud div max_frequency * 1000;
          let task_budget = ns_to_timespec (ucast temp_time);
          if 0 \<le>s timespec_compare task_budget per then Some (- EINVAL, write_unlock s)
          else do {
            adm \<leftarrow> (if is_bin_packing_set s = 0 then check_admission task_budget per s else Some 1);
            if adm = 0 then Some (- EPERM, write_unlock s)
            else case find_task_by_vpid nr s of
              None \<Rightarrow> Some (- ESRCH, write_unlock s)
            | Some t \<Rightarrow> do {
                (ret_freq, s) \<leftarrow> give_budget t bud task_budget per pol s;
                let s = write_unlock s;
                let s = (if is_bin_packing_set s = 0 \<and> power_scheme s = 1
                         then cpufreq_driver_target 0 ret_freq (set_policy_limits 0 1300000 51000 s) else s);
                Some (0, s)
              }
          }
        }
      })"

subsection \<open>cancelBudget\<close>

definition make_normal :: "tid \<Rightarrow> kst \<Rightarrow> kst" where
  "make_normal t s =
     each_thread t (\<lambda>u s.
       let s = upd_task u (\<lambda>p. p\<lparr>is_budget_set := 0\<rparr>) s
       in snd (sched_setscheduler_nocheck u SCHED_NORMAL 0 s)) s"

definition cancel_timers :: "tid \<Rightarrow> kst \<Rightarrow> kst option" where
  "cancel_timers t s = do {
     s \<leftarrow> (if positive_time (time_period (tasks s t)) then do {
             (r, h) \<leftarrow> hrtimer_cancel (period_timer (tasks s t));
             Some (upd_task t (\<lambda>p. p\<lparr>period_timer := h\<rparr>) s)
           } else Some s);
     let s = upd_task t (\<lambda>p. p\<lparr>time_period := mk_ts (- 1) (- 1)\<rparr>) s;
     s \<leftarrow> (if positive_time (budget_time (tasks s t)) then do {
             (r, h) \<leftarrow> hrtimer_cancel (budget_timer (tasks s t));
             Some (upd_task t (\<lambda>p. p\<lparr>budget_timer := h\<rparr>) s)
           } else Some s);
     Some (upd_task t (\<lambda>p. p\<lparr>budget_time := mk_ts (- 1) (- 1)\<rparr>) s)
   }"

text \<open>The new frequency for the tasks that stay; with no scheme selected it is asked for 0.\<close>

definition readjust :: "cpufreq_policy \<Rightarrow> kst \<Rightarrow> (u32 \<times> kst) option" where
  "readjust pol s = do {
     (sysclock_freq, s) \<leftarrow>
       (if power_scheme s = 1 then do {
          list \<leftarrow> make_task_ct_struct s;
          sysclock (cpuinfo_max_freq pol div 1000) list s
        }
        else if power_scheme s = 2 then do {
          list \<leftarrow> make_task_ct_struct s;
          (f, s) \<leftarrow> sysclock (cpuinfo_max_freq pol div 1000) list s;
          s \<leftarrow> pmclock list s;
          Some (f, s)
        }
        else Some (0, s));
     apply_sysclock sysclock_freq (cpuinfo_max_freq pol) s
   }"

definition sys_cancelBudget :: "int \<Rightarrow> kst \<Rightarrow> (int \<times> kst) option" where
  "sys_cancelBudget nr s =
     (let (pol, s) = cpufreq_cpu_get 0 s in do {
        pol \<leftarrow> pol;
        if nr \<le> 0 then Some (- EINVAL, s)
        else do {
          s \<leftarrow> write_lock s;
          case find_task_by_vpid nr s of
            None \<Rightarrow> Some (- ESRCH, write_unlock s)
          | Some t \<Rightarrow> do {
              let s = make_normal t s;
              s \<leftarrow> cancel_timers t s;
              s \<leftarrow> del_periodic_task t s;
              s \<leftarrow> (if is_bin_packing_set s = 1 then do {
                      s \<leftarrow> del_task_cpu t (nat (cpu_no (tasks s t))) s;
                      (r, s) \<leftarrow> set_rt_priorities_per_cpu (nat (cpu_no (tasks s t))) s;
                      Some s
                    } else Some s);
              let s = each_thread t (\<lambda>u s. snd (wake_up_process u s)) s;
              (ret_freq, s) \<leftarrow> (if is_bin_packing_set s = 0 then do {
                      (r, s) \<leftarrow> set_rt_priorities s;
                      readjust pol s
                    } else Some (0, s));
              let s = write_unlock s;
              let s = (if power_scheme s = 1 \<and> is_bin_packing_set s = 0
                       then cpufreq_driver_target 0 ret_freq s else s);
              Some (0, s)
            }
        }
      })"

subsection \<open>waitUntilNextPeriod\<close>

text \<open>Up to the call of \<open>schedule\<close>: \<open>Inl\<close> is a return before it.\<close>

definition wait_prepare :: "int \<Rightarrow> kst \<Rightarrow> (int \<times> kst + kst) option" where
  "wait_prepare nr s =
     (if nr \<le> 0 then Some (Inl (- EINVAL, s))
      else do {
        s \<leftarrow> write_lock s;
        case find_task_by_vpid nr s of
          None \<Rightarrow> Some (Inl (- ESRCH, write_unlock s))
        | Some t \<Rightarrow>
            if is_budget_set (tasks s t) = 0 then Some (Inl (- EINVAL, write_unlock s))
            else if tv_sec (budget_time (tasks s t)) = - 1 \<and> tv_nsec (budget_time (tasks s t)) = - 1
            then Some (Inl (- EINVAL, write_unlock s))
            else
              let s = upd_task t (\<lambda>p. p\<lparr>compute_time := budget_time p\<rparr>) s;
                  s = write_unlock s;
                  s = each_thread t (\<lambda>u s. set_tsk_need_resched u (set_task_state u TASK_UNINTERRUPTIBLE s)) s
              in Some (Inr s)
      })"

text \<open>The arguments of \<open>schedule\<close> are what the run queue and the signals decide.\<close>

definition sys_waitUntilNextPeriod ::
    "int \<Rightarrow> bool \<Rightarrow> tid \<Rightarrow> (bool \<times> bool \<times> tid) list \<Rightarrow> sst \<Rightarrow> (int \<times> sst) option" where
  "sys_waitUntilNextPeriod nr sig next nexts S = do {
     r \<leftarrow> wait_prepare nr (ks S);
     case r of
       Inl (e, s) \<Rightarrow> Some (e, S\<lparr>ks := s\<rparr>)
     | Inr s \<Rightarrow> do { S \<leftarrow> schedule sig False next nexts (S\<lparr>ks := s\<rparr>); Some (0, S) }
   }"

subsection \<open>startScheduling\<close>

definition start_cpu_global :: "u32 \<Rightarrow> nat \<Rightarrow> u32 \<times> kst \<Rightarrow> (u32 \<times> kst) option" where
  "start_cpu_global max_frequency i = (\<lambda>(max_sysclock_freq, s).
     if 0 < per_cpu_list_size s i then do {
       ts \<leftarrow> cpu_tasks i s;
       let s = fold (\<lambda>t. set_budget_flags t 1) ts s;
       (r, s) \<leftarrow> set_rt_priorities_per_cpu i s;
       list \<leftarrow> make_task_ct_struct_per_cpu i s;
       (f, s) \<leftarrow> sysclock_per_cpu max_frequency list (per_cpu_list_size s i) s;
       Some (if max_sysclock_freq < f then f else max_sysclock_freq, s)
     }
     else Some (max_sysclock_freq, s))"

definition start_cpu :: "nat \<Rightarrow> kst \<Rightarrow> kst option" where
  "start_cpu i s =
     (if 0 < per_cpu_list_size s i then do {
        ts \<leftarrow> cpu_tasks i s;
        let s = fold (\<lambda>t s. restart_period_timer t (set_budget_flags t 1 s)) ts s;
        (r, s) \<leftarrow> set_rt_priorities_per_cpu i s;
        Some s
      }
      else Some s)"

definition set_cpu_freq :: "u32 \<Rightarrow> nat \<Rightarrow> kst \<Rightarrow> kst option" where
  "set_cpu_freq freq i s =
     (let (pol, s) = cpufreq_cpu_get i s in do {
        pol \<leftarrow> pol;
        Some (cpufreq_driver_target i freq (set_policy_limits i 1300000 51000 s))
      })"

definition sys_startScheduling :: "kst \<Rightarrow> (int \<times> kst) option" where
  "sys_startScheduling s =
     (let (pol, s) = cpufreq_cpu_get 0 s in do {
        pol \<leftarrow> pol;
        s \<leftarrow> write_lock s;
        if global_sysclock s = 1 then do {
          (f, s) \<leftarrow> foldo (start_cpu_global (cpuinfo_max_freq pol div 1000)) [0..<4] (0, s);
          (ret_freq, s) \<leftarrow> apply_sysclock f (cpuinfo_max_freq pol) s;
          let s = write_unlock s;
          s \<leftarrow> foldo (set_cpu_freq ret_freq) [0..<4] s;
          Some (0, s)
        }
        else do {
          s \<leftarrow> foldo start_cpu [0..<4] s;
          Some (0, write_unlock s)
        }
      })"

subsection \<open>stopScheduling and the flags\<close>

definition stop_task :: "tid \<Rightarrow> kst \<Rightarrow> kst" where
  "stop_task t s =
     (let s = upd_task t (\<lambda>p. p\<lparr>budget_timer := snd (hrtimer_try_to_cancel (budget_timer p))\<rparr>) s;
          s = upd_task t (\<lambda>p. p\<lparr>period_timer := snd (hrtimer_try_to_cancel (period_timer p))\<rparr>) s;
          s = upd_task t (\<lambda>p. p\<lparr>compute_time := mk_ts 0 0\<rparr>) s
      in each_thread t (\<lambda>u s. snd (wake_up_process u s)) s)"

definition sys_stopScheduling :: "kst \<Rightarrow> (int \<times> kst) option" where
  "sys_stopScheduling s =
     (let s = s\<lparr>is_bin_packing_set := 1\<rparr> in
      if periodic_tasks_size s = 0 then Some (0, s)
      else do {
        s \<leftarrow> write_lock s;
        ts \<leftarrow> periodic_tasks s;
        let s = fold stop_task ts s;
        s \<leftarrow> clear_cpu_lists s;
        Some (0, write_unlock s)
      })"

definition sys_setPMScheme :: "int \<Rightarrow> kst \<Rightarrow> int \<times> kst" where
  "sys_setPMScheme pm_scheme s =
     (if pm_scheme < 0 \<or> 2 < pm_scheme then (- EINVAL, s) else (0, s\<lparr>power_scheme := pm_scheme\<rparr>))"

definition sys_setGlobalSysClock :: "kst \<Rightarrow> int \<times> kst" where
  "sys_setGlobalSysClock s = (0, s\<lparr>global_sysclock := 1\<rparr>)"

subsection \<open>do_exit\<close>

definition exit_leader :: "cpufreq_policy \<Rightarrow> tid \<Rightarrow> kst \<Rightarrow> (u32 \<times> kst) option" where
  "exit_leader pol t s = do {
     let s = set_budget_flags t 0 s;
     (r, h) \<leftarrow> hrtimer_cancel (period_timer (tasks s t));
     let s = upd_task t (\<lambda>p. p\<lparr>period_timer := h, budget_timer := snd (hrtimer_try_to_cancel (budget_timer p))\<rparr>) s;
     s \<leftarrow> del_periodic_task t s;
     s \<leftarrow> (if is_bin_packing_set s = 1 then do {
             s \<leftarrow> del_task_cpu t (nat (cpu_no (tasks s t))) s;
             (r, s) \<leftarrow> set_rt_priorities_per_cpu (nat (cpu_no (tasks s t))) s;
             Some s
           } else Some s);
     s \<leftarrow> (if is_bin_packing_set s = 0 then do { (r, s) \<leftarrow> set_rt_priorities s; Some s } else Some s);
     if power_scheme s = 1 \<and> is_bin_packing_set s = 0 then do {
       list \<leftarrow> make_task_ct_struct s;
       (f, s) \<leftarrow> sysclock (cpuinfo_max_freq pol div 1000) list s;
       apply_sysclock f (cpuinfo_max_freq pol) s
     }
     else if power_scheme s = 2 \<and> is_bin_packing_set s = 0 then do {
       list \<leftarrow> make_task_ct_struct s;
       (f, s) \<leftarrow> sysclock (cpuinfo_max_freq pol div 1000) list s;
       s \<leftarrow> pmclock list s;
       Some (0, s)
     }
     else Some (0, s)
   }"

definition do_exit_rt :: "kst \<Rightarrow> kst option" where
  "do_exit_rt s =
     (let tsk = current s;
          (pol, s) = cpufreq_cpu_get 0 s
      in do {
        pol \<leftarrow> pol;
        if is_budget_set (tasks s tsk) = 1 then do {
          s \<leftarrow> write_lock s;
          let s = upd_task tsk (\<lambda>p. p\<lparr>is_budget_set := 0\<rparr>) s;
          let leader = (pid (tasks s tsk) = tgid (tasks s tsk));
          (ret_freq, s) \<leftarrow> (if leader then exit_leader pol tsk s else Some (0, s));
          let s = write_unlock s;
          Some (if leader \<and> power_scheme s = 1 \<and> is_bin_packing_set s = 0
                then cpufreq_driver_target 0 ret_freq s else s)
        }
        else Some s
      })"

end
