(* ===== verification/Waiting.thy ===== *)
theory Waiting
  imports Isolation Syscalls
begin

text \<open>
  What \<open>sys_waitUntilNextPeriod\<close> (\<open>waitUntilNextPeriod/\<close>) means for the process that calls it, over the runs
  of a processor of \<open>Isolation\<close>.
\<close>

lemma fold_sleep:
  "tasks (fold (\<lambda>u s. set_tsk_need_resched u (set_task_state u v s)) us s) t =
     (if t \<in> set us then (tasks s t)\<lparr>state := v, need_resched := True\<rparr> else tasks s t)"
  "params (fold (\<lambda>u s. set_tsk_need_resched u (set_task_state u v s)) us s) = params s"
  "current (fold (\<lambda>u s. set_tsk_need_resched u (set_task_state u v s)) us s) = current s"
  by (induction us arbitrary: s) (auto simp: set_tsk_need_resched_def set_task_state_def)

lemma wait_prepare_effect:
  assumes "wait_prepare nr s = Some (Inr s1)" "find_task_by_vpid nr s = Some l" "l \<notin> set (thread_group s l)"
  shows "params s1 = params s" "current s1 = current s"
    "tasks s1 l = (tasks s l)\<lparr>compute_time := budget_time (tasks s l), state := TASK_UNINTERRUPTIBLE, need_resched := True\<rparr>"
    "u \<in> set (thread_group s l) \<Longrightarrow> state (tasks s1 u) = TASK_UNINTERRUPTIBLE \<and> need_resched (tasks s1 u)"
proof -
  define us where "us = l # thread_group s l"
  define s0 where "s0 = write_unlock (upd_task l (\<lambda>p. p\<lparr>compute_time := budget_time p\<rparr>) (s\<lparr>tasklist_lock := Writer\<rparr>))"
  have p: "params (s\<lparr>tasklist_lock := x\<rparr>) = params s" for x s by (simp add: params_def)
  have f: "find_task_by_vpid nr (s\<lparr>tasklist_lock := Writer\<rparr>) = Some l" using assms(2) by (simp add: find_task_by_vpid_def)
  have "thread_group s0 = thread_group s" by (simp add: s0_def write_unlock_def)
  then have s1: "s1 = fold (\<lambda>u s. set_tsk_need_resched u (set_task_state u TASK_UNINTERRUPTIBLE s)) us s0"
    using assms(1) f unfolding wait_prepare_def write_lock_def s0_def us_def each_thread_def
    by (auto simp: Let_def split: if_splits)
  show "params s1 = params s" unfolding s1 fold_sleep(2) by (simp add: s0_def write_unlock_def p)
  show "current s1 = current s" unfolding s1 fold_sleep(3) by (simp add: s0_def write_unlock_def)
  show "tasks s1 l = (tasks s l)\<lparr>compute_time := budget_time (tasks s l), state := TASK_UNINTERRUPTIBLE, need_resched := True\<rparr>"
    unfolding s1 fold_sleep(1) by (simp add: us_def s0_def write_unlock_def)
  show "u \<in> set (thread_group s l) \<Longrightarrow> state (tasks s1 u) = TASK_UNINTERRUPTIBLE \<and> need_resched (tasks s1 u)"
    unfolding s1 fold_sleep(1) by (simp add: us_def)
qed


definition waiting_run :: "action list" where
  "waiting_run = [Switch False True False 5, Switch False False False 1, Tick (mk_ts 0 600000000) 600000000, Fires PeriodTimer 5]"


end
