(* ===== verification/Budgets.thy ===== *)
theory Budgets
  imports Syscalls
begin

unbundle bit_operations_syntax

text \<open>
  What the budget system calls of \<open>Syscalls\<close> guarantee: giving a budget, taking it away, waiting
  for the next period. The first part says what waking threads and assigning priorities leave
  alone, so that the lists, timers and parameters are followed through the whole call.
\<close>

subsection \<open>Changes the budgets do not see\<close>

text \<open>
  Waking a task, changing its policy or its priority leaves everything the budgets, the timers,
  the lists and the logs are made of: the global state and the \<open>rt_view\<close> of every task.
\<close>

definition rt_view where
  "rt_view p = (compute_time p, exec_time p, budget_time p, budget_timer p, time_period p, is_budget_set p,
     task_spin_lock p, period_timer p, min_budget_time p, pid p, tgid p, group_leader p, user_pid p, buf p,
     is_log_enabled p, buf_offset p, no_data_points p, pmclock_freq p, alpha p, cpu_no p)"

definition calm :: "kst \<Rightarrow> kst \<Rightarrow> bool" where
  "calm s s' \<longleftrightarrow> s' = s\<lparr>tasks := tasks s'\<rparr> \<and> (\<forall>u. rt_view (tasks s' u) = rt_view (tasks s u))"

lemma calm_refl [simp]: "calm s s"
  by (simp add: calm_def)

lemma calm_trans: "calm s s1 \<Longrightarrow> calm s1 s2 \<Longrightarrow> calm s s2"
  unfolding calm_def by (elim conjE, intro conjI) (metis kst.update_convs(1) kst.surjective, simp)

lemma calm_if: "calm s x \<Longrightarrow> calm s y \<Longrightarrow> calm s (if c then x else y)"
  by simp

lemma calm_upd: "(\<And>p. rt_view (f p) = rt_view p) \<Longrightarrow> calm s (upd_task t f s)"
  by (simp add: calm_def upd_task_def)

lemma calm_fold: "(\<And>x s. calm s (f x s)) \<Longrightarrow> calm s (fold f xs s)"
  by (induction xs arbitrary: s) (auto intro: calm_trans)

lemma calmD:
  assumes "calm s s'"
  shows "lists s' = lists s" "periodic_tasks_size s' = periodic_tasks_size s" "per_cpu_list_size s' = per_cpu_list_size s"
    "tasklist_lock s' = tasklist_lock s" "mono_clock s' = mono_clock s" "power_scheme s' = power_scheme s"
    "is_bin_packing_set s' = is_bin_packing_set s" "thread_group s' = thread_group s" "cpufreq s' = cpufreq s"
    "freq_table s' = freq_table s" "cpu_util s' = cpu_util s" "pid_task s' = pid_task s" "current s' = current s"
    "time_period (tasks s' u) = time_period (tasks s u)" "budget_time (tasks s' u) = budget_time (tasks s u)"
    "min_budget_time (tasks s' u) = min_budget_time (tasks s u)" "is_budget_set (tasks s' u) = is_budget_set (tasks s u)"
    "period_timer (tasks s' u) = period_timer (tasks s u)" "budget_timer (tasks s' u) = budget_timer (tasks s u)"
    "compute_time (tasks s' u) = compute_time (tasks s u)" "task_spin_lock (tasks s' u) = task_spin_lock (tasks s u)"
proof -
  have e: "s' = s\<lparr>tasks := tasks s'\<rparr>" and v: "rt_view (tasks s' u) = rt_view (tasks s u)"
    using assms by (simp_all add: calm_def)
  show "lists s' = lists s" "periodic_tasks_size s' = periodic_tasks_size s" "per_cpu_list_size s' = per_cpu_list_size s"
    "tasklist_lock s' = tasklist_lock s" "mono_clock s' = mono_clock s" "power_scheme s' = power_scheme s"
    "is_bin_packing_set s' = is_bin_packing_set s" "thread_group s' = thread_group s" "cpufreq s' = cpufreq s"
    "freq_table s' = freq_table s" "cpu_util s' = cpu_util s" "pid_task s' = pid_task s" "current s' = current s"
    by (subst e, simp)+
  show "time_period (tasks s' u) = time_period (tasks s u)" "budget_time (tasks s' u) = budget_time (tasks s u)"
    "min_budget_time (tasks s' u) = min_budget_time (tasks s u)" "is_budget_set (tasks s' u) = is_budget_set (tasks s u)"
    "period_timer (tasks s' u) = period_timer (tasks s u)" "budget_timer (tasks s' u) = budget_timer (tasks s u)"
    "compute_time (tasks s' u) = compute_time (tasks s u)" "task_spin_lock (tasks s' u) = task_spin_lock (tasks s u)"
    using v by (simp_all add: rt_view_def)
qed

lemma calm_wake: "calm s (snd (wake_up_process t s))"
  by (simp add: wake_up_process_simps calm_upd rt_view_def)

lemma calm_setscheduler: "calm s (snd (sched_setscheduler_nocheck t pol pr s))"
proof -
  have c: "calm s (upd_task t (\<lambda>p. setscheduler (p\<lparr>sched_reset_on_fork := b\<rparr>) q r) s)" for b q r
    by (rule calm_upd) (simp add: rt_view_def setscheduler_def Let_def)
  show ?thesis
    unfolding sched_setscheduler_nocheck_def Let_def if_distrib [of snd] snd_conv by (intro calm_if calm_refl c)
qed

lemma calm_set_thread_prio: "calm s (set_thread_prio pr t s)"
  unfolding set_thread_prio_def Let_def set_tsk_need_resched_def
  by (rule calm_trans, rule calm_trans [OF calm_upd calm_setscheduler]; (rule calm_upd)?; simp add: rt_view_def)

lemma calm_prio_step: "calm s (snd (snd (prio_step t (pr, prev, s))))"
proof -
  have "calm s (each_thread t (set_thread_prio q) s)" for q
    unfolding each_thread_def by (intro calm_fold calm_set_thread_prio)
  then show ?thesis by (simp add: prio_step_def Let_def)
qed

lemma calm_prio_walk: "calm s (snd (snd (fold prio_step ts (pr, prev, s))))"
proof (induction ts arbitrary: pr prev s)
  case (Cons t ts)
  obtain pr' prev' s' where p: "prio_step t (pr, prev, s) = (pr', prev', s')" by (cases "prio_step t (pr, prev, s)")
  have "calm s s'" using calm_prio_step [of s t pr prev] by (simp add: p)
  then show ?case using Cons [of s' pr' prev'] by (simp add: p) (rule calm_trans)
qed simp

lemma calm_set_rt_priorities:
  "set_rt_priorities s = Some (r, s') \<Longrightarrow> calm s s'" "set_rt_priorities_per_cpu c s = Some (r, s') \<Longrightarrow> calm s s'"
proof -
  have "calm s (case fold prio_step ts (0, mk_ts 0 0, s) of (_, _, s) \<Rightarrow> s)" for ts
    using calm_prio_walk [of s ts 0 "mk_ts 0 0"] by (simp add: case_prod_beta)
  then show "set_rt_priorities s = Some (r, s') \<Longrightarrow> calm s s'" "set_rt_priorities_per_cpu c s = Some (r, s') \<Longrightarrow> calm s s'"
    by (auto simp: set_rt_priorities_def set_rt_priorities_per_cpu_def bind_eq_Some_conv case_prod_beta split: if_splits)
qed

lemma set_rt_priorities_defined:
  "periodic_inv s ts \<Longrightarrow> \<exists>r s'. set_rt_priorities s = Some (r, s')"
  using periodic_inv_tasks [of s ts]
  by (cases "ts = []") (auto simp: set_rt_priorities_def periodic_inv_def case_prod_beta)

lemma calm_periodic_inv: "calm s s' \<Longrightarrow> periodic_inv s ts \<Longrightarrow> periodic_inv s' ts"
  by (erule periodic_inv_frame) (simp_all add: calmD)
subsection \<open>Giving a task its budget\<close>

lemma periodic_inv_upd:
  "periodic_inv s ts \<Longrightarrow> t \<notin> set ts \<or> (\<forall>p. time_period (f p) = time_period p) \<Longrightarrow> periodic_inv (upd_task t f s) ts"
  by (erule periodic_inv_frame) auto

lemma each_budget_flag:
  "set_budget_flags t v s = s\<lparr>tasks := (\<lambda>u. if u \<in> set (threads s t) then (tasks s u)\<lparr>is_budget_set := v\<rparr> else tasks s u)\<rparr>"
proof -
  have "fold (\<lambda>u. upd_task u (\<lambda>p. p\<lparr>is_budget_set := v\<rparr>)) us s =
      s\<lparr>tasks := (\<lambda>u. if u \<in> set us then (tasks s u)\<lparr>is_budget_set := v\<rparr> else tasks s u)\<rparr>" for us
  proof (induction us arbitrary: s)
    case (Cons u us)
    then show ?case by (auto simp: upd_task_def fun_eq_iff)
  qed simp
  then show ?thesis by (simp only: set_budget_flags_def each_thread_def threads_def)
qed

text \<open>The timers of a task that has had a budget before belong to it and are not in their callbacks.\<close>

definition timers_ok :: "task_struct \<Rightarrow> bool" where
  "timers_ok p \<longleftrightarrow>
     (positive_time (time_period p) \<longrightarrow> h_fn (period_timer p) = PeriodFn \<and> \<not> hrtimer_callback_running (period_timer p)) \<and>
     (positive_time (budget_time p) \<longrightarrow> h_fn (budget_timer p) = BudgetFn \<and> \<not> hrtimer_callback_running (budget_timer p))"

lemma reset_period_timer_spec:
  assumes "timers_ok (tasks s t)"
  shows "\<exists>h. reset_period_timer t s = Some (upd_task t (\<lambda>p. p\<lparr>period_timer := h\<rparr>) s) \<and> h_fn h = PeriodFn \<and>
    \<not> hrtimer_callback_running h \<and> \<not> hrtimer_is_queued h"
proof (cases "positive_time (time_period (tasks s t))")
  case True
  then show ?thesis using assms
    by (auto simp: reset_period_timer_def timers_ok_def hrtimer_cancel_cases case_prod_beta)
next
  case False
  then show ?thesis
    by (intro exI [of _ "(hrtimer_init (period_timer (tasks s t)))\<lparr>h_fn := PeriodFn\<rparr>"])
      (simp add: reset_period_timer_def hrtimer_init_def hrtimer_callback_running_def hrtimer_is_queued_def)
qed

lemma reset_budget_timer_spec:
  assumes "timers_ok (tasks s t)"
  shows "\<exists>h. reset_budget_timer t s = Some (upd_task t (\<lambda>p. p\<lparr>budget_timer := h\<rparr>) s) \<and> h_fn h = BudgetFn \<and>
    \<not> hrtimer_callback_running h \<and> \<not> hrtimer_is_queued h"
proof (cases "positive_time (budget_time (tasks s t))")
  case True
  then show ?thesis using assms
    by (auto simp: reset_budget_timer_def timers_ok_def hrtimer_cancel_cases case_prod_beta)
next
  case False
  then show ?thesis
    by (intro exI [of _ "(hrtimer_init (budget_timer (tasks s t)))\<lparr>h_fn := BudgetFn\<rparr>"])
      (simp add: reset_budget_timer_def hrtimer_init_def hrtimer_callback_running_def hrtimer_is_queued_def)
qed

text \<open>What holds once a task has its budget and no power scheme is selected.\<close>

definition has_budget :: "kst \<Rightarrow> tid \<Rightarrow> timespec \<Rightarrow> timespec \<Rightarrow> timespec \<Rightarrow> kst \<Rightarrow> bool" where
  "has_budget s t per min_budget bud s' \<longleftrightarrow>
     time_period (tasks s' t) = per \<and> min_budget_time (tasks s' t) = min_budget \<and> budget_time (tasks s' t) = bud \<and>
     (\<forall>u \<in> set (threads s t). is_budget_set (tasks s' u) = 1) \<and> h_fn (budget_timer (tasks s' t)) = BudgetFn \<and>
     h_fn (period_timer (tasks s' t)) = PeriodFn \<and> hrtimer_is_queued (period_timer (tasks s' t)) \<and>
     sint (h_expires (period_timer (tasks s' t))) = sint (mono_clock s) + ts_ns per"

lemma set_parameters_spec:
  assumes inv: "periodic_inv s ts" and t: "t \<notin> set ts" and per: "ts_normal per" and bp: "is_bin_packing_set s = 0"
  shows "\<exists>s' ts'. set_parameters t tb per s = Some s' \<and> periodic_inv s' ts' \<and> mset ts' = add_mset t (mset ts) \<and>
    tasks s' = (\<lambda>u. if u = t then (tasks s t)\<lparr>is_budget_set := 1, time_period := per, min_budget_time := tb\<rparr>
       else if u \<in> set (threads s t) then (tasks s u)\<lparr>is_budget_set := 1\<rparr> else tasks s u) \<and>
    (\<exists>h. s' = s\<lparr>tasks := tasks s', periodic_tasks_size := periodic_tasks_size s + 1, lists := h\<rparr>)"
proof -
  let ?f = "\<lambda>u. if u = t then (tasks s t)\<lparr>is_budget_set := 1, time_period := per, min_budget_time := tb\<rparr>
       else if u \<in> set (threads s t) then (tasks s u)\<lparr>is_budget_set := 1\<rparr> else tasks s u"
  define s1 where "s1 = s\<lparr>tasks := ?f\<rparr>"
  have e: "set_parameters t tb per s = add_periodic_task t s1"
    using bp by (simp add: set_parameters_def each_budget_flag s1_def upd_task_def threads_def Let_def fun_upd_def cong: if_cong)
  have "periodic_inv s1 ts" by (rule periodic_inv_frame [OF inv]) (use t in \<open>auto simp: s1_def\<close>)
  moreover have "period_normal s1 t" using per by (simp add: period_normal_def s1_def)
  ultimately obtain h where h: "add_periodic_task t s1 = Some (s1\<lparr>periodic_tasks_size := periodic_tasks_size s1 + 1, lists := h\<rparr>)"
    "periodic_inv (s1\<lparr>periodic_tasks_size := periodic_tasks_size s1 + 1, lists := h\<rparr>) (insert_by_period s1 t ts)"
    using add_periodic_task_spec [of s1 ts t] t by blast
  let ?s' = "s1\<lparr>periodic_tasks_size := periodic_tasks_size s1 + 1, lists := h\<rparr>"
  have "tasks ?s' = ?f" "?s' = s\<lparr>tasks := tasks ?s', periodic_tasks_size := periodic_tasks_size s + 1, lists := h\<rparr>"
    by (simp_all add: s1_def)
  moreover have "mset (insert_by_period s1 t ts) = add_mset t (mset ts)" by simp
  ultimately show ?thesis using h unfolding e by blast
qed

lemma hrtimer_start_period:
  assumes "timespec_valid per" "0 \<le> sint now" "sint now < 2 ^ 61"
  shows "h_fn (snd (hrtimer_start now h (timespec_to_ktime per))) = h_fn h"
    "hrtimer_is_queued (snd (hrtimer_start now h (timespec_to_ktime per)))"
    "sint (h_expires (snd (hrtimer_start now h (timespec_to_ktime per)))) = sint now + ts_ns per"
proof -
  have n: "ts_normal per" "0 \<le> ts_ns per" "ts_ns per < 2147483648 * NSEC_PER_SEC"
    using assms(1) sint32_bounds [of "tv_sec per"] by (simp_all add: timespec_valid_normal ts_normal_def ts_ns_def)
  note k = timespec_to_ktime_ns [OF n(1)]
  have "0 \<le> sint (timespec_to_ktime per)" "sint (timespec_to_ktime per) + sint now < 2 ^ 63"
    using n(2,3) assms(3) unfolding k by simp_all
  note a = hrtimer_start_armed [OF this(1) assms(2) this(2)]
  show "h_fn (snd (hrtimer_start now h (timespec_to_ktime per))) = h_fn h"
    by (simp add: hrtimer_start_def Let_def case_prod_beta hrtimer_set_expires_range_ns_def enqueue_hrtimer_def
        remove_hrtimer_def remove_hrtimer_to_def)
  show "hrtimer_is_queued (snd (hrtimer_start now h (timespec_to_ktime per)))" by (rule a(2))
  show "sint (h_expires (snd (hrtimer_start now h (timespec_to_ktime per)))) = sint now + ts_ns per"
    using a(1) k by simp
qed

lemma give_budget_spec:
  assumes inv: "periodic_inv s ts" "t \<notin> set ts" "is_budget_set (tasks s t) \<noteq> 1" "timers_ok (tasks s t)"
    and valid: "timespec_valid per" "0 \<le> sint (mono_clock s)" "sint (mono_clock s) < 2 ^ 61" and g: "is_bin_packing_set s = 0" "power_scheme s = 0"
  shows "\<exists>s' ts'. give_budget t bud tb per pol s = Some (0, s') \<and> periodic_inv s' ts' \<and> mset ts' = add_mset t (mset ts) \<and>
    has_budget s t per tb (ns_to_timespec (ucast (bud div (pol_cur pol div 1000) * 1000))) s' \<and>
    tasklist_lock s' = tasklist_lock s \<and> power_scheme s' = 0 \<and> is_bin_packing_set s' = 0"
proof -
  have per: "ts_normal per" using valid(1) by (simp add: timespec_valid_normal)
  from reset_period_timer_spec [OF inv(4)] obtain h1 where h1: "h_fn h1 = PeriodFn" "\<not> hrtimer_callback_running h1"
    "reset_period_timer t s = Some (upd_task t (\<lambda>p. p\<lparr>period_timer := h1\<rparr>) s)" by blast
  define s1 where "s1 = upd_task t (\<lambda>p. p\<lparr>period_timer := h1\<rparr>) s"
  have "timers_ok (tasks s1 t)" using inv(4) h1(1,2) by (simp add: timers_ok_def s1_def)
  from reset_budget_timer_spec [OF this] obtain h2 where h2: "h_fn h2 = BudgetFn"
    "reset_budget_timer t s1 = Some (upd_task t (\<lambda>p. p\<lparr>budget_timer := h2\<rparr>) s1)" by blast
  define s2 where "s2 = upd_task t (\<lambda>p. p\<lparr>budget_timer := h2\<rparr>) s1"
  have i2: "periodic_inv s2 ts" using inv(1) by (simp add: s2_def s1_def periodic_inv_upd)
  have g2: "is_bin_packing_set s2 = 0" "threads s2 = threads s" "mono_clock s2 = mono_clock s" "tasklist_lock s2 = tasklist_lock s"
    "power_scheme s2 = 0" using g by (simp_all add: s2_def s1_def threads_def fun_eq_iff)
  from set_parameters_spec [OF i2 inv(2) per g2(1), of tb] obtain s3 ts' h where s3: "set_parameters t tb per s2 = Some s3"
    "periodic_inv s3 ts'" "mset ts' = add_mset t (mset ts)"
    and t3: "tasks s3 = (\<lambda>u. if u = t then (tasks s2 t)\<lparr>is_budget_set := 1, time_period := per, min_budget_time := tb\<rparr>
       else if u \<in> set (threads s2 t) then (tasks s2 u)\<lparr>is_budget_set := 1\<rparr> else tasks s2 u)"
    and e3: "s3 = s2\<lparr>tasks := tasks s3, periodic_tasks_size := periodic_tasks_size s2 + 1, lists := h\<rparr>"
    by (elim exE conjE)
  have g3: "is_bin_packing_set s3 = 0" "mono_clock s3 = mono_clock s" "tasklist_lock s3 = tasklist_lock s" "power_scheme s3 = 0"
    by (subst e3, simp add: g2)+
  from set_rt_priorities_defined [OF s3(2)] obtain r s4 where s4: "set_rt_priorities s3 = Some (r, s4)" by blast
  then have c: "calm s3 s4" by (rule calm_set_rt_priorities)
  note c4 = calmD [OF c]
  define bt where "bt = ns_to_timespec (ucast (bud div (pol_cur pol div 1000) * 1000))"
  define s5 where "s5 = restart_period_timer t (upd_task t (\<lambda>p. p\<lparr>budget_time := bt\<rparr>) s4)"
  have "start_task t bud pol s4 = Some (0, s5)"
    using g3(4) by (simp add: start_task_def c4 s5_def bt_def)
  then have "give_budget t bud tb per pol s = Some (0, s5)"
    using inv(3) h1(3) h2(2) s3(1) s4 g3(1) by (simp add: give_budget_def flip: s1_def s2_def)
  moreover have "periodic_inv s5 ts'"
    using calm_periodic_inv [OF c s3(2)] by (simp add: s5_def restart_period_timer_def periodic_inv_upd)
  moreover have "has_budget s t per tb bt s5"
    unfolding has_budget_def
  proof (intro conjI)
    show "\<forall>u \<in> set (threads s t). is_budget_set (tasks s5 u) = 1"
      by (auto simp: s5_def restart_period_timer_def c4 t3 g2(2))
  qed (simp_all add: s5_def restart_period_timer_def c4 t3 g3 h2(1), simp_all add: s2_def s1_def h1(1) h2(1) hrtimer_start_period [OF valid])
  ultimately show ?thesis
    using s3(3) g3 by (intro exI [of _ s5] exI [of _ ts']) (simp add: bt_def s5_def restart_period_timer_def c4)
qed

subsection \<open>Properties of setProcessBudget\<close>

abbreviation (input) policy_taken :: "kst \<Rightarrow> kst" where
  "policy_taken s \<equiv> s\<lparr>policy_refs := (policy_refs s)(0 := policy_refs s 0 + 1)\<rparr>"

lemma cpufreq_cpu_get_Some: "cpufreq s 0 = Some pol \<Longrightarrow> cpufreq_cpu_get 0 s = (Some pol, policy_taken s)"
  by (simp add: cpufreq_cpu_get_def)

lemma write_unlock_again:
  "tasklist_lock s = Unlocked \<Longrightarrow> write_unlock (s\<lparr>tasklist_lock := Writer\<rparr>) = s"
  by (simp add: write_unlock_def)

text \<open>
  C17. A refused budget changes nothing: whenever \<open>sys_setProcessBudget\<close> returns an error, for a bad
  period or pid, a budget that is not below the period, a failed admission test or an unknown
  task, no lock is left held and the state is the one before the call, except that the
  reference to the \<open>cpufreq\<close> policy is never given back.
\<close>

theorem setProcessBudget_error_atomic:
  assumes "sys_setProcessBudget nr bud per s = Some (r, s')" "r \<noteq> 0" "tasklist_lock s = Unlocked"
  shows "s' = policy_taken s"
proof -
  from assms(1) obtain pol where pol: "cpufreq s 0 = Some pol"
    by (auto simp: sys_setProcessBudget_def cpufreq_cpu_get_def split: option.splits)
  have l: "write_lock (policy_taken s) = Some (policy_taken s\<lparr>tasklist_lock := Writer\<rparr>)"
    "write_unlock (policy_taken s\<lparr>tasklist_lock := Writer\<rparr>) = policy_taken s"
    using assms(3) by (simp_all add: write_unlock_def)
  show ?thesis
    using assms(1,2) l unfolding sys_setProcessBudget_def cpufreq_cpu_get_Some [OF pol]
    by (auto simp: Let_def bind_eq_Some_conv split: if_splits option.splits)
qed

theorem setProcessBudget_error_atomic_witness:
  "\<exists>r s'. sys_setProcessBudget 0 1000 (mk_ts 1 0) boot = Some (r, s') \<and> r \<noteq> 0 \<and> policy_refs s' 0 = 2"
proof -
  have e: "sys_setProcessBudget 0 1000 (mk_ts 1 0) boot = Some (- EINVAL, policy_taken boot)"
    by (simp add: sys_setProcessBudget_def cpufreq_cpu_get_def boot_def positive_time_def mk_ts_def word_sless_alt)
  have "tasklist_lock boot = Unlocked" by (simp add: boot_def)
  from setProcessBudget_error_atomic [OF e _ this] e show ?thesis by (simp add: boot_def)
qed


lemma demo_listed: "\<exists>h. periodic_inv (demo\<lparr>periodic_tasks_size := 1, lists := h\<rparr>) [t]"
proof -
  have "periodic_tasks_size demo = 0" by (simp add: demo_def boot_def)
  with add_periodic_task_spec [OF demo_inv(2), of t] show ?thesis by (auto simp: demo_inv insert_by_period_def)
qed


end
