(* ===== verification/Restart.thy ===== *)
theory Restart
  imports Budgets
begin

unbundle bit_operations_syntax

text \<open>
  \<open>apply_sysclock\<close> of \<open>kernel/sched.c\<close> as a whole: it restarts every periodic task at a new
  frequency. A relation \<open>acts\<close> carries the effect on the tasks through the two loops.
\<close>

subsection \<open>Updates of the tasks of the list\<close>

text \<open>
  \<open>acts g T s s'\<close>: as far as budgets, timers and logs see it, the step from \<open>s\<close> to \<open>s'\<close> updates
  the tasks of \<open>T\<close> with \<open>g\<close> and nothing else. Waking threads on the way is allowed.
\<close>

definition acts :: "(task_struct \<Rightarrow> task_struct) \<Rightarrow> tid set \<Rightarrow> kst \<Rightarrow> kst \<Rightarrow> bool" where
  "acts g T s s' \<longleftrightarrow> s' = s\<lparr>tasks := tasks s'\<rparr> \<and>
     (\<forall>u. rt_view (tasks s' u) = rt_view (if u \<in> T then g (tasks s u) else tasks s u))"

lemma calm_acts: "calm s s' \<longleftrightarrow> acts g {} s s'"
  by (simp add: calm_def acts_def)

lemma acts_upd: "acts g {t} s (upd_task t g s)"
  by (simp add: acts_def upd_task_def)

lemma acts_calm: "acts g T s s1 \<Longrightarrow> calm s1 s2 \<Longrightarrow> acts g T s s2"
  unfolding calm_def acts_def by (elim conjE, intro conjI) (metis kst.update_convs(1) kst.surjective, simp)

lemma acts_same: "acts g T s s' \<Longrightarrow> calm (s\<lparr>tasks := tasks s'\<rparr>) s'"
  by (simp add: acts_def)

lemma actsD:
  assumes "acts g T s s'"
  shows "s' = s\<lparr>tasks := tasks s'\<rparr>" "u \<in> T \<Longrightarrow> rt_view (tasks s' u) = rt_view (g (tasks s u))"
    "u \<notin> T \<Longrightarrow> rt_view (tasks s' u) = rt_view (tasks s u)"
proof -
  show "s' = s\<lparr>tasks := tasks s'\<rparr>" using assms by (simp only: acts_def)
  have "rt_view (tasks s' u) = rt_view (if u \<in> T then g (tasks s u) else tasks s u)" using assms by (simp only: acts_def)
  then show "u \<in> T \<Longrightarrow> rt_view (tasks s' u) = rt_view (g (tasks s u))"
    "u \<notin> T \<Longrightarrow> rt_view (tasks s' u) = rt_view (tasks s u)" by simp_all
qed

lemma acts_frame:
  assumes "acts g T s s'"
  shows "mono_clock s' = mono_clock s" "thread_group s' = thread_group s" "tasklist_lock s' = tasklist_lock s"
    "lists s' = lists s" "periodic_tasks_size s' = periodic_tasks_size s" "power_scheme s' = power_scheme s"
    "is_bin_packing_set s' = is_bin_packing_set s"
  using calmD [OF acts_same [OF assms]] by simp_all

lemma tasks_only_trans: "s1 = s\<lparr>tasks := tasks s1\<rparr> \<Longrightarrow> s2 = s1\<lparr>tasks := tasks s2\<rparr> \<Longrightarrow> s2 = (s :: kst)\<lparr>tasks := tasks s2\<rparr>"
  by (metis kst.update_convs(1) kst.surjective)

lemma acts_trans:
  assumes "acts g T s s1" "acts g U s1 s2" "T \<inter> U = {}"
    and resp: "\<And>p q. rt_view p = rt_view q \<Longrightarrow> rt_view (g p) = rt_view (g q)"
  shows "acts g (T \<union> U) s s2"
  unfolding acts_def
proof (intro conjI allI)
  show "s2 = s\<lparr>tasks := tasks s2\<rparr>" by (rule tasks_only_trans [OF actsD(1) [OF assms(1)] actsD(1) [OF assms(2)]])
  fix u
  show "rt_view (tasks s2 u) = rt_view (if u \<in> T \<union> U then g (tasks s u) else tasks s u)"
  proof (cases "u \<in> U")
    case True
    then have "u \<notin> T" using assms(3) by blast
    from actsD(2) [OF assms(2) True] resp [OF actsD(3) [OF assms(1) this]] True show ?thesis by simp
  next
    case False
    then show ?thesis using actsD(3) [OF assms(2) False] actsD(2,3) [OF assms(1), of u] by simp
  qed
qed

lemma acts_fold:
  assumes step: "\<And>t s. mono_clock s = c \<Longrightarrow> acts g {t} s (f t s)"
    and resp: "\<And>p q. rt_view p = rt_view q \<Longrightarrow> rt_view (g p) = rt_view (g q)"
    and "distinct ts" "mono_clock s = c"
  shows "acts g (set ts) s (fold f ts s)"
  using assms(3,4)
proof (induction ts arbitrary: s)
  case Nil
  show ?case by (simp add: acts_def)
next
  case (Cons t ts)
  have a: "acts g {t} s (f t s)" using Cons.prems step by simp
  then have "mono_clock (f t s) = c" using Cons.prems acts_frame(1) by simp
  then have "acts g (set ts) (f t s) (fold f ts (f t s))" using Cons by simp
  from acts_trans [OF a this _ resp] Cons.prems(1) show ?case by simp
qed

subsection \<open>The critical instant\<close>

definition restarted :: "u32 \<Rightarrow> u32 \<Rightarrow> task_struct \<Rightarrow> task_struct" where
  "restarted freq max_freq p =
     p\<lparr>compute_time := mk_ts 0 0, budget_time := updated_budget (min_budget_time p) max_freq freq,
       budget_timer := snd (hrtimer_try_to_cancel (budget_timer p)),
       period_timer := snd (hrtimer_try_to_cancel (period_timer p))\<rparr>"

definition rearmed :: "ktime \<Rightarrow> task_struct \<Rightarrow> task_struct" where
  "rearmed now p = p\<lparr>period_timer := snd (hrtimer_start now (period_timer p) (timespec_to_ktime (time_period p)))\<rparr>"

definition runnable :: "kst \<Rightarrow> tid \<Rightarrow> bool" where
  "runnable s u \<longleftrightarrow> state (tasks s u) AND TASK_ALL = 0"

lemma upd_task_twice: "upd_task t f (upd_task t g s) = upd_task t (\<lambda>p. f (g p)) s"
  by (simp add: upd_task_def)

lemma apply_frequency_eq:
  "apply_frequency freq max_freq t s =
     fold (\<lambda>u s. snd (wake_up_process u s)) (threads s t) (upd_task t (restarted freq max_freq) s)"
proof -
  have "restarted freq max_freq = (\<lambda>p. p\<lparr>budget_timer := snd (hrtimer_try_to_cancel (budget_timer p)),
      period_timer := snd (hrtimer_try_to_cancel (period_timer p)),
      compute_time := mk_ts 0 0, budget_time := updated_budget (min_budget_time p) max_freq freq\<rparr>)"
    by (simp add: restarted_def fun_eq_iff)
  then show ?thesis
    by (simp add: apply_frequency_def upd_task_twice Let_def each_thread_def threads_def)
qed

lemma apply_frequency_acts: "acts (restarted freq max_freq) {t} s (apply_frequency freq max_freq t s)"
  unfolding apply_frequency_eq by (rule acts_calm [OF acts_upd]) (intro calm_fold calm_wake)

lemma restart_acts: "acts (rearmed (mono_clock s)) {t} s (restart_period_timer t s)"
  unfolding restart_period_timer_def rearmed_def [abs_def] by (rule acts_upd)

lemma restarted_view: "rt_view p = rt_view q \<Longrightarrow> rt_view (restarted freq m p) = rt_view (restarted freq m q)"
  by (simp add: rt_view_def restarted_def)

lemma rearmed_view: "rt_view p = rt_view q \<Longrightarrow> rt_view (rearmed now p) = rt_view (rearmed now q)"
  by (simp add: rt_view_def rearmed_def)

lemma apply_frequency_runnable:
  "runnable (apply_frequency freq m t s) u \<longleftrightarrow> runnable s u \<or> u \<in> set (threads s t)"
  by (auto simp: apply_frequency_eq runnable_def fold_wake restarted_def)

lemma apply_frequencies_runnable:
  "runnable (fold (apply_frequency freq m) ts s) u \<longleftrightarrow> runnable s u \<or> (\<exists>t \<in> set ts. u \<in> set (threads s t))"
proof (induction ts arbitrary: s)
  case (Cons t ts)
  have "threads (apply_frequency freq m t s) = threads s"
    using acts_frame(2) [OF apply_frequency_acts, of freq m t s] by (simp add: threads_def fun_eq_iff)
  with Cons show ?case by (auto simp: apply_frequency_runnable)
qed simp

lemma restarts_state: "state (tasks (fold restart_period_timer ts s) u) = state (tasks s u)"
  by (induction ts arbitrary: s) (auto simp: restart_period_timer_def)

lemma rt_viewD:
  assumes "rt_view p = rt_view q"
  shows "budget_time p = budget_time q" "compute_time p = compute_time q" "budget_timer p = budget_timer q"
    "period_timer p = period_timer q" "time_period p = time_period q" "min_budget_time p = min_budget_time q"
    "is_budget_set p = is_budget_set q" "task_spin_lock p = task_spin_lock q"
  using assms by (simp_all add: rt_view_def)

text \<open>A task after its restart: a stretched budget of which nothing is used, and a full period ahead.\<close>

definition at_critical_instant :: "kst \<Rightarrow> u32 \<Rightarrow> u32 \<Rightarrow> tid \<Rightarrow> kst \<Rightarrow> bool" where
  "at_critical_instant s freq max_freq t s' \<longleftrightarrow>
     budget_time (tasks s' t) = updated_budget (min_budget_time (tasks s t)) max_freq freq \<and>
     ts_ns (compute_time (tasks s' t)) = 0 \<and>
     (hrtimer_callback_running (budget_timer (tasks s t)) \<or> \<not> hrtimer_is_queued (budget_timer (tasks s' t))) \<and>
     hrtimer_is_queued (period_timer (tasks s' t)) \<and>
     sint (h_expires (period_timer (tasks s' t))) = sint (mono_clock s) + ts_ns (time_period (tasks s t)) \<and>
     (\<forall>u \<in> set (threads s t). runnable s' u)"

lemma apply_sysclock_spec:
  assumes inv: "periodic_inv s ts" "periodic_tasks s = Some ts" and valid: "\<forall>t \<in> set ts. timespec_valid (time_period (tasks s t))"
    and now: "0 \<le> sint (mono_clock s)" "sint (mono_clock s) < 2 ^ 61"
  shows "\<exists>s'. apply_sysclock freq m s = Some (get_table_frequency freq s, s') \<and> periodic_inv s' ts \<and>
    s' = s\<lparr>tasks := tasks s'\<rparr> \<and> (\<forall>u. u \<notin> set ts \<longrightarrow> rt_view (tasks s' u) = rt_view (tasks s u)) \<and>
    (\<forall>t \<in> set ts. at_critical_instant s (get_table_frequency freq s) m t s' \<and>
       time_period (tasks s' t) = time_period (tasks s t) \<and> is_budget_set (tasks s' t) = is_budget_set (tasks s t))"
proof -
  let ?f = "get_table_frequency freq s"
  have d: "distinct ts" using inv(1) by (simp add: periodic_inv_def)
  define s1 where "s1 = fold (apply_frequency ?f m) ts s"
  define s2 where "s2 = fold restart_period_timer ts s1"
  have a: "acts (restarted ?f m) (set ts) s s1"
    unfolding s1_def by (rule acts_fold [OF apply_frequency_acts restarted_view d refl])
  note f1 = acts_frame [OF a]
  have b: "acts (rearmed (mono_clock s)) (set ts) s1 s2"
    unfolding s2_def by (rule acts_fold [OF _ rearmed_view d f1(1)]) (metis restart_acts)
  note f2 = acts_frame [OF b]
  have other: "rt_view (tasks s2 u) = rt_view (tasks s u)" if "u \<notin> set ts" for u
    using actsD(3) [OF a that] actsD(3) [OF b that] by simp
  have view: "rt_view (tasks s2 t) = rt_view (rearmed (mono_clock s) (restarted ?f m (tasks s t)))" if "t \<in> set ts" for t
    using actsD(2) [OF b that] rearmed_view [OF actsD(2) [OF a that]] by simp
  have per: "time_period (tasks s2 t) = time_period (tasks s t)" for t
    using rt_viewD(5) [OF view, of t] rt_viewD(5) [OF other, of t]
    by (cases "t \<in> set ts") (simp_all add: rearmed_def restarted_def)
  have crit: "at_critical_instant s ?f m t s2" if t: "t \<in> set ts" for t
    unfolding at_critical_instant_def
  proof (intro conjI)
    note v = rt_viewD [OF view [OF t]]
    note r = hrtimer_start_period [OF bspec [OF valid t] now]
    show "budget_time (tasks s2 t) = updated_budget (min_budget_time (tasks s t)) m ?f" "ts_ns (compute_time (tasks s2 t)) = 0"
      using v by (simp_all add: rearmed_def restarted_def mk_ts_def ts_ns_def)
    show "hrtimer_callback_running (budget_timer (tasks s t)) \<or> \<not> hrtimer_is_queued (budget_timer (tasks s2 t))"
      using v by (simp add: rearmed_def restarted_def hrtimer_try_to_cancel_def)
    show "hrtimer_is_queued (period_timer (tasks s2 t))"
      "sint (h_expires (period_timer (tasks s2 t))) = sint (mono_clock s) + ts_ns (time_period (tasks s t))"
      using v(4) r(2,3) by (simp_all add: rearmed_def restarted_def)
    show "\<forall>u \<in> set (threads s t). runnable s2 u"
      using apply_frequencies_runnable [of ?f m ts s] restarts_state [of ts s1] t by (auto simp: runnable_def s1_def s2_def)
  qed
  have flag: "is_budget_set (tasks s2 t) = is_budget_set (tasks s t)" if "t \<in> set ts" for t
    using rt_viewD(7) [OF view [OF that]] by (simp add: rearmed_def restarted_def)
  have "periodic_inv s2 ts"
    by (rule periodic_inv_frame [OF inv(1)]) (simp_all add: f1 f2 per)
  moreover have "apply_sysclock freq m s = Some (?f, s2)"
    using inv(2) by (simp add: apply_sysclock_def s1_def s2_def Let_def)
  moreover have "s2 = s\<lparr>tasks := tasks s2\<rparr>" by (rule tasks_only_trans [OF actsD(1) [OF a] actsD(1) [OF b]])
  ultimately show ?thesis using other crit per flag by blast
qed

lemma ts_ns_of_ns:
  "- 2147483648 \<le> sint n div NSEC_PER_SEC \<Longrightarrow> sint n div NSEC_PER_SEC < 2147483648 \<Longrightarrow> ts_ns (ns_to_timespec n) = sint n"
  by (simp only: ts_ns_def ns_to_timespec_floor timespec.select_convs sint_wrap32 sint_nsec_part div_mult_mod_eq)

text \<open>The stretched budget is the smallest one, times the highest frequency, over the new one.\<close>

lemma updated_budget_exact:
  fixes m freq :: u32
  assumes mb: "timespec_valid mb" and f: "freq \<noteq> 0" and fit: "ts_ns mb * int (unat m) < 2 ^ 63"
    and res: "ts_ns mb * int (unat m) div int (unat freq) < 2147483648 * NSEC_PER_SEC"
  shows "ts_ns (updated_budget mb m freq) = ts_ns mb * int (unat m) div int (unat freq)"
proof -
  let ?x = "timespec_to_ns mb" and ?q = "fst (div64_32 (timespec_to_ns mb * ucast m) freq)"
  have n: "0 \<le> ts_ns mb" using mb by (simp add: timespec_valid_normal ts_normal_def ts_ns_def)
  then have "int (unat ?x) = ts_ns mb"
    using sint_nonneg_unat(2) [of ?x] unfolding sint_timespec_to_ns by simp
  then have x: "int (unat ?x * unat m) = ts_ns mb * int (unat m)" by (simp only: of_nat_mult)
  then have "int (unat ?x * unat m) < 2 ^ 63" using fit by (simp only:)
  then have "unat (?x * ucast m) = unat ?x * unat m" by (subst unat_times) (simp_all del: of_nat_mult of_nat_unat)
  then have "unat ?q = unat ?x * unat m div unat freq" 
    using fst_div64_32_unat [OF f, of "?x * ucast m"] by (simp only:)
  then have q: "int (unat ?q) = ts_ns mb * int (unat m) div int (unat freq)" by (simp only: zdiv_int x)
  have "int (unat ?q) < 2 ^ 63" unfolding q using res by simp
  then have u: "sint ?q = int (unat ?q)" by (intro sint_of_unat64) (simp del: of_nat_unat)
  then have s: "sint ?q = ts_ns mb * int (unat m) div int (unat freq)" by (simp only: q)
  have "0 \<le> sint ?q" unfolding u by (rule of_nat_0_le_iff)
  moreover have "sint ?q < 2147483648 * NSEC_PER_SEC" unfolding s by (rule res)
  ultimately have "- 2147483648 \<le> sint ?q div NSEC_PER_SEC" "sint ?q div NSEC_PER_SEC < 2147483648" by linarith+
  then show ?thesis unfolding updated_budget_def by (simp only: ts_ns_of_ns s)
qed

subsection \<open>Properties of apply\_sysclock\<close>

text \<open>
  C9. \<open>apply_sysclock\<close> brings every task of the periodic list to a critical instant at the new
  frequency: it always returns the table entry for the frequency it is asked for; each task's
  budget becomes its smallest budget times the highest frequency over the new one, exactly in
  nanoseconds, nothing of it is used, the budget timer does not run (unless its callback is
  running), all threads are runnable, and the period timer expires one period from now. The list
  stays what it was and no other task is changed. (Valid times, products below \<open>2 ^ 63\<close>.)
\<close>

theorem apply_sysclock_restarts:
  fixes m freq :: u32
  assumes inv: "periodic_inv s ts" "ts \<noteq> []" and now: "0 \<le> sint (mono_clock s)" "sint (mono_clock s) < 2 ^ 61"
    and valid: "\<forall>t \<in> set ts. timespec_valid (time_period (tasks s t)) \<and> timespec_valid (min_budget_time (tasks s t)) \<and>
      ts_ns (min_budget_time (tasks s t)) * int (unat m) < 2 ^ 63 \<and>
      ts_ns (min_budget_time (tasks s t)) * int (unat m) div int (unat f) < 2147483648 * NSEC_PER_SEC"
    and f: "f = get_table_frequency freq s" "f \<noteq> 0"
  shows "\<exists>s'. apply_sysclock freq m s = Some (f, s') \<and> periodic_inv s' ts \<and>
     (\<forall>t. t \<notin> set ts \<longrightarrow> rt_view (tasks s' t) = rt_view (tasks s t)) \<and>
     (\<forall>t \<in> set ts. at_critical_instant s f m t s' \<and>
        ts_ns (budget_time (tasks s' t)) = ts_ns (min_budget_time (tasks s t)) * int (unat m) div int (unat f))"
proof -
  have v: "\<forall>t \<in> set ts. timespec_valid (time_period (tasks s t))" using valid by simp
  from apply_sysclock_spec [OF inv(1) periodic_inv_tasks [OF inv] v now, of freq m] f(1) obtain s' where s': "apply_sysclock freq m s = Some (f, s')"
    "periodic_inv s' ts" "\<forall>t. t \<notin> set ts \<longrightarrow> rt_view (tasks s' t) = rt_view (tasks s t)"
    "\<forall>t \<in> set ts. at_critical_instant s f m t s'" by auto
  have "ts_ns (budget_time (tasks s' t)) = ts_ns (min_budget_time (tasks s t)) * int (unat m) div int (unat f)"
    if t: "t \<in> set ts" for t
  proof -
    have "budget_time (tasks s' t) = updated_budget (min_budget_time (tasks s t)) m f"
      using s'(4) t by (simp add: at_critical_instant_def)
    with updated_budget_exact [of "min_budget_time (tasks s t)" f m] valid t f(2) show ?thesis by simp
  qed
  with s' show ?thesis by blast
qed

theorem apply_sysclock_restarts_witness:
  "\<exists>s s'. periodic_tasks s = Some [5] \<and> apply_sysclock 600000 1300000 s = Some (640000, s') \<and>
     ts_ns (budget_time (tasks s' 5)) = 2031 \<and> hrtimer_is_queued (period_timer (tasks s' 5))"
proof -
  obtain h where h: "periodic_inv (demo\<lparr>periodic_tasks_size := 1, lists := h\<rparr>) [5]" using demo_listed by blast
  let ?s = "demo\<lparr>periodic_tasks_size := 1, lists := h\<rparr>"
  have f: "640000 = get_table_frequency 600000 ?s"
    by (simp add: get_table_frequency_def demo_def boot_def)
  have v: "timespec_valid (mk_ts 0 4000)" "timespec_valid (mk_ts 0 1000)" by code_simp+
  have n: "ts_ns (mk_ts 0 1000) = 1000" by (simp add: mk_ts_def ts_ns_def)
  have t: "time_period (tasks demo 5) = mk_ts 0 4000" "min_budget_time (tasks demo 5) = mk_ts 0 1000" "mono_clock demo = 0"
    by (simp_all add: demo_def boot_def)
  have "\<exists>s'. apply_sysclock 600000 1300000 ?s = Some (640000, s') \<and> periodic_inv s' [5] \<and>
     (\<forall>t. t \<notin> set [5] \<longrightarrow> rt_view (tasks s' t) = rt_view (tasks ?s t)) \<and>
     (\<forall>t \<in> set [5]. at_critical_instant ?s 640000 1300000 t s' \<and>
        ts_ns (budget_time (tasks s' t)) = ts_ns (min_budget_time (tasks ?s t)) * int (unat (1300000 :: u32)) div int (unat (640000 :: u32)))"
    by (rule apply_sysclock_restarts [OF h _ _ _ _ f]) (use v in \<open>simp_all add: t n\<close>)
  then obtain s' where s': "apply_sysclock 600000 1300000 ?s = Some (640000, s')" "at_critical_instant ?s 640000 1300000 5 s'"
    "ts_ns (budget_time (tasks s' 5)) = 1000 * int (unat (1300000 :: u32)) div int (unat (640000 :: u32))"
    by (auto simp: t n)
  then have "ts_ns (budget_time (tasks s' 5)) = 2031" by simp
  with s'(1,2) periodic_inv_tasks [OF h] show ?thesis by (auto simp: at_critical_instant_def)
qed

end
