(* ===== verification/Cancel.thy ===== *)
theory Cancel
  imports Restart
begin

unbundle bit_operations_syntax

text \<open>
  \<open>sys_cancelBudget\<close> as a whole (\<open>cancelBudget/\<close>): the task becomes an ordinary one and leaves
  the list, the priorities of the others are assigned anew and they are restarted.
\<close>

subsection \<open>Back to a normal thread\<close>

definition normal_of :: "task_struct \<Rightarrow> task_struct" where
  "normal_of p = (let p = p\<lparr>is_budget_set := 0\<rparr> in
     if is_stop p \<or> policy p = SCHED_NORMAL then p else setscheduler (p\<lparr>sched_reset_on_fork := False\<rparr>) SCHED_NORMAL 0)"

lemma normal_of_view:
  "rt_view (normal_of p) = rt_view (p\<lparr>is_budget_set := 0\<rparr>)" "state (normal_of p) = state p"
  "is_stop p \<or> policy (normal_of p) = SCHED_NORMAL"
  by (auto simp: normal_of_def rt_view_def setscheduler_def Let_def)

lemma sched_setscheduler_normal:
  "snd (sched_setscheduler_nocheck t SCHED_NORMAL 0 s) =
    (if is_stop (tasks s t) \<or> policy (tasks s t) = SCHED_NORMAL then s
     else upd_task t (\<lambda>p. setscheduler (p\<lparr>sched_reset_on_fork := False\<rparr>) SCHED_NORMAL 0) s)"
proof -
  have "SCHED_NORMAL AND NOT SCHED_RESET_ON_FORK = (0 :: int)" "SCHED_NORMAL AND SCHED_RESET_ON_FORK = (0 :: int)" by simp_all
  then show ?thesis by (auto simp: sched_setscheduler_nocheck_def Let_def rt_policy_def)
qed

lemma fold_upd_distinct:
  "distinct us \<Longrightarrow> fold (\<lambda>u. upd_task u g) us s =
     s\<lparr>tasks := (\<lambda>u. if u \<in> set us then g (tasks s u) else tasks s u)\<rparr>"
  by (induction us arbitrary: s) (auto simp: upd_task_def fun_eq_iff)

lemma make_normal_eq:
  assumes "distinct (threads s t)"
  shows "make_normal t s = s\<lparr>tasks := (\<lambda>u. if u \<in> set (threads s t) then normal_of (tasks s u) else tasks s u)\<rparr>"
proof -
  have "(\<lambda>u s. let s = upd_task u (\<lambda>p. p\<lparr>is_budget_set := 0\<rparr>) s
       in snd (sched_setscheduler_nocheck u SCHED_NORMAL 0 s)) = (\<lambda>u. upd_task u normal_of)"
    by (auto simp: fun_eq_iff sched_setscheduler_normal Let_def normal_of_def upd_task_def)
  then have "make_normal t s = fold (\<lambda>u. upd_task u normal_of) (threads s t) s"
    by (simp only: make_normal_def each_thread_def threads_def)
  then show ?thesis using fold_upd_distinct [OF assms] by simp
qed

subsection \<open>Stopping the timers\<close>

definition cancelled :: "task_struct \<Rightarrow> task_struct" where
  "cancelled p = p\<lparr>period_timer := snd (remove_hrtimer (period_timer p)), time_period := mk_ts (- 1) (- 1),
     budget_timer := snd (remove_hrtimer (budget_timer p)), budget_time := mk_ts (- 1) (- 1)\<rparr>"

lemma cancel_timers_eq:
  assumes "positive_time (time_period (tasks s t))" "\<not> hrtimer_callback_running (period_timer (tasks s t))"
    "positive_time (budget_time (tasks s t))" "\<not> hrtimer_callback_running (budget_timer (tasks s t))"
  shows "cancel_timers t s = Some (upd_task t cancelled s)"
  using assms by (simp add: cancel_timers_def hrtimer_cancel_cases case_prod_beta upd_task_def cancelled_def Let_def)

subsection \<open>Leaving the list\<close>

text \<open>Deleting does not look at the tasks, so a task may be deleted whose period is gone already.\<close>

lemma del_periodic_task_tasks:
  "del_periodic_task t (s\<lparr>tasks := f\<rparr>) = map_option (\<lambda>s'. s'\<lparr>tasks := f\<rparr>) (del_periodic_task t s)"
  by (cases "list_del (PNode t) (lists s)") (simp_all add: del_periodic_task_def Let_def)

lemma del_periodic_task_ring:
  assumes inv: "periodic_inv s ts" and t: "t \<in> set ts" and f: "\<forall>x \<in> set ts - {t}. time_period (f x) = time_period (tasks s x)"
  shows "\<exists>h. del_periodic_task t (s\<lparr>tasks := f\<rparr>) = Some (s\<lparr>tasks := f, periodic_tasks_size := periodic_tasks_size s - 1, lists := h\<rparr>) \<and>
    periodic_inv (s\<lparr>tasks := f, periodic_tasks_size := periodic_tasks_size s - 1, lists := h\<rparr>) (remove1 t ts) \<and>
    periodic_tasks (s\<lparr>tasks := f, periodic_tasks_size := periodic_tasks_size s - 1, lists := h\<rparr>) = Some (remove1 t ts)"
proof -
  have d: "dll (lists s) PHead (map PNode ts)" "distinct ts" using inv t by (auto simp: periodic_inv_def)
  have sz: "0 < periodic_tasks_size s" using inv t by (auto simp: periodic_inv_def)
  from del_periodic_task_spec [OF inv t] obtain h where h:
    "del_periodic_task t s = Some (s\<lparr>periodic_tasks_size := periodic_tasks_size s - 1, lists := h\<rparr>)"
    "periodic_inv (s\<lparr>periodic_tasks_size := periodic_tasks_size s - 1, lists := h\<rparr>) (remove1 t ts)" by blast
  let ?s = "s\<lparr>tasks := f, periodic_tasks_size := periodic_tasks_size s - 1, lists := h\<rparr>"
  have "del_periodic_task t (s\<lparr>tasks := f\<rparr>) = Some ?s" using h(1) by (simp add: del_periodic_task_tasks)
  moreover have "periodic_inv ?s (remove1 t ts)"
    by (rule periodic_inv_frame [OF h(2)]) (use f d(2) in auto)
  moreover have "dll h PHead (map PNode (remove1 t ts))"
  proof -
    from periodic.remove [OF d(1) t] obtain h' where h': "list_del (PNode t) (kst.lists s) = Some h'"
      "dll h' PHead (map PNode (remove1 t ts))" by blast
    have "del_periodic_task t s = Some (s\<lparr>periodic_tasks_size := periodic_tasks_size s - 1, lists := h'\<rparr>)"
      using h'(1) sz by (simp add: del_periodic_task_def)
    with h(1) have "kst.lists (s\<lparr>periodic_tasks_size := periodic_tasks_size s - 1, lists := h\<rparr>) =
      kst.lists (s\<lparr>periodic_tasks_size := periodic_tasks_size s - 1, lists := h'\<rparr>)" by (simp only: option.inject)
    with h'(2) show ?thesis by simp
  qed
  then have "periodic_tasks ?s = Some (remove1 t ts)" by (intro periodic_tasks_dll) simp
  ultimately show ?thesis by blast
qed

subsection \<open>Priorities do not touch anything else\<close>

lemma set_thread_prio_state: "state (tasks (set_thread_prio pr t s) u) = state (tasks s u)"
  by (auto simp: set_thread_prio_def set_tsk_need_resched_def sched_setscheduler_nocheck_def setscheduler_def Let_def)

lemma fold_prio_other:
  "state (tasks (fold (set_thread_prio pr) us s) u) = state (tasks s u)"
  "u \<notin> set us \<Longrightarrow> tasks (fold (set_thread_prio pr) us s) u = tasks s u"
  by (induction us arbitrary: s) (simp_all add: set_thread_prio_state set_thread_prio_other(1))

lemma prio_walk_other:
  "state (tasks (snd (snd (fold prio_step ts (pr, prev, s)))) u) = state (tasks s u) \<and>
   (u \<notin> set (concat (map (threads s) ts)) \<longrightarrow> tasks (snd (snd (fold prio_step ts (pr, prev, s)))) u = tasks s u)"
proof (induction ts arbitrary: pr prev s)
  case (Cons t ts)
  obtain pr' prev' s' where p: "prio_step t (pr, prev, s) = (pr', prev', s')" by (cases "prio_step t (pr, prev, s)")
  have "state (tasks s' u) = state (tasks s u)" "u \<notin> set (threads s t) \<Longrightarrow> tasks s' u = tasks s u"
    using p by (auto simp: prio_step_def Let_def each_thread_def fold_prio_other threads_def set_thread_prio_state set_thread_prio_other(1))
  moreover have "threads s' = threads s" using prio_step_frame(2) [OF p] by (simp add: threads_def fun_eq_iff)
  ultimately show ?case using Cons [of pr' prev' s'] by (simp add: p)
qed simp

lemma set_rt_priorities_other:
  assumes "set_rt_priorities s = Some (r, s')" "periodic_tasks s = Some ts"
  shows "state (tasks s' u) = state (tasks s u)"
    "u \<notin> set (concat (map (threads s) ts)) \<Longrightarrow> tasks s' u = tasks s u"
  using assms prio_walk_other [of ts 0 "mk_ts 0 0" s u]
  by (auto simp: set_rt_priorities_def case_prod_beta split: if_splits)

lemma apply_frequency_policy: "policy (tasks (apply_frequency freq m t s) u) = policy (tasks s u)"
  by (auto simp: apply_frequency_eq fold_wake restarted_def)

lemma apply_sysclock_keeps:
  assumes "apply_sysclock freq m s = Some (r, s')"
  shows "policy (tasks s' u) = policy (tasks s u)" "runnable s u \<Longrightarrow> runnable s' u"
proof -
  from assms obtain f ts where s': "s' = fold restart_period_timer ts (fold (apply_frequency f m) ts s)"
    by (auto simp: apply_sysclock_def Let_def bind_eq_Some_conv)
  have "policy (tasks (fold (apply_frequency f m) ts s) u) = policy (tasks s u)" for s
    by (induction ts arbitrary: s) (simp_all add: apply_frequency_policy)
  moreover have "policy (tasks (fold restart_period_timer ts s) u) = policy (tasks s u)" for s
    by (induction ts arbitrary: s) (auto simp: restart_period_timer_def)
  ultimately show "policy (tasks s' u) = policy (tasks s u)" by (simp add: s')
  show "runnable s u \<Longrightarrow> runnable s' u"
    using apply_frequencies_runnable [of f m ts s u] by (simp add: s' runnable_def restarts_state)
qed

subsection \<open>cancelBudget up to the new frequency\<close>

text \<open>A task that has lost its budget.\<close>

definition out_of_budget :: "kst \<Rightarrow> tid \<Rightarrow> kst \<Rightarrow> bool" where
  "out_of_budget s t s' \<longleftrightarrow>
     time_period (tasks s' t) = mk_ts (- 1) (- 1) \<and> budget_time (tasks s' t) = mk_ts (- 1) (- 1) \<and>
     \<not> hrtimer_is_queued (period_timer (tasks s' t)) \<and> \<not> hrtimer_is_queued (budget_timer (tasks s' t)) \<and>
     (\<forall>u \<in> set (threads s t). is_budget_set (tasks s' u) = 0 \<and> runnable s' u \<and>
        (is_stop (tasks s u) \<or> policy (tasks s' u) = SCHED_NORMAL))"

lemma out_of_budget_later:
  assumes "out_of_budget s t s1"
    and "\<And>u. u \<in> set (threads s t) \<Longrightarrow> rt_view (tasks s2 u) = rt_view (tasks s1 u) \<and>
      policy (tasks s2 u) = policy (tasks s1 u) \<and> (runnable s1 u \<longrightarrow> runnable s2 u)"
  shows "out_of_budget s t s2"
proof -
  have "t \<in> set (threads s t)" by (simp add: threads_def)
  note v = rt_viewD [OF conjunct1 [OF assms(2) [OF this]]]
  show ?thesis
    using assms(1) rt_viewD(7) [OF conjunct1 [OF assms(2)]] assms(2) by (simp add: out_of_budget_def v)
qed

lemma cancel_and_leave:
  assumes inv: "periodic_inv s ts" "t \<in> set ts" and th: "distinct (threads s t)" "\<forall>x \<in> set ts - {t}. x \<notin> set (threads s t)"
    and timers: "positive_time (time_period (tasks s t))" "\<not> hrtimer_callback_running (period_timer (tasks s t))"
      "positive_time (budget_time (tasks s t))" "\<not> hrtimer_callback_running (budget_timer (tasks s t))"
  shows "\<exists>s1 s2 h s'. cancel_timers t (make_normal t s) = Some s1 \<and> del_periodic_task t s1 = Some s2 \<and>
    s' = each_thread t (\<lambda>u s. snd (wake_up_process u s)) s2 \<and> periodic_inv s' (remove1 t ts) \<and>
    periodic_tasks s' = Some (remove1 t ts) \<and> is_bin_packing_set s2 = is_bin_packing_set s \<and>
    s' = s\<lparr>tasks := tasks s', periodic_tasks_size := periodic_tasks_size s - 1, lists := h\<rparr> \<and>
    out_of_budget s t s' \<and> (\<forall>x. x \<notin> set (threads s t) \<longrightarrow> rt_view (tasks s' x) = rt_view (tasks s x))"
proof -
  have t: "t \<in> set (threads s t)" by (simp add: threads_def)
  define f where "f = (\<lambda>u. if u \<in> set (threads s t) then normal_of (tasks s u) else tasks s u)"
  have m: "make_normal t s = s\<lparr>tasks := f\<rparr>" using make_normal_eq [OF th(1)] by (simp add: f_def)
  have ft: "rt_view (f t) = rt_view ((tasks s t)\<lparr>is_budget_set := 0\<rparr>)" using t by (simp add: f_def normal_of_view)
  have c: "cancel_timers t (make_normal t s) = Some (s\<lparr>tasks := f(t := cancelled (f t))\<rparr>)"
    using cancel_timers_eq [of "s\<lparr>tasks := f\<rparr>" t] timers rt_viewD [OF ft] by (simp add: m upd_task_def)
  let ?f = "f(t := cancelled (f t))"
  have "\<forall>x \<in> set ts - {t}. time_period (?f x) = time_period (tasks s x)" using th(2) by (auto simp: f_def)
  from del_periodic_task_ring [OF inv this] obtain h where h:
    "del_periodic_task t (s\<lparr>tasks := ?f\<rparr>) = Some (s\<lparr>tasks := ?f, periodic_tasks_size := periodic_tasks_size s - 1, lists := h\<rparr>)"
    "periodic_inv (s\<lparr>tasks := ?f, periodic_tasks_size := periodic_tasks_size s - 1, lists := h\<rparr>) (remove1 t ts)"
    "periodic_tasks (s\<lparr>tasks := ?f, periodic_tasks_size := periodic_tasks_size s - 1, lists := h\<rparr>) = Some (remove1 t ts)"
    by blast
  define s2 where "s2 = s\<lparr>tasks := ?f, periodic_tasks_size := periodic_tasks_size s - 1, lists := h\<rparr>"
  define s' where "s' = each_thread t (\<lambda>u s. snd (wake_up_process u s)) s2"
  have calm: "calm s2 s'" unfolding s'_def each_thread_def by (intro calm_fold calm_wake)
  note k = calmD [OF calm]
  have same: "s' = s\<lparr>tasks := tasks s', periodic_tasks_size := periodic_tasks_size s - 1, lists := h\<rparr>"
  proof -
    have "s' = s2\<lparr>tasks := tasks s'\<rparr>" using calm by (simp only: calm_def)
    also have "\<dots> = s\<lparr>tasks := tasks s', periodic_tasks_size := periodic_tasks_size s - 1, lists := h\<rparr>"
      by (rule kst.equality) (simp_all add: s2_def)
    finally show ?thesis .
  qed
  have "threads s2 t = threads s t" by (simp add: s2_def threads_def)
  then have e: "s' = fold (\<lambda>u s. snd (wake_up_process u s)) (threads s t) s2"
    by (simp only: s'_def each_thread_def threads_def)
  have wake: "tasks s' u = (if u \<in> set (threads s t) \<and> state (?f u) AND TASK_ALL \<noteq> 0
      then (?f u)\<lparr>state := TASK_RUNNING, on_rq := True\<rparr> else ?f u)" for u
    unfolding e fold_wake(1) by (simp add: s2_def)
  have "out_of_budget s t s'"
    unfolding out_of_budget_def
  proof (intro conjI ballI)
    fix u assume u: "u \<in> set (threads s t)"
    show "is_budget_set (tasks s' u) = 0" 
      using u t by (simp add: k s2_def cancelled_def f_def rt_viewD(7) [OF normal_of_view(1)])
    show "runnable s' u" using u by (simp add: runnable_def wake)
    show "is_stop (tasks s u) \<or> policy (tasks s' u) = SCHED_NORMAL"
      using u normal_of_view(3) [of "tasks s u"] t by (auto simp: wake cancelled_def f_def)
  qed (simp_all add: k s2_def cancelled_def)
  moreover have "rt_view (tasks s' x) = rt_view (tasks s x)" if "x \<notin> set (threads s t)" for x
    using that t by (auto simp: wake f_def)
  moreover have "periodic_tasks s' = Some (remove1 t ts)"
    using h(3) by (subst same) (simp add: periodic_tasks_def)
  ultimately show ?thesis
    using c h(1) calm_periodic_inv [OF calm] h(2) same
    by (intro exI [of _ "s\<lparr>tasks := ?f\<rparr>"] exI [of _ s2] exI [of _ h] exI [of _ s']) (simp add: s2_def s'_def)
qed

subsection \<open>Properties of cancelBudget\<close>

lemma calm_same: "calm s s' \<Longrightarrow> s' = s\<lparr>tasks := tasks s'\<rparr>" "calm s s' \<Longrightarrow> rt_view (tasks s' u) = rt_view (tasks s u)"
  unfolding calm_def by blast+

lemma at_critical_instant_frame:
  assumes "at_critical_instant s1 freq m x s2" "rt_view (tasks s1 x) = rt_view (tasks s x)" "mono_clock s1 = mono_clock s"
    "threads s1 = threads s" "tasks s2 = tasks s'"
  shows "at_critical_instant s freq m x s'"
  using assms(1) rt_viewD [OF assms(2)] by (simp add: at_critical_instant_def assms(3-5) runnable_def)

lemma threads_distinct:
  assumes "distinct (concat (map (threads s) ts))" "t \<in> set ts"
  shows "distinct (threads s t)" "x \<in> set ts \<Longrightarrow> x \<noteq> t \<Longrightarrow> set (threads s x) \<inter> set (threads s t) = {}"
    "x \<in> set ts \<Longrightarrow> x \<noteq> t \<Longrightarrow> x \<notin> set (threads s t)"
proof -
  show "distinct (threads s t)" using assms by (induction ts) auto
  show i: "x \<in> set ts \<Longrightarrow> x \<noteq> t \<Longrightarrow> set (threads s x) \<inter> set (threads s t) = {}"
    using assms by (induction ts) auto
  have "x \<in> set (threads s x)" by (simp add: threads_def)
  with i show "x \<in> set ts \<Longrightarrow> x \<noteq> t \<Longrightarrow> x \<notin> set (threads s t)" by blast
qed

text \<open>The rest of the call, once the task has left the list.\<close>

lemma readjust_rest:
  assumes inv: "periodic_inv s ts" "periodic_tasks s = Some ts" and g: "power_scheme s = 0"
    and valid: "\<forall>x \<in> set ts. timespec_valid (time_period (tasks s x))"
    and now: "0 \<le> sint (mono_clock s)" "sint (mono_clock s) < 2 ^ 61"
  shows "\<exists>r s1 s2. set_rt_priorities s = Some (r, s1) \<and> readjust pol s1 = Some (get_table_frequency 0 s, s2) \<and>
    periodic_inv s2 ts \<and> s2 = s\<lparr>tasks := tasks s2\<rparr> \<and>
    (\<forall>x \<in> set ts. at_critical_instant s (get_table_frequency 0 s) (cpuinfo_max_freq pol) x s2) \<and>
    (\<forall>u. u \<notin> set (concat (map (threads s) ts)) \<longrightarrow> rt_view (tasks s2 u) = rt_view (tasks s u) \<and>
      policy (tasks s2 u) = policy (tasks s u) \<and> (runnable s u \<longrightarrow> runnable s2 u))"
proof -
  from set_rt_priorities_defined [OF inv(1)] obtain r s1 where s1: "set_rt_priorities s = Some (r, s1)" by blast
  have c: "calm s s1" using s1 by (rule calm_set_rt_priorities)
  note k = calmD [OF c]
  note o = set_rt_priorities_other [OF s1 inv(2)]
  have v: "\<forall>x \<in> set ts. timespec_valid (time_period (tasks s1 x))" using valid by (simp add: k)
  have "periodic_tasks s1 = Some ts" using inv(2) by (simp add: periodic_tasks_def k)
  from apply_sysclock_spec [OF calm_periodic_inv [OF c inv(1)] this v, of 0 "cpuinfo_max_freq pol"] now
  obtain s2 where s2: "apply_sysclock 0 (cpuinfo_max_freq pol) s1 = Some (get_table_frequency 0 s1, s2)"
    "periodic_inv s2 ts" "s2 = s1\<lparr>tasks := tasks s2\<rparr>" "\<forall>u. u \<notin> set ts \<longrightarrow> rt_view (tasks s2 u) = rt_view (tasks s1 u)"
    "\<forall>x \<in> set ts. at_critical_instant s1 (get_table_frequency 0 s1) (cpuinfo_max_freq pol) x s2"
    by (auto simp: k)
  have f: "get_table_frequency 0 s1 = get_table_frequency 0 s" by (simp add: get_table_frequency_def k)
  have t: "threads s1 = threads s" by (simp add: threads_def fun_eq_iff k)
  have "readjust pol s1 = Some (get_table_frequency 0 s, s2)" using s2(1) g f by (simp add: readjust_def k)
  moreover have "s2 = s\<lparr>tasks := tasks s2\<rparr>" by (rule tasks_only_trans [OF calm_same(1) [OF c] s2(3)])
  moreover have "at_critical_instant s (get_table_frequency 0 s) (cpuinfo_max_freq pol) x s2" if "x \<in> set ts" for x

    by (rule at_critical_instant_frame [OF _ calm_same(2) [OF c]]) (use s2(5) that f in \<open>simp_all add: k t\<close>)
  moreover have "rt_view (tasks s2 u) = rt_view (tasks s u) \<and> policy (tasks s2 u) = policy (tasks s u) \<and> (runnable s u \<longrightarrow> runnable s2 u)"
    if u: "u \<notin> set (concat (map (threads s) ts))" for u
  proof -
    have "u \<notin> set ts" using u by (auto simp: threads_def)
    with o(2) [OF u] s2(4) apply_sysclock_keeps [OF s2(1), of u] show ?thesis by (simp add: runnable_def)
  qed
  ultimately show ?thesis using s1 s2(2) by blast
qed



end
