(* ===== verification/ProcInfo.thy ===== *)
theory ProcInfo
  imports Kernel
begin

text \<open>
  The system calls that report on processes (\<open>get_process_count/\<close>, \<open>get_current_processes/\<close>,
  \<open>getProcessComputeTime/\<close>), the first system call \<open>mycall/\<close>, and the display brightness
  (\<open>setDisplayBrightness/\<close>, \<open>__set_brightness\<close> of \<open>drivers/video/backlight/backlight.c\<close>).

  Kernel memory is a list of characters of the size that was asked for; a write outside of it,
  or through the null pointer of a failed allocation, is \<open>None\<close>, and so is a lock that is never
  obtained.
\<close>

subsection \<open>Counting and looking up\<close>

definition sys_get_process_count :: "kst \<Rightarrow> (int \<times> kst) option" where
  "sys_get_process_count s = do {
     s \<leftarrow> read_lock s;
     let counter = fold (\<lambda>c counter. counter + 1) (process_list s) 0;
     Some (counter, read_unlock s)
   }"

abbreviation (input) PID_MAX_LIMIT :: int where "PID_MAX_LIMIT \<equiv> 32768"

definition sys_getProcessComputeTime :: "int \<Rightarrow> kst \<Rightarrow> (int \<times> kst) option" where
  "sys_getProcessComputeTime nr s =
     (if nr < 0 \<or> PID_MAX_LIMIT \<le> nr then Some (- EINVAL, s)
      else do {
        s \<leftarrow> read_lock s;
        let cur = find_task_by_vpid nr s;
        let s = read_unlock s;
        Some (if cur = None then - ESRCH else 0, s)
      })"

text \<open>The result is the return value and the value stored for the caller, if any.\<close>

definition sys_mycall :: "bool \<Rightarrow> bool \<Rightarrow> bool \<Rightarrow> s32 \<Rightarrow> s32 \<Rightarrow> int \<times> s64 option" where
  "sys_mycall null access_ok copied num1 num2 =
     (if null then (- 1, None)
      else if \<not> access_ok then (- EFAULT, None)
      else
        let local_sum = (scast num1 :: s64) + scast num2
        in if \<not> copied then (- 1, None) else (0, Some local_sum))"

subsection \<open>The list of processes as text\<close>

fun show_nat :: "nat \<Rightarrow> string" where
  "show_nat n = (if n < 10 then [char_of (48 + n)] else show_nat (n div 10) @ [char_of (48 + n mod 10)])"

declare show_nat.simps [simp del]

definition show_int :: "int \<Rightarrow> string" where
  "show_int i = (if i < 0 then ''-'' @ show_nat (nat (- i)) else show_nat (nat i))"

abbreviation (input) NUL :: char where "NUL \<equiv> CHR 0x00"

definition process_line :: "task_struct \<Rightarrow> string" where
  "process_line p = ''Pid = ['' @ show_int (pid p) @ ''] Prio = ['' @ show_int (normal_prio p) @
     ''] Name = ['' @ comm p @ '']'' @ [CHR 0x0A]"

text \<open>\<open>sprintf(buf + off, ...)\<close> and \<open>strlen(buf)\<close>.\<close>

definition sprintf_at :: "nat \<Rightarrow> string \<Rightarrow> string \<Rightarrow> string option" where
  "sprintf_at off str m =
     (if off + length str < length m then Some (take off m @ str @ NUL # drop (off + length str + 1) m) else None)"

definition strlen :: "string \<Rightarrow> nat" where
  "strlen m = length (takeWhile (\<lambda>c. c \<noteq> NUL) m)"

definition BUF_LEN :: nat where "BUF_LEN = 80"

text \<open>The first run through the list: each line is printed into \<open>temp\<close>, which has \<open>BUF_LEN\<close> bytes.\<close>

definition total_length :: "task_struct list \<Rightarrow> nat option" where
  "total_length ps = foldo (\<lambda>p total_len.
     if length (process_line p) < BUF_LEN then Some (total_len + strlen (process_line p @ [NUL])) else None) ps 0"

definition print_lines :: "task_struct list \<Rightarrow> string \<Rightarrow> (nat \<times> string) option" where
  "print_lines ps my_msg = foldo (\<lambda>p (msg_offset, my_msg). do {
     my_msg \<leftarrow> sprintf_at msg_offset (process_line p) my_msg;
     Some (strlen my_msg, my_msg)
   }) ps (0, my_msg)"

text \<open>
  \<open>kmalloc\<close> answers with the old contents of the memory, of the size it is asked for; \<open>copied\<close> says
  whether the copy to user space succeeds. The result is the return value, what was copied and
  the state.
\<close>

definition sys_get_current_processes ::
    "(nat \<Rightarrow> string option) \<Rightarrow> bool \<Rightarrow> bool \<Rightarrow> bool \<Rightarrow> int \<Rightarrow> kst \<Rightarrow> (int \<times> string \<times> kst) option" where
  "sys_get_current_processes kmalloc null access_ok copied n s =
     (if null \<or> n \<le> 0 then Some (- 1, [], s)
      else if \<not> access_ok then Some (- EFAULT, [], s)
      else do {
        s \<leftarrow> read_lock s;
        let ps = map (tasks s) (process_list s);
        total_len \<leftarrow> total_length ps;
        my_msg \<leftarrow> kmalloc (total_len + 1);
        (msg_offset, my_msg) \<leftarrow> print_lines ps my_msg;
        let s = read_unlock s;
        let len = (if n < int total_len + 1 then nat (n - 1) else total_len + 1);
        my_msg \<leftarrow> (if len < length my_msg then Some (my_msg[len := NUL]) else None);
        let return_buf_len = strlen my_msg;
        if \<not> copied then Some (- EFAULT, [], s)
        else Some (int total_len - int return_buf_len, take (return_buf_len + 1) my_msg, s)
      })"

subsection \<open>The display\<close>

record backlight_device =
  ops_lock :: bool
  bd_ops :: bool
  max_brightness :: u32
  brightness :: u32

definition set_brightness_dev :: "u32 \<Rightarrow> backlight_device \<Rightarrow> (int \<times> backlight_device) option" where
  "set_brightness_dev br bd =
     (if ops_lock bd then None
      else
        let bd = bd\<lparr>ops_lock := True\<rparr> in
        if bd_ops bd \<and> max_brightness bd < br then Some (- EINVAL, bd)
        else
          let bd = (if bd_ops bd then bd\<lparr>brightness := br\<rparr> else bd)
          in Some (0, bd\<lparr>ops_lock := False\<rparr>))"

text \<open>\<open>class_for_each_device\<close>: the devices in order, up to the first error.\<close>

fun class_for_each_device :: "('d \<Rightarrow> (int \<times> 'd) option) \<Rightarrow> 'd list \<Rightarrow> (int \<times> 'd list) option" where
  "class_for_each_device fn [] = Some (0, [])"
| "class_for_each_device fn (d # ds) = do {
     (error, d) \<leftarrow> fn d;
     if error \<noteq> 0 then Some (error, d # ds)
     else do { (error, ds) \<leftarrow> class_for_each_device fn ds; Some (error, d # ds) }
   }"

definition sys_setDisplayBrightness :: "s32 \<Rightarrow> backlight_device list \<Rightarrow> (int \<times> backlight_device list) option" where
  "sys_setDisplayBrightness val bds =
     (if val <s 10 \<or> 255 <s val then Some (- EINVAL, bds)
      else do { (retval, bds) \<leftarrow> class_for_each_device (set_brightness_dev val) bds; Some (0, bds) })"

subsection \<open>Printing\<close>

lemma char_digit: "k < 10 \<Longrightarrow> char_of (48 + k :: nat) \<noteq> NUL"
proof
  assume "k < 10" "char_of (48 + k) = NUL"
  then have "(48 + k) mod 256 = (of_char NUL :: nat)" by (metis of_char_of)
  with \<open>k < 10\<close> show False by simp
qed

lemma show_nat_NUL: "NUL \<notin> set (show_nat n)"
proof (induction n rule: show_nat.induct)
  case (1 n)
  have "char_of (48 + n mod 10) \<noteq> NUL" by (rule char_digit) simp
  with 1 show ?case using char_digit [of n] by (subst show_nat.simps) auto
qed

lemma process_line_NUL: "NUL \<notin> set (comm p) \<Longrightarrow> NUL \<notin> set (process_line p)"
  by (simp add: process_line_def show_int_def show_nat_NUL)

lemma strlen_terminated: "NUL \<notin> set xs \<Longrightarrow> strlen (xs @ NUL # ys) = length xs"
proof -
  assume "NUL \<notin> set xs"
  then have "\<And>x. x \<in> set xs \<Longrightarrow> x \<noteq> NUL" by auto
  then have "takeWhile (\<lambda>c. c \<noteq> NUL) (xs @ NUL # ys) = xs" by (subst takeWhile_append2) auto
  then show ?thesis by (simp add: strlen_def)
qed

lemma total_length_eq:
  assumes "\<forall>p \<in> set ps. NUL \<notin> set (comm p) \<and> length (process_line p) < BUF_LEN"
  shows "total_length ps = Some (length (concat (map process_line ps)))"
proof -
  have "foldo (\<lambda>p total_len. if length (process_line p) < BUF_LEN then Some (total_len + strlen (process_line p @ [NUL])) else None) ps k =
      Some (k + length (concat (map process_line ps)))" for k
    using assms by (induction ps arbitrary: k) (auto simp: strlen_terminated process_line_NUL)
  then show ?thesis by (simp add: total_length_def)
qed

lemma print_lines_eq:
  assumes "\<forall>p \<in> set ps. NUL \<notin> set (comm p)" "ps \<noteq> []" "length m = length (concat (map process_line ps)) + 1"
  shows "print_lines ps m = Some (length (concat (map process_line ps)), concat (map process_line ps) @ [NUL])"
proof -
  let ?f = "\<lambda>p (msg_offset, my_msg). do {
     my_msg \<leftarrow> sprintf_at msg_offset (process_line p) my_msg; Some (strlen my_msg, my_msg) }"
  have "foldo ?f ps (length pre, pre @ rest) =
      Some (length (pre @ concat (map process_line ps)), pre @ concat (map process_line ps) @ (if ps = [] then rest else [NUL]))"
    if "NUL \<notin> set pre" "length rest = length (concat (map process_line ps)) + 1" "\<forall>p \<in> set ps. NUL \<notin> set (comm p)" for pre rest
    using that
  proof (induction ps arbitrary: pre rest)
    case (Cons p ps)
    let ?l = "process_line p" and ?r = "NUL # drop (length (process_line p) + 1) rest"
    have l: "NUL \<notin> set ?l" using Cons.prems(3) by (simp add: process_line_NUL)
    have "sprintf_at (length pre) ?l (pre @ rest) = Some ((pre @ ?l) @ ?r)"
      using Cons.prems(2) by (simp add: sprintf_at_def)
    moreover have "strlen ((pre @ ?l) @ ?r) = length (pre @ ?l)" using Cons.prems(1) l by (intro strlen_terminated) simp
    moreover have "length ?r = length (concat (map process_line ps)) + 1" using Cons.prems(2) by simp
    ultimately show ?case
      using Cons.IH [of "pre @ ?l" ?r] Cons.prems(1,3) l by (cases ps) simp_all
  qed simp
  from this [of "[]" m] assms show ?thesis by (simp add: print_lines_def)
qed

subsection \<open>Properties\<close>

text \<open>
  C37. The list of processes and the byte behind it. While the caller's buffer is too small for the
  whole text, \<open>sys_get_current_processes\<close> copies the first \<open>n - 1\<close> characters of it and a
  terminator, and returns how many characters are missing, with the lock released. As soon as the
  buffer is large enough, the terminator is written one byte behind the kernel's own buffer.
\<close>

theorem get_current_processes_overruns:
  assumes lock: "tasklist_lock s = Unlocked" and ps: "ps = map (tasks s) (process_list s)" "ps \<noteq> []"
    and names: "\<forall>p \<in> set ps. NUL \<notin> set (comm p) \<and> length (process_line p) < BUF_LEN"
    and msg: "msg = concat (map process_line ps)" and mem: "kmalloc (length msg + 1) = Some m" "length m = length msg + 1"
    and n: "0 < n"
  shows "sys_get_current_processes kmalloc False True True n s =
     (if n \<le> int (length msg) then Some (int (length msg) - (n - 1), take (nat (n - 1)) msg @ [NUL], s) else None)"
proof -
  have t: "total_length ps = Some (length msg)" using total_length_eq [OF names] by (simp add: msg)
  have p: "print_lines ps m = Some (length msg, msg @ [NUL])"
    using print_lines_eq [of ps m] names ps(2) mem(2) by (simp add: msg)
  have z: "NUL \<notin> set msg" using names process_line_NUL by (auto simp: msg)
  have u: "read_unlock (s\<lparr>tasklist_lock := Readers (Suc 0)\<rparr>) = s" using lock by (simp add: read_unlock_def)
  show ?thesis
  proof (cases "n \<le> int (length msg)")
    case True
    let ?k = "nat (n - 1)"
    have k: "?k < length msg" "n < int (length msg) + 1" using True n by simp_all
    have e: "(msg @ [NUL])[?k := NUL] = take ?k msg @ NUL # drop (Suc ?k) (msg @ [NUL])"
      using k(1) by (simp add: upd_conv_take_nth_drop)
    have s: "strlen ((msg @ [NUL])[?k := NUL]) = ?k"
      unfolding e using z k(1) by (subst strlen_terminated) (auto dest: in_set_takeD)
    show ?thesis
      using lock t p mem(1) n k True s by (simp add: sys_get_current_processes_def u e flip: ps(1))
  next
    case False
    then show ?thesis using lock t p mem(1) n by (simp add: sys_get_current_processes_def flip: ps(1))
  qed
qed

theorem get_current_processes_overruns_witness:
  "\<exists>msg :: string. sys_get_current_processes (\<lambda>k. Some (replicate k CHR 0x58)) False True True 6 boot =
       Some (int (length msg) - 5, ''Pid ='' @ [NUL], boot) \<and>
     sys_get_current_processes (\<lambda>k. Some (replicate k CHR 0x58)) False True True 100 boot = None"
proof -
  let ?ps = "map (tasks boot) (process_list boot)"
  define msg where "msg = concat (map process_line ?ps)"
  have l: "tasklist_lock boot = Unlocked" "?ps \<noteq> []" by (simp_all add: boot_def)
  have c: "\<forall>p \<in> set ?ps. NUL \<notin> set (comm p) \<and> length (process_line p) < BUF_LEN"
    "int (length msg) < 100" "6 \<le> int (length msg)" "take 5 msg = ''Pid =''"
    unfolding msg_def by code_simp+
  have k: "Some (replicate (length msg + 1) CHR 0x58) = Some (replicate (length msg + 1) CHR 0x58)"
    "length (replicate (length msg + 1) CHR 0x58) = length msg + 1" by simp_all
  note w = get_current_processes_overruns [OF l(1) refl l(2) c(1) msg_def, where kmalloc = "\<lambda>k. Some (replicate k CHR 0x58)", OF k]
  show ?thesis using w [of 6] w [of 100] c(2-4) by (intro exI [of _ msg]) simp
qed

text \<open>
  C38. \<open>__set_brightness\<close> returns with \<open>ops_lock\<close> held when the value is above the maximum of a device. A
  call for such a value reports success, and every later call for an accepted value never returns.
\<close>

theorem setDisplayBrightness_deadlocks:
  assumes "10 \<le>s v" "v \<le>s 255" "\<not> ops_lock d" "bd_ops d" "max_brightness d < v" "10 \<le>s w" "w \<le>s 255"
  shows "\<exists>d'. sys_setDisplayBrightness v (d # ds) = Some (0, d' # ds) \<and> brightness d' = brightness d \<and>
     sys_setDisplayBrightness w (d' # ds) = None"
  using assms
  by (intro exI [of _ "d\<lparr>ops_lock := True\<rparr>"])
    (auto simp: sys_setDisplayBrightness_def set_brightness_dev_def word_sle_eq word_sless_alt)

theorem setDisplayBrightness_deadlocks_witness:
  "\<exists>bds. sys_setDisplayBrightness 200 [\<lparr>ops_lock = False, bd_ops = True, max_brightness = 100, brightness = 50\<rparr>] = Some (0, bds) \<and>
     sys_setDisplayBrightness 50 bds = None"
  using setDisplayBrightness_deadlocks
      [of 200 "\<lparr>ops_lock = False, bd_ops = True, max_brightness = 100, brightness = 50\<rparr>" 50 "[]"]
  by (auto simp: word_sle_eq)

end
