(* ===== verification/Frames.thy ===== *)
theory Frames
  imports Cancel ProcInfo
begin

text \<open>
  What the operations leave alone as a whole: the spin locks of the tasks and the flags of the
  extensions (\<open>gv\<close>), for the services, the lists, the power schemes, bin packing, the budget calls
  and the exit of a task; and \<open>kept\<close>, which adds that the task list lock is released again, for the
  scheduler and the timers.
\<close>

subsection \<open>What the operations leave alone\<close>

text \<open>The spin locks and the flags of the extensions.\<close>

definition gv where
  "gv s = ((\<lambda>t. task_spin_lock (tasks s t)), power_scheme s, is_bin_packing_set s, global_sysclock s, bin_packing_scheme s)"

lemma gv_upd [simp]: "(\<And>p. task_spin_lock (f p) = task_spin_lock p) \<Longrightarrow> gv (upd_task t f s) = gv s"
  by (auto simp: gv_def)

lemma gv_fields [simp]:
  "gv (s\<lparr>lists := h\<rparr>) = gv s" "gv (s\<lparr>periodic_tasks_size := n\<rparr>) = gv s" "gv (s\<lparr>per_cpu_list_size := m\<rparr>) = gv s"
  "gv (s\<lparr>cpu_util := u\<rparr>) = gv s" "gv (s\<lparr>tasklist_lock := l\<rparr>) = gv s" "gv (s\<lparr>policy_refs := r\<rparr>) = gv s"
  "gv (s\<lparr>cpufreq := c\<rparr>) = gv s" "gv (s\<lparr>events := e\<rparr>) = gv s" "gv (s\<lparr>current := t\<rparr>) = gv s"
  "gv (s\<lparr>pid_task := p\<rparr>) = gv s" "gv (s\<lparr>thread_group := g\<rparr>) = gv s" "gv (s\<lparr>process_list := q\<rparr>) = gv s"
  "gv (s\<lparr>is_freq_lock_taken := b\<rparr>) = gv s" "gv (s\<lparr>mono_clock := k\<rparr>) = gv s" "gv (s\<lparr>raw_clock := w\<rparr>) = gv s"
  by (simp_all add: gv_def)

lemma gv_locks [simp]: "gv (write_unlock s) = gv s" "gv (read_unlock s) = gv s"
  by (simp_all add: write_unlock_def read_unlock_def split: rwlock.split)

lemma gv_lock: "write_lock s = Some s' \<Longrightarrow> gv s' = gv s" "read_lock s = Some s' \<Longrightarrow> gv s' = gv s"
  by (auto simp: write_lock_def read_lock_def split: if_splits rwlock.splits)

lemma gv_fold: "(\<And>x s. gv (f x s) = gv s) \<Longrightarrow> gv (fold f xs s) = gv s"
  by (induction xs arbitrary: s) auto

lemma gv_foldo: "(\<And>x s s'. f x s = Some s' \<Longrightarrow> gv (snd s') = gv (snd s)) \<Longrightarrow> foldo f xs s = Some s' \<Longrightarrow> gv (snd s') = gv (snd s)"
  by (induction xs arbitrary: s) (auto simp: bind_eq_Some_conv)

lemma gv_foldo1: "(\<And>x s s'. f x s = Some s' \<Longrightarrow> gv s' = gv s) \<Longrightarrow> foldo f xs s = Some s' \<Longrightarrow> gv s' = gv s"
  by (induction xs arbitrary: s) (auto simp: bind_eq_Some_conv)

lemma gv_each [simp]: "(\<And>x s. gv (f x s) = gv s) \<Longrightarrow> gv (each_thread t f s) = gv s"
  by (simp only: each_thread_def gv_fold)

lemma gv_calm: "calm s s' \<Longrightarrow> gv s' = gv s"
proof -
  assume c: "calm s s'"
  then have "gv (s\<lparr>tasks := tasks s'\<rparr>) = gv s" by (simp add: gv_def calmD fun_eq_iff)
  then show ?thesis using calm_same(1) [OF c] by simp
qed

lemma gv_services [simp]:
  "gv (snd (wake_up_process t s)) = gv s" "gv (set_task_state t x s) = gv s" "gv (set_tsk_need_resched t s) = gv s"
  "gv (clear_tsk_need_resched t s) = gv s" "gv (snd (cpufreq_cpu_get c s)) = gv s" "gv (cpufreq_driver_target c f s) = gv s"
  "gv (set_policy_limits c a b s) = gv s" "gv (snd (sched_setscheduler_nocheck t pol pr s)) = gv s"
  "gv (snd (sched_setaffinity nr m s)) = gv s" "gv (set_budget_flags t v s) = gv s" "gv (make_normal t s) = gv s"
proof -
  show "gv (snd (wake_up_process t s)) = gv s" by (rule gv_calm [OF calm_wake])
  show n: "gv (snd (sched_setscheduler_nocheck t pol pr s)) = gv s" for t pol pr s by (rule gv_calm [OF calm_setscheduler])
  show "gv (set_task_state t x s) = gv s" "gv (set_tsk_need_resched t s) = gv s" "gv (clear_tsk_need_resched t s) = gv s"
    "gv (snd (cpufreq_cpu_get c s)) = gv s" "gv (set_policy_limits c a b s) = gv s"
    by (simp_all add: set_task_state_def set_tsk_need_resched_def clear_tsk_need_resched_def cpufreq_cpu_get_def
        set_policy_limits_def split: option.split)
  show "gv (cpufreq_driver_target c f s) = gv s"
    by (simp add: cpufreq_driver_target_def cpufreq_cpu_get_def cpufreq_cpu_put_def driver_target_def split: option.split)
  show "gv (snd (sched_setaffinity nr m s)) = gv s"
    by (simp add: sched_setaffinity_def set_cpus_allowed_ptr_def split: option.split)
  show "gv (set_budget_flags t v s) = gv s" by (simp add: set_budget_flags_def)
  show "gv (make_normal t s) = gv s" by (simp add: make_normal_def n Let_def)
qed

lemma gv_lists:
  "add_periodic_task t s = Some s' \<Longrightarrow> gv s' = gv s" "del_periodic_task t s = Some s' \<Longrightarrow> gv s' = gv s"
  "add_task_to_cpu t c s = Some s' \<Longrightarrow> gv s' = gv s" "del_task_cpu t c s = Some s' \<Longrightarrow> gv s' = gv s"
  by (auto simp: add_periodic_task_def del_periodic_task_def add_task_to_cpu_def del_task_cpu_def Let_def
      bind_eq_Some_conv split: if_splits)

lemma gv_clear: "clear_cpu_lists s = Some s' \<Longrightarrow> gv s' = gv s"
proof -
  have "clear_cpu_list c s = Some s' \<Longrightarrow> gv s' = gv s" for c s s'
    by (auto simp: clear_cpu_list_def Let_def bind_eq_Some_conv split: if_splits)
  then show "clear_cpu_lists s = Some s' \<Longrightarrow> gv s' = gv s"
    unfolding clear_cpu_lists_def by (rule gv_foldo1)
qed

lemma gv_priorities:
  "set_rt_priorities s = Some (r, s') \<Longrightarrow> gv s' = gv s" "set_rt_priorities_per_cpu c s = Some (r, s') \<Longrightarrow> gv s' = gv s"
  by (blast intro: gv_calm calm_set_rt_priorities)+

lemma gv_sysclock:
  "sysclock f xs s = Some (r, s') \<Longrightarrow> gv s' = gv s" "sysclock_per_cpu f xs n s = Some (r, s') \<Longrightarrow> gv s' = gv s"
proof -
  have from_: "sysclock_from xs is b m s = Some (r, s') \<Longrightarrow> gv s' = gv s" for "is" b m r s s'
    by (induction "is" arbitrary: b m s) (auto simp: bind_eq_Some_conv Let_def split: if_splits)
  show "sysclock f xs s = Some (r, s') \<Longrightarrow> gv s' = gv s" "sysclock_per_cpu f xs n s = Some (r, s') \<Longrightarrow> gv s' = gv s"
    by (auto simp: sysclock_def sysclock_per_cpu_def bind_eq_Some_conv split: if_splits dest: from_)
qed

lemma gv_apply [simp]: "gv (apply_frequency f m t s) = gv s" "gv (restart_period_timer t s) = gv s"
  by (simp_all add: apply_frequency_def restart_period_timer_def Let_def)

lemma gv_apply_sysclock:
  "apply_sysclock f m s = Some (r, s') \<Longrightarrow> gv s' = gv s" "apply_sysclock_per_cpu f m c s = Some (r, s') \<Longrightarrow> gv s' = gv s"
  by (auto simp: apply_sysclock_def apply_sysclock_per_cpu_def Let_def bind_eq_Some_conv gv_fold)

lemma gv_pmclock:
  "pmclock xs s = Some s' \<Longrightarrow> gv s' = gv s" "apply_pmclock m s = Some (r, s') \<Longrightarrow> gv s' = gv s"
  "gv (set_pmclock_freq c f s) = gv s"
proof -
  have "pm_from xs n is mf pf s = Some s' \<Longrightarrow> gv s' = gv s" for n "is" mf pf s s'
    by (induction "is" arbitrary: mf pf s) (auto simp: bind_eq_Some_conv Let_def split: if_splits)
  then show "pmclock xs s = Some s' \<Longrightarrow> gv s' = gv s" by (auto simp: pmclock_def Let_def split: if_splits)
  show "apply_pmclock m s = Some (r, s') \<Longrightarrow> gv s' = gv s"
    by (auto simp: apply_pmclock_def Let_def bind_eq_Some_conv gv_fold)
  show "gv (set_pmclock_freq c f s) = gv s"
    by (simp add: set_pmclock_freq_def cpufreq_cpu_get_def driver_target_def split: option.split)
qed

text \<open>With the task list lock, which bin packing does not take.\<close>

definition gvt where "gvt s = (gv s, tasklist_lock s)"

lemma gvt_iff: "gvt s' = gvt s \<longleftrightarrow> gv s' = gv s \<and> tasklist_lock s' = tasklist_lock s"
  by (auto simp: gvt_def)

lemma gvt_clear: "clear_cpu_lists s = Some s' \<Longrightarrow> gvt s' = gvt s"
proof -
  assume a: "clear_cpu_lists s = Some s'"
  have "clear_cpu_list c s = Some s' \<Longrightarrow> tasklist_lock s' = tasklist_lock s" for c s s'
    by (auto simp: clear_cpu_list_def Let_def bind_eq_Some_conv split: if_splits)
  then have "foldo clear_cpu_list cs s = Some s' \<Longrightarrow> tasklist_lock s' = tasklist_lock s" for cs s s'
    by (induction cs arbitrary: s) (auto simp: bind_eq_Some_conv)
  then show ?thesis using a gv_clear [OF a] unfolding clear_cpu_lists_def gvt_iff by blast
qed

lemma gvt_place: "place x j b = Some b' \<Longrightarrow> gvt (kern b') = gvt (kern b)"
proof -
  have tl: "add_task_to_cpu t c s = Some s' \<Longrightarrow> tasklist_lock s' = tasklist_lock s" for t c s s'
    by (auto simp: add_task_to_cpu_def Let_def bind_eq_Some_conv split: if_splits)
  have "tasklist_lock (snd (sched_setaffinity nr m s)) = tasklist_lock s" for nr m s
    by (simp add: sched_setaffinity_def set_cpus_allowed_ptr_def split: option.split)
  then show "place x j b = Some b' \<Longrightarrow> gvt (kern b') = gvt (kern b)"
    by (auto simp: gvt_iff place_def Let_def bind_eq_Some_conv gv_lists(3) tl)
qed

lemma gvt_schemes:
  "ffd_task x b = Some (r, b') \<Longrightarrow> gvt (kern b') = gvt (kern b)" "nfd_task x b = Some (r, b') \<Longrightarrow> gvt (kern b') = gvt (kern b)"
  "fit_loop rank x j b = Some (r, b') \<Longrightarrow> gvt (kern b') = gvt (kern b)"
proof -
  show "ffd_task x b = Some (r, b') \<Longrightarrow> gvt (kern b') = gvt (kern b)"
  proof (induction x b rule: ffd_task.induct)
    case (1 x b)
    show ?case using 1(2) 1(1)
      by (subst (asm) ffd_task.simps) (force simp: bind_eq_Some_conv Let_def dest: gvt_place split: option.splits if_splits)
  qed
  show "gvt (kern b') = gvt (kern b)" if n: "nfd_task x b = Some (r, b')"
  proof -
    obtain z where z: "nfd_search x (current_bins b) (prev_bin b) b = Some z"
      using n by (auto simp: nfd_task_def bind_eq_Some_conv)
    then show ?thesis using n
      by (cases z) (auto simp: nfd_task_def Let_def bind_eq_Some_conv dest!: gvt_place split: if_splits)
  qed
  show "fit_loop rank x j b = Some (r, b') \<Longrightarrow> gvt (kern b') = gvt (kern b)"
  proof (induction rank x j b rule: fit_loop.induct)
    case (1 rank x j b)
    show ?case using 1(2) 1(1)
      by (subst (asm) fit_loop.simps) (force simp: bind_eq_Some_conv Let_def dest: gvt_place split: if_splits)
  qed
qed

lemma gvt_pack_tasks:
  assumes f: "\<And>x b r b'. f x b = Some (r, b') \<Longrightarrow> gvt (kern b') = gvt (kern b)"
  shows "pack_tasks f xs b = Some (r, b') \<Longrightarrow> gvt (kern b') = gvt (kern b)"
proof (induction xs arbitrary: b)
  case (Cons x xs)
  then obtain ok b1 where b1: "f x b = Some (ok, b1)" "(if ok then pack_tasks f xs b1 else Some (False, b1)) = Some (r, b')"
    by (auto simp: bind_eq_Some_conv)
  then show ?case using f [OF b1(1)] Cons.IH by (auto split: if_splits)
qed simp

lemma gvt_bin_packing: "bin_packing sc s = Some (r, s') \<Longrightarrow> gvt s' = gvt s"
  by (auto simp: bin_packing_def Let_def bind_eq_Some_conv bfd_task_def wfd_task_def split: if_splits
      dest!: gvt_pack_tasks [rotated] gvt_schemes)

lemma gv_budget:
  "reset_period_timer t s = Some s' \<Longrightarrow> gv s' = gv s" "reset_budget_timer t s = Some s' \<Longrightarrow> gv s' = gv s"
  "set_parameters t tb per s = Some s' \<Longrightarrow> gv s' = gv s" "cancel_timers t s = Some s' \<Longrightarrow> gv s' = gv s"
  by (auto simp: reset_period_timer_def reset_budget_timer_def set_parameters_def cancel_timers_def Let_def
      bind_eq_Some_conv split: if_splits dest!: gv_lists(1))

lemma gv_start_task: "start_task t b pol s = Some (r, s') \<Longrightarrow> gv s' = gv s"
  by (auto simp: start_task_def Let_def bind_eq_Some_conv split: if_splits
      dest!: gv_sysclock gv_apply_sysclock gv_pmclock(1,2))

lemma gv_give_budget: "give_budget t b tb per pol s = Some (r, s') \<Longrightarrow> gv s' = gv s"
proof -
  assume "give_budget t b tb per pol s = Some (r, s')"
  then obtain s1 s2 s3 s4 where s: "(if is_budget_set (tasks s t) = 1 then del_periodic_task t s else Some s) = Some s1"
    "reset_period_timer t s1 = Some s2" "reset_budget_timer t s2 = Some s3" "set_parameters t tb per s3 = Some s4"
    and r: "(if is_bin_packing_set s4 = 0 then set_rt_priorities s4 \<bind> (\<lambda>(r, s). start_task t b pol s) else Some (0, s4)) = Some (r, s')"
    by (auto simp: give_budget_def bind_eq_Some_conv)
  have "gv s1 = gv s" using s(1) by (auto split: if_splits dest: gv_lists(2))
  moreover have "gv s' = gv s4" using r by (auto simp: bind_eq_Some_conv split: if_splits dest!: gv_priorities gv_start_task)
  ultimately show ?thesis using gv_budget(1) [OF s(2)] gv_budget(2) [OF s(3)] gv_budget(3) [OF s(4)] by simp
qed

lemma gv_readjust: "readjust pol s = Some (r, s') \<Longrightarrow> gv s' = gv s"
  by (auto simp: readjust_def bind_eq_Some_conv split: if_splits
      dest!: gv_sysclock gv_apply_sysclock gv_pmclock(1))

lemma gv_start:
  "start_cpu_global mf i (m, s) = Some (m', s') \<Longrightarrow> gv s' = gv s" "start_cpu i s = Some s' \<Longrightarrow> gv s' = gv s"
  "set_cpu_freq f i s = Some s' \<Longrightarrow> gv s' = gv s"
  by (auto simp: start_cpu_global_def start_cpu_def set_cpu_freq_def cpufreq_cpu_get_def Let_def bind_eq_Some_conv gv_fold
      split: if_splits option.splits dest!: gv_priorities gv_sysclock)

lemma gv_stop [simp]: "gv (stop_task t s) = gv s"
  by (simp add: stop_task_def Let_def)

text \<open>The last part of \<open>exit_leader\<close>, and the part for the lists of the processors.\<close>

lemma gv_leave_cpu:
  "(if b then del_task_cpu t c s \<bind> (\<lambda>s. set_rt_priorities_per_cpu (d s) s \<bind> (\<lambda>(r, s). Some s)) else Some s) = Some s' \<Longrightarrow> gv s' = gv s"
  by (auto simp: bind_eq_Some_conv split: if_splits dest!: gv_lists(4) gv_priorities(2))

lemma gv_exit: "exit_leader pol t s = Some (r, s') \<Longrightarrow> gv s' = gv s"
proof -
  assume "exit_leader pol t s = Some (r, s')"
  then obtain h s2 s3 s4 where s: "del_periodic_task t (upd_task t (\<lambda>p. p\<lparr>period_timer := h, budget_timer := snd (hrtimer_try_to_cancel (budget_timer p))\<rparr>)
        (set_budget_flags t 0 s)) = Some s2"
    "(if is_bin_packing_set s2 = 1 then del_task_cpu t (nat (cpu_no (tasks s2 t))) s2 \<bind>
        (\<lambda>s. set_rt_priorities_per_cpu (nat (cpu_no (tasks s t))) s \<bind> (\<lambda>(r, s). Some s)) else Some s2) = Some s3"
    "(if is_bin_packing_set s3 = 0 then set_rt_priorities s3 \<bind> (\<lambda>(r, s). Some s) else Some s3) = Some s4"
    and r: "(if power_scheme s4 = 1 \<and> is_bin_packing_set s4 = 0 then make_task_ct_struct s4 \<bind>
         (\<lambda>list. sysclock (cpuinfo_max_freq pol div 1000) list s4 \<bind> (\<lambda>(f, s). apply_sysclock f (cpuinfo_max_freq pol) s))
       else if power_scheme s4 = 2 \<and> is_bin_packing_set s4 = 0 then make_task_ct_struct s4 \<bind>
         (\<lambda>list. sysclock (cpuinfo_max_freq pol div 1000) list s4 \<bind> (\<lambda>(f, s). pmclock list s \<bind> (\<lambda>s. Some (0, s))))
       else Some (0, s4)) = Some (r, s')"
    by (auto simp: exit_leader_def Let_def bind_eq_Some_conv)
  have "gv s4 = gv s3" using s(3) by (auto simp: bind_eq_Some_conv split: if_splits dest!: gv_priorities(1))
  moreover have "gv s' = gv s4" using r by (auto simp: bind_eq_Some_conv split: if_splits dest!: gv_sysclock gv_apply_sysclock gv_pmclock(1))
  ultimately show ?thesis using gv_lists(2) [OF s(1)] gv_leave_cpu [OF s(2)] by simp
qed


subsection \<open>Sections under a lock\<close>

lemma gvD:
  assumes "gv s' = gv s"
  shows "task_spin_lock (tasks s' t) = task_spin_lock (tasks s t)" "power_scheme s' = power_scheme s"
    "is_bin_packing_set s' = is_bin_packing_set s" "global_sysclock s' = global_sysclock s"
    "bin_packing_scheme s' = bin_packing_scheme s"
  using assms by (auto simp: gv_def dest: fun_cong)

lemma gvI:
  "(\<And>t. task_spin_lock (tasks s' t) = task_spin_lock (tasks s t)) \<Longrightarrow> power_scheme s' = power_scheme s \<Longrightarrow>
   is_bin_packing_set s' = is_bin_packing_set s \<Longrightarrow> global_sysclock s' = global_sysclock s \<Longrightarrow>
   bin_packing_scheme s' = bin_packing_scheme s \<Longrightarrow> gv s' = gv s"
  by (simp add: gv_def)

lemma gv_section:
  assumes "spin_lock l s = Some s1" "gv s2 = gv s1"
  shows "gv (spin_unlock l s2) = gv s"
proof -
  have s1: "s1 = upd_task l (\<lambda>p. p\<lparr>task_spin_lock := True\<rparr>) s" "\<not> task_spin_lock (tasks s l)"
    using assms(1) by (simp_all add: spin_lock_def split: if_splits)
  show ?thesis by (rule gvI) (use s1 gvD [OF assms(2)] in \<open>simp_all add: spin_unlock_def\<close>)
qed

lemma spin_lock_tl: "spin_lock l s = Some s1 \<Longrightarrow> tasklist_lock s1 = tasklist_lock s"
  by (auto simp: spin_lock_def split: if_splits)

lemma tl_simps [simp]:
  "tasklist_lock (spin_unlock l s) = tasklist_lock s" "tasklist_lock (write_unlock s) = Unlocked"
  "tasklist_lock (cpufreq_driver_target c f s) = tasklist_lock s" "tasklist_lock (set_policy_limits c a b s) = tasklist_lock s"
  "tasklist_lock (set_pmclock_freq c f s) = tasklist_lock s" "tasklist_lock (snd (cpufreq_cpu_get c s)) = tasklist_lock s"
  "tasklist_lock (set_task_state t x s) = tasklist_lock s" "tasklist_lock (set_tsk_need_resched t s) = tasklist_lock s"
  "tasklist_lock (clear_tsk_need_resched t s) = tasklist_lock s" "tasklist_lock (snd (wake_up_process t s)) = tasklist_lock s"
  by (simp_all add: spin_unlock_def write_unlock_def cpufreq_driver_target_def cpufreq_cpu_get_def cpufreq_cpu_put_def
      driver_target_def set_policy_limits_def set_pmclock_freq_def set_task_state_def set_tsk_need_resched_def
      clear_tsk_need_resched_def wake_up_process_simps split: option.split)

lemma tl_each: "(\<And>u s. tasklist_lock (f u s) = tasklist_lock s) \<Longrightarrow> tasklist_lock (each_thread t f s) = tasklist_lock s"
proof -
  assume f: "\<And>u s. tasklist_lock (f u s) = tasklist_lock s"
  have "tasklist_lock (fold f us s) = tasklist_lock s" for us by (induction us arbitrary: s) (simp_all add: f)
  then show ?thesis by (simp only: each_thread_def)
qed

text \<open>\<open>kept s s'\<close>: a step from a state without locks has released what it took and set no flag.\<close>

definition kept :: "kst \<Rightarrow> kst \<Rightarrow> bool" where
  "kept s s' \<longleftrightarrow> (tasklist_lock s = Unlocked \<longrightarrow> tasklist_lock s' = Unlocked) \<and> gv s' = gv s"

lemma kept_refl [simp]: "kept s s"
  by (simp add: kept_def)

lemma kept_trans: "kept s s1 \<Longrightarrow> kept s1 s2 \<Longrightarrow> kept s s2"
  by (simp add: kept_def)

lemma kept_section: "spin_lock l s = Some s1 \<Longrightarrow> kept s1 s2 \<Longrightarrow> kept s (spin_unlock l s2)"
  by (simp add: kept_def gv_section spin_lock_tl)

lemma kept_log: "log_data_point t v s = Some (r, s') \<Longrightarrow> kept s s'"
  by (auto simp: kept_def log_data_point_def log_store_def send_sig_info_def Let_def bind_eq_Some_conv write_lock_def
      split: if_splits logbuf.splits)

lemma kept_upd: "(\<And>p. task_spin_lock (f p) = task_spin_lock p) \<Longrightarrow> kept s (upd_task t f s)"
  by (simp add: kept_def)

subsection \<open>The scheduler and the timers\<close>

lemma kept_account:
  "account_prev t s = Some s' \<Longrightarrow> kept s s'" "log_prev t s = Some s' \<Longrightarrow> kept s s'" "stamp_next t s = Some s' \<Longrightarrow> kept s s'"
  "log_next t s = Some s' \<Longrightarrow> kept s s'"
  unfolding account_prev_def log_prev_def stamp_next_def log_next_def Let_def
  by (auto simp: bind_eq_Some_conv split: if_splits intro!: kept_section kept_upd kept_trans [OF kept_upd kept_upd] dest!: kept_log)

lemma kept_force_sleep: "kept s (force_sleep l t s)"
  by (simp add: kept_def force_sleep_def tl_each)

lemma kept_budget_next: "budget_next t flag s = Some (flag', s') \<Longrightarrow> kept s s'"
  unfolding budget_next_def Let_def
  by (auto simp: bind_eq_Some_conv split: if_splits intro!: kept_section kept_upd kept_force_sleep)

lemma kept_pass: "sched_pass sig pre next flag s = Some (flag', s') \<Longrightarrow> kept s s'"
proof -
  assume a: "sched_pass sig pre next flag s = Some (flag', s')"
  define s0 where "s0 = clear_tsk_need_resched (current s) (deactivate_prev sig pre (current s) s)"
  have s0: "kept s s0" by (simp add: s0_def kept_def deactivate_prev_def)
  show ?thesis
  proof (cases "current s = next")
    case True
    then show ?thesis using a s0 by (simp add: sched_pass_def Let_def s0_def)
  next
    case False
    with a obtain s1 s2 s3 s4 s5 f4 where s: "account_prev (current s) s0 = Some s1" "log_prev (current s) s1 = Some s2"
      "stamp_next next s2 = Some s3" "budget_next next flag s3 = Some (f4, s4)" "log_next next s4 = Some s5"
      "s' = context_switch (current s) next s5"
      by (auto simp: sched_pass_def Let_def bind_eq_Some_conv simp flip: s0_def)
    have "kept s5 s'" by (simp add: s(6) kept_def context_switch_def Let_def)
    with s0 kept_account(1) [OF s(1)] kept_account(2) [OF s(2)] kept_account(3) [OF s(3)] kept_budget_next [OF s(4)]
      kept_account(4) [OF s(5)] show ?thesis by (blast intro: kept_trans)
  qed
qed

lemma kept_rest: "schedule_rest nexts S = Some S' \<Longrightarrow> kept (ks S) (ks S')"
proof (induction nexts S rule: schedule_rest.induct)
  case (1 nexts S)
  show ?case
  proof (cases "frames S (current (ks S))")
    case None
    then show ?thesis using 1(2) by (simp add: schedule_rest.simps)
  next
    case (Some fn)
    obtain flag nx where fn: "fn = (flag, nx)" by (cases fn)
    show ?thesis
    proof (cases "need_resched (tasks (ks S) (current (ks S))) \<and> nexts \<noteq> []")
      case True
      then obtain sig pre n rest where n: "nexts = (sig, pre, n) # rest" by (cases nexts) auto
      with 1(2) Some fn True obtain S1 where S1: "schedule_pass sig pre n flag S = Some S1" "schedule_rest rest S1 = Some S'"
        by (subst (asm) schedule_rest.simps) (auto simp: bind_eq_Some_conv)
      have "kept (ks S) (ks S1)" using S1(1) by (auto simp: schedule_pass_def Let_def bind_eq_Some_conv dest!: kept_pass)
      moreover have "kept (ks S1) (ks S')" using 1(1) [OF refl Some fn [symmetric] _ n refl refl S1] True by simp
      ultimately show ?thesis by (rule kept_trans)
    next
      case False
      then show ?thesis using 1(2) Some fn
        by (subst (asm) schedule_rest.simps)
          (auto simp: sched_tail_def kept_def Let_def gv_pmclock(3) split: if_splits list.splits)
    qed
  qed
qed

lemma kept_schedule: "schedule sig pre next nexts S = Some S' \<Longrightarrow> kept (ks S) (ks S')"
  by (auto simp: schedule_def schedule_pass_def Let_def bind_eq_Some_conv dest!: kept_pass kept_rest intro: kept_trans)

lemma kept_callback: "timer_function res k t fn s = Some (r, s') \<Longrightarrow> kept s s'"
proof -
  have w: "kept s (each_thread t (\<lambda>u s. snd (wake_up_process u s)) s)" for s by (simp add: kept_def tl_each)
  have "kept s (each_thread t (\<lambda>u s. if state (tasks s t) \<noteq> TASK_UNINTERRUPTIBLE
      then set_tsk_need_resched t (set_task_state t TASK_UNINTERRUPTIBLE s) else s) s)" for s
    unfolding kept_def by (subst gv_each) (simp_all add: tl_each)
  then show "timer_function res k t fn s = Some (r, s') \<Longrightarrow> kept s s'"
    unfolding timer_function_def budget_timer_callback_def period_timer_callback_def Let_def
    by (auto simp: bind_eq_Some_conv split: if_splits intro!: kept_section kept_trans [OF _ w] kept_upd kept_trans [OF kept_upd kept_upd])
qed

lemma kept_set_timer: "kept s (set_timer k t h s)"
  by (simp add: kept_def set_timer_def split: timer_kind.split)

lemma kept_timer: "run_hrtimer res k t s = Some s' \<Longrightarrow> kept s s'"
proof -
  assume "run_hrtimer res k t s = Some s'"
  then obtain h0 r s1 s2 h where s1: "timer_function res k t (h_fn (timer_of k (tasks (set_timer k t h0 s) t))) (set_timer k t h0 s) = Some (r, s1)"
    and s2: "s2 = s1 \<or> s2 = set_timer k t (enqueue_hrtimer (timer_of k (tasks s1 t))) s1" and s': "s' = set_timer k t h s2"
    unfolding run_hrtimer_def Let_def by (force simp: bind_eq_Some_conv split: if_splits)
  have "kept s1 s2" using s2 kept_set_timer by auto
  then show ?thesis
    unfolding s' by (rule kept_trans [OF kept_trans [OF kept_trans [OF kept_set_timer kept_callback [OF s1]]] kept_set_timer])
qed

subsection \<open>The system calls\<close>

lemma kept_gv: "gv s' = gv s \<Longrightarrow> tasklist_lock s' = Unlocked \<Longrightarrow> kept s s'"
  by (simp add: kept_def)

lemma kept_policy [simp]: "gv (policy_taken s) = gv s"
  by simp

lemma kept_setProcessBudget: "sys_setProcessBudget nr bud per s = Some (r, s') \<Longrightarrow> kept s s'"
proof -
  assume a: "sys_setProcessBudget nr bud per s = Some (r, s')"
  then obtain pol where pol: "cpufreq s 0 = Some pol"
    by (auto simp: sys_setProcessBudget_def cpufreq_cpu_get_def split: option.splits)
  show ?thesis
  proof (cases "tasklist_lock s = Unlocked")
    case True
    then show ?thesis using a unfolding sys_setProcessBudget_def cpufreq_cpu_get_Some [OF pol]
      by (auto simp: Let_def bind_eq_Some_conv kept_def split: if_splits option.splits dest!: gv_give_budget)
  next
    case False
    then show ?thesis using a unfolding sys_setProcessBudget_def cpufreq_cpu_get_Some [OF pol]
      by (auto simp: Let_def kept_def split: if_splits)
  qed
qed

lemma kept_cancelBudget: "sys_cancelBudget nr s = Some (r, s') \<Longrightarrow> kept s s'"
proof -
  assume a: "sys_cancelBudget nr s = Some (r, s')"
  then obtain pol where pol: "cpufreq s 0 = Some pol"
    by (auto simp: sys_cancelBudget_def cpufreq_cpu_get_def split: option.splits)
  show ?thesis
  proof (cases "0 < nr \<and> tasklist_lock s = Unlocked \<and> find_task_by_vpid nr (policy_taken s\<lparr>tasklist_lock := Writer\<rparr>) \<noteq> None")
    case True
    let ?s = "policy_taken s\<lparr>tasklist_lock := Writer\<rparr>"
    obtain t where t: "find_task_by_vpid nr ?s = Some t" using True by blast
    have l: "write_lock (policy_taken s) = Some ?s" "\<not> nr \<le> 0" using True by simp_all
    define s3' where "s3' s3 = each_thread t (\<lambda>u s. snd (wake_up_process u s)) s3" for s3
    from a t l obtain s1 s2 s3 s4 f where s: "cancel_timers t (make_normal t ?s) = Some s1" "del_periodic_task t s1 = Some s2"
      "(if is_bin_packing_set s2 = 1 then del_task_cpu t (nat (cpu_no (tasks s2 t))) s2 \<bind>
          (\<lambda>s. set_rt_priorities_per_cpu (nat (cpu_no (tasks s t))) s \<bind> (\<lambda>(r, s). Some s)) else Some s2) = Some s3"
      "(if is_bin_packing_set (s3' s3) = 0 then set_rt_priorities (s3' s3) \<bind> (\<lambda>(r, s). readjust pol s) else Some (0, s3' s3)) = Some (f, s4)"
      and s': "s' = (if power_scheme (write_unlock s4) = 1 \<and> is_bin_packing_set (write_unlock s4) = 0
        then cpufreq_driver_target 0 f (write_unlock s4) else write_unlock s4)"
      unfolding sys_cancelBudget_def cpufreq_cpu_get_Some [OF pol] Let_def prod.case s3'_def
      by (auto simp del: lock_simps simp: bind_eq_Some_conv)
    have "gv s4 = gv s3" using s(4) by (auto simp: s3'_def bind_eq_Some_conv split: if_splits dest!: gv_priorities(1) gv_readjust)
    moreover have "gv ?s = gv s" by simp
    ultimately have "gv s4 = gv s" using gv_leave_cpu [OF s(3)] gv_lists(2) [OF s(2)] gv_budget(4) [OF s(1)] by simp
    then show ?thesis by (simp add: kept_def s')
  next
    case False
    then show ?thesis using a unfolding sys_cancelBudget_def cpufreq_cpu_get_Some [OF pol]
      by (auto simp: Let_def kept_def write_lock_def split: if_splits)
  qed
qed

lemma kept_read: "read_lock s = Some s1 \<Longrightarrow> kept s (read_unlock s1)"
  by (auto simp: kept_def gv_lock read_lock_def read_unlock_def split: rwlock.splits)

lemma kept_info:
  "sys_get_process_count s = Some (n, s') \<Longrightarrow> kept s s'" "sys_getProcessComputeTime nr s = Some (r, s') \<Longrightarrow> kept s s'"
  "sys_get_current_processes km null acc cp len s = Some (r, b, s') \<Longrightarrow> kept s s'"
  by (auto simp: sys_get_process_count_def sys_getProcessComputeTime_def sys_get_current_processes_def Let_def
      bind_eq_Some_conv split: if_splits dest!: kept_read)

lemma kept_getLog: "sys_getLog w nr s = Some (r, b, s') \<Longrightarrow> kept s s'"
proof -
  assume a: "sys_getLog w nr s = Some (r, b, s')"
  show ?thesis
  proof (cases "nr \<le> 0")
    case False
    with a obtain s1 where s1: "read_lock s = Some s1" by (auto simp: sys_getLog_def bind_eq_Some_conv)
    have "kept (read_unlock s1) s'" using a False s1
      by (auto simp: sys_getLog_def bind_eq_Some_conv Let_def split: option.splits if_splits intro: kept_upd)
    then show ?thesis by (rule kept_trans [OF kept_read [OF s1]])
  qed (use a in \<open>simp add: sys_getLog_def\<close>)
qed

lemma kept_setLogging: "sys_setLogging av lp up n s = Some (r, s') \<Longrightarrow> kept s s'"
proof -
  assume a: "sys_setLogging av lp up n s = Some (r, s')"
  have e: "kept s (each_thread t (\<lambda>u. upd_task u (\<lambda>p. p\<lparr>is_log_enabled := 1\<rparr>)) s)" for t s
    by (simp add: kept_def tl_each)
  show ?thesis
  proof (cases "lp \<le> 0 \<or> up \<le> 0")
    case False
    with a obtain s1 where s1: "read_lock s = Some s1" by (auto simp: sys_setLogging_def bind_eq_Some_conv)
    have "kept (read_unlock s1) s'" using a False s1
      by (auto simp: sys_setLogging_def bind_eq_Some_conv Let_def split: option.splits if_splits
          intro!: kept_section kept_trans [OF _ e] intro: kept_trans [OF kept_upd kept_upd])
    then show ?thesis by (rule kept_trans [OF kept_read [OF s1]])
  next
    case True
    then have "s' = s" using a by (cases "lp \<le> 0") (simp_all add: sys_setLogging_def)
    then show ?thesis by simp
  qed
qed

lemma kept_wait_prepare:
  "wait_prepare nr s = Some (Inl (e, s')) \<Longrightarrow> kept s s'" "wait_prepare nr s = Some (Inr s') \<Longrightarrow> kept s s'"
proof -
  have l: "kept s (write_unlock s1)" if "write_lock s = Some s1" for s1 using that by (simp add: kept_def gv_lock)
  have w: "kept s (each_thread t (\<lambda>u s. set_tsk_need_resched u (set_task_state u TASK_UNINTERRUPTIBLE s))
      (write_unlock (upd_task t (\<lambda>p. p\<lparr>compute_time := budget_time p\<rparr>) s1)))" if "write_lock s = Some s1" for s1 t
    using that by (simp add: kept_def tl_each gv_lock)
  show "wait_prepare nr s = Some (Inl (e, s')) \<Longrightarrow> kept s s'"
    by (cases "write_lock s") (auto simp: wait_prepare_def Let_def l split: if_splits option.splits)
  show "wait_prepare nr s = Some (Inr s') \<Longrightarrow> kept s s'"
    by (cases "write_lock s") (auto simp: wait_prepare_def Let_def w split: if_splits option.splits)
qed

lemma kept_wait: "sys_waitUntilNextPeriod nr sig nx nexts S = Some (r, S') \<Longrightarrow> kept (ks S) (ks S')"
proof -
  assume a: "sys_waitUntilNextPeriod nr sig nx nexts S = Some (r, S')"
  then obtain v where v: "wait_prepare nr (ks S) = Some v" by (auto simp: sys_waitUntilNextPeriod_def bind_eq_Some_conv)
  show ?thesis
  proof (cases v)
    case (Inl x)
    then show ?thesis using a v by (cases x) (auto simp: sys_waitUntilNextPeriod_def dest: kept_wait_prepare(1))
  next
    case (Inr s)
    then have "schedule sig False nx nexts (S\<lparr>ks := s\<rparr>) = Some S'" using a v
      by (auto simp: sys_waitUntilNextPeriod_def bind_eq_Some_conv)
    from kept_trans [OF kept_wait_prepare(2) kept_schedule [OF this]] v Inr show ?thesis by simp
  qed
qed

lemma gv_start_all: "foldo (start_cpu_global m) is (f, s) = Some (f', s') \<Longrightarrow> gv s' = gv s"
  "foldo start_cpu is s = Some s' \<Longrightarrow> gv s' = gv s" "foldo (set_cpu_freq x) is s = Some s' \<Longrightarrow> gv s' = gv s"
proof -
  show "foldo start_cpu is s = Some s' \<Longrightarrow> gv s' = gv s" "foldo (set_cpu_freq x) is s = Some s' \<Longrightarrow> gv s' = gv s"
    by (rule gv_foldo1 [rotated], assumption, erule gv_start)+
  show "foldo (start_cpu_global m) is (f, s) = Some (f', s') \<Longrightarrow> gv s' = gv s"
    using gv_foldo [of "start_cpu_global m" "is" "(f, s)" "(f', s')"] gv_start(1) by fastforce
qed

lemma tl_cpu_freq: "foldo (set_cpu_freq x) is s = Some s' \<Longrightarrow> tasklist_lock s' = tasklist_lock s"
proof (induction "is" arbitrary: s)
  case (Cons i "is")
  then obtain s1 where s1: "set_cpu_freq x i s = Some s1" "foldo (set_cpu_freq x) is s1 = Some s'" by (auto simp: bind_eq_Some_conv)
  have "tasklist_lock s1 = tasklist_lock s" using s1(1)
    by (auto simp: set_cpu_freq_def cpufreq_cpu_get_def split: option.splits)
  with Cons.IH [OF s1(2)] show ?case by simp
qed simp

lemma kept_startScheduling: "sys_startScheduling s = Some (r, s') \<Longrightarrow> kept s s'"
proof -
  assume a: "sys_startScheduling s = Some (r, s')"
  then obtain pol where pol: "cpufreq s 0 = Some pol"
    by (auto simp: sys_startScheduling_def cpufreq_cpu_get_def split: option.splits)
  from a obtain s0 where s0: "write_lock (policy_taken s) = Some s0"
    unfolding sys_startScheduling_def cpufreq_cpu_get_Some [OF pol] by (auto simp: bind_eq_Some_conv)
  have g: "gv s0 = gv s" using gv_lock(1) [OF s0] by simp
  show ?thesis
  proof (cases "global_sysclock s0 = 1")
    case True
    with a s0 obtain f s1 f2 s2 where s: "foldo (start_cpu_global (cpuinfo_max_freq pol div 1000)) [0..<4] (0, s0) = Some (f, s1)"
      "apply_sysclock f (cpuinfo_max_freq pol) s1 = Some (f2, s2)" "foldo (set_cpu_freq f2) [0..<4] (write_unlock s2) = Some s'"
      unfolding sys_startScheduling_def cpufreq_cpu_get_Some [OF pol] by (auto simp: bind_eq_Some_conv)
    show ?thesis using g gv_start_all(1) [OF s(1)] gv_apply_sysclock(1) [OF s(2)] gv_start_all(3) [OF s(3)] tl_cpu_freq [OF s(3)]
      by (simp add: kept_def)
  next
    case False
    with a s0 obtain s1 where s: "foldo start_cpu [0..<4] s0 = Some s1" "s' = write_unlock s1"
      unfolding sys_startScheduling_def cpufreq_cpu_get_Some [OF pol] by (auto simp: bind_eq_Some_conv)
    show ?thesis using g gv_start_all(2) [OF s(1)] by (simp add: kept_def s(2))
  qed
qed

lemma kept_exit: "do_exit_rt s = Some s' \<Longrightarrow> kept s s'"
proof -
  assume a: "do_exit_rt s = Some s'"
  then obtain pol where pol: "cpufreq s 0 = Some pol"
    by (auto simp: do_exit_rt_def cpufreq_cpu_get_def split: option.splits)
  show ?thesis
    using a unfolding do_exit_rt_def cpufreq_cpu_get_Some [OF pol]
    by (auto simp: Let_def bind_eq_Some_conv kept_def split: if_splits dest!: gv_exit gv_lock(1))
qed

lemma kept_stopScheduling:
  "sys_stopScheduling s = Some (r, s') \<Longrightarrow> kept (s\<lparr>is_bin_packing_set := 1\<rparr>) s'"
  by (auto simp: sys_stopScheduling_def Let_def bind_eq_Some_conv kept_def gv_fold split: if_splits
      dest!: gv_clear gv_lock(1))

end
