(* ===== verification/System.thy ===== *)
theory System
  imports Frames
begin

text \<open>
  The extensions as a state machine: every system call, the scheduler, the timers, fork and exit as
  steps from the state after boot, in any order, and what holds in every state that can be reached.
\<close>

subsection \<open>The kernel as a state machine\<close>

text \<open>
  One step is one operation that returns: a system call, a pass of the scheduler, a timer that
  fires, a fork or an exit, or what the rest of the kernel does to the state: time passes, tasks are
  woken, put to sleep or given another policy, and processes come, go and change their threads.
\<close>

inductive kernel_step :: "sst \<Rightarrow> sst \<Rightarrow> bool" where
  setProcessBudget: "sys_setProcessBudget nr bud per (ks S) = Some (r, s) \<Longrightarrow> kernel_step S (S\<lparr>ks := s\<rparr>)"
| cancelBudget: "sys_cancelBudget nr (ks S) = Some (r, s) \<Longrightarrow> kernel_step S (S\<lparr>ks := s\<rparr>)"
| waitUntilNextPeriod: "sys_waitUntilNextPeriod nr sig nx nexts S = Some (r, S') \<Longrightarrow> kernel_step S S'"
| startScheduling: "sys_startScheduling (ks S) = Some (r, s) \<Longrightarrow> kernel_step S (S\<lparr>ks := s\<rparr>)"
| stopScheduling: "sys_stopScheduling (ks S) = Some (r, s) \<Longrightarrow> kernel_step S (S\<lparr>ks := s\<rparr>)"
| setPMScheme: "sys_setPMScheme v (ks S) = (r, s) \<Longrightarrow> kernel_step S (S\<lparr>ks := s\<rparr>)"
| setGlobalSysClock: "sys_setGlobalSysClock (ks S) = (r, s) \<Longrightarrow> kernel_step S (S\<lparr>ks := s\<rparr>)"
| setBinPacking: "sys_setBinPacking v (ks S) = Some (r, s) \<Longrightarrow> kernel_step S (S\<lparr>ks := s\<rparr>)"
| cancelBinPacking: "sys_cancelBinPacking (ks S) = (r, s) \<Longrightarrow> kernel_step S (S\<lparr>ks := s\<rparr>)"
| setLogging: "sys_setLogging avail log_pid usr_pid n (ks S) = Some (r, s) \<Longrightarrow> kernel_step S (S\<lparr>ks := s\<rparr>)"
| getLog: "sys_getLog writable nr (ks S) = Some (r, out, s) \<Longrightarrow> kernel_step S (S\<lparr>ks := s\<rparr>)"
| get_process_count: "sys_get_process_count (ks S) = Some (r, s) \<Longrightarrow> kernel_step S (S\<lparr>ks := s\<rparr>)"
| getProcessComputeTime: "sys_getProcessComputeTime nr (ks S) = Some (r, s) \<Longrightarrow> kernel_step S (S\<lparr>ks := s\<rparr>)"
| get_current_processes:
    "sys_get_current_processes kmalloc nul acc copied len (ks S) = Some (r, msg, s) \<Longrightarrow> kernel_step S (S\<lparr>ks := s\<rparr>)"
| schedule: "schedule sig pre nx nexts S = Some S' \<Longrightarrow> kernel_step S S'"
| timer: "run_hrtimer res k t (ks S) = Some s \<Longrightarrow> kernel_step S (S\<lparr>ks := s\<rparr>)"
| fork: "kernel_step S (S\<lparr>ks := sched_fork new (dup_task_struct orig new (ks S)), frames := (frames S)(new := None)\<rparr>)"
| do_exit: "do_exit_rt (ks S) = Some s \<Longrightarrow> kernel_step S (S\<lparr>ks := s\<rparr>)"
| clock: "kernel_step S (S\<lparr>ks := (ks S)\<lparr>mono_clock := now, raw_clock := raw\<rparr>\<rparr>)"
| wake: "kernel_step S (S\<lparr>ks := snd (wake_up_process t (ks S))\<rparr>)"
| sleep: "kernel_step S (S\<lparr>ks := set_task_state t v (ks S)\<rparr>)"
| setscheduler: "kernel_step S (S\<lparr>ks := snd (sched_setscheduler_nocheck t pol pr (ks S))\<rparr>)"
| processes: "kernel_step S (S\<lparr>ks := (upd_task t (\<lambda>p. p\<lparr>pid := nr, tgid := tg, group_leader := l, comm := name\<rparr>) (ks S))
    \<lparr>pid_task := pids, thread_group := thrs, process_list := procs\<rparr>\<rparr>)"

inductive_cases kernel_stepE: "kernel_step S S'"

definition boot_state :: sst where
  "boot_state = \<lparr>ks = boot, frames = (\<lambda>_. None)\<rparr>"

inductive reachable :: "sst \<Rightarrow> bool" where
  start: "reachable boot_state"
| step: "reachable S \<Longrightarrow> kernel_step S S' \<Longrightarrow> reachable S'"

subsection \<open>Every step keeps the locks free and the flags in range\<close>

definition unlocked :: "kst \<Rightarrow> bool" where
  "unlocked s \<longleftrightarrow> tasklist_lock s = Unlocked \<and> (\<forall>t. \<not> task_spin_lock (tasks s t))"

definition flags_ok :: "kst \<Rightarrow> bool" where
  "flags_ok s \<longleftrightarrow> power_scheme s \<in> {0, 1, 2} \<and> is_bin_packing_set s \<in> {0, 1} \<and> global_sysclock s \<in> {0, 1} \<and>
     bin_packing_scheme s \<in> {- 1..4}"

lemma kept_unlocked: "kept s s' \<Longrightarrow> unlocked s \<Longrightarrow> unlocked s'"
  using gvD(1) [of s' s] by (simp add: kept_def unlocked_def)

lemma kept_flags: "kept s s' \<Longrightarrow> flags_ok s \<Longrightarrow> flags_ok s'"
  using gvD(2-5) [of s' s] by (simp add: kept_def flags_ok_def)

text \<open>Most operations keep both; the others are those that set a flag, and the fork.\<close>

lemma set_flags:
  assumes "unlocked s" "flags_ok s"
  shows "sys_setPMScheme v s = (r, s') \<Longrightarrow> unlocked s' \<and> flags_ok s'"
    "sys_setGlobalSysClock s = (r, s') \<Longrightarrow> unlocked s' \<and> flags_ok s'"
    "sys_cancelBinPacking s = (r, s') \<Longrightarrow> unlocked s' \<and> flags_ok s'"
  using assms
  by (auto simp: unlocked_def flags_ok_def sys_setPMScheme_def sys_setGlobalSysClock_def sys_cancelBinPacking_def
      split: if_splits)

lemma kept_setBinPacking:
  assumes "sys_setBinPacking v s = Some (r, s')"
  shows "s' = s \<or> v \<in> {0..4} \<and> kept (s\<lparr>bin_packing_scheme := v, power_scheme := 0\<rparr>) s'"
proof (cases "v < 0 \<or> 4 < v")
  case True
  then show ?thesis using assms by (simp add: sys_setBinPacking_def)
next
  case False
  let ?s = "s\<lparr>bin_packing_scheme := v, power_scheme := 0\<rparr>"
  from assms False obtain q s1 where s1: "bin_packing v ?s = Some (q, s1)" "s' = s1 \<or> clear_cpu_lists s1 = Some s'"
    by (auto simp: sys_setBinPacking_def Let_def bind_eq_Some_conv split: if_splits)
  have "gvt s' = gvt ?s" using gvt_bin_packing [OF s1(1)] s1(2) by (auto dest!: gvt_clear)
  then show ?thesis using False by (simp add: kept_def gvt_iff)
qed

lemma set_modes:
  assumes "unlocked s" "flags_ok s"
  shows "sys_setBinPacking v s = Some (r, s') \<Longrightarrow> unlocked s' \<and> flags_ok s'"
    "sys_stopScheduling s = Some (r, s') \<Longrightarrow> unlocked s' \<and> flags_ok s'"
proof -
  show "unlocked s' \<and> flags_ok s'" if a: "sys_setBinPacking v s = Some (r, s')"
  proof (cases "s' = s")
    case False
    let ?s = "s\<lparr>bin_packing_scheme := v, power_scheme := 0\<rparr>"
    have k: "v \<in> {0..4}" "kept ?s s'" using kept_setBinPacking [OF a] False by simp_all
    have "unlocked ?s" "flags_ok ?s" using assms k(1) by (simp_all add: unlocked_def flags_ok_def)
    then show ?thesis using kept_unlocked [OF k(2)] kept_flags [OF k(2)] by blast
  qed (use assms in simp)
  show "unlocked s' \<and> flags_ok s'" if a: "sys_stopScheduling s = Some (r, s')"
  proof -
    let ?s = "s\<lparr>is_bin_packing_set := 1\<rparr>"
    have "unlocked ?s" "flags_ok ?s" using assms by (simp_all add: unlocked_def flags_ok_def)
    then show ?thesis using kept_unlocked [OF kept_stopScheduling [OF a]] kept_flags [OF kept_stopScheduling [OF a]] by blast
  qed
qed

lemma fork_ok: "unlocked s \<Longrightarrow> flags_ok s \<Longrightarrow>
    unlocked (sched_fork new (dup_task_struct orig new s)) \<and> flags_ok (sched_fork new (dup_task_struct orig new s))"
  by (simp add: unlocked_def flags_ok_def sched_fork_def sched_fork_init_def dup_task_struct_def Let_def)

lemmas kept_calls = kept_setProcessBudget kept_cancelBudget kept_wait kept_startScheduling kept_setLogging kept_getLog
  kept_info kept_schedule kept_timer kept_exit

lemma kept_env:
  "kept s (s\<lparr>mono_clock := now, raw_clock := raw\<rparr>)" "kept s (snd (wake_up_process t s))" "kept s (set_task_state t v s)"
  "kept s (snd (sched_setscheduler_nocheck t pol pr s))"
  "kept s ((upd_task t (\<lambda>p. p\<lparr>pid := nr, tgid := tg, group_leader := l, comm := name\<rparr>) s)
     \<lparr>pid_task := pids, thread_group := thrs, process_list := procs\<rparr>)"
proof -
  show "kept s (s\<lparr>mono_clock := now, raw_clock := raw\<rparr>)" "kept s (snd (wake_up_process t s))" "kept s (set_task_state t v s)"
    by (simp_all add: kept_def)
  have "tasklist_lock (snd (sched_setscheduler_nocheck t pol pr s)) = tasklist_lock s"
    using calm_same(1) [OF calm_setscheduler [of s t pol pr]] by (metis kst.select_convs(6) kst.surjective kst.update_convs(1))
  then show "kept s (snd (sched_setscheduler_nocheck t pol pr s))" by (simp add: kept_def)
  show "kept s ((upd_task t (\<lambda>p. p\<lparr>pid := nr, tgid := tg, group_leader := l, comm := name\<rparr>) s)
     \<lparr>pid_task := pids, thread_group := thrs, process_list := procs\<rparr>)" by (simp add: kept_def)
qed

lemma kernel_step_kinds:
  "kernel_step S S' \<Longrightarrow> kept (ks S) (ks S') \<or>
     (\<exists>v r. sys_setPMScheme v (ks S) = (r, ks S')) \<or> (\<exists>r. sys_setGlobalSysClock (ks S) = (r, ks S')) \<or>
     (\<exists>r. sys_cancelBinPacking (ks S) = (r, ks S')) \<or> (\<exists>v r. sys_setBinPacking v (ks S) = Some (r, ks S')) \<or>
     (\<exists>r. sys_stopScheduling (ks S) = Some (r, ks S')) \<or>
     (\<exists>orig new. ks S' = sched_fork new (dup_task_struct orig new (ks S)))"
  by (induction rule: kernel_step.induct) (simp_all add: kept_calls kept_env, blast+)

lemma kernel_step_ok:
  assumes "kernel_step S S'" "unlocked (ks S) \<and> flags_ok (ks S)"
  shows "unlocked (ks S') \<and> flags_ok (ks S')"
  using kernel_step_kinds [OF assms(1)] assms(2) kept_unlocked kept_flags set_flags set_modes fork_ok by metis

lemma reachable_ok: "reachable S \<Longrightarrow> unlocked (ks S) \<and> flags_ok (ks S)"
proof (induction rule: reachable.induct)
  case start
  show ?case by (simp add: boot_state_def boot_def unlocked_def flags_ok_def plain_task_def)
next
  case (step S S')
  from kernel_step_ok [OF step.hyps(2) step.IH] show ?case .
qed

subsection \<open>Properties of reachable states\<close>



text \<open>
  C19. The flags are of the types their \<open>switch\<close> statements and tests expect: in every reachable state
  \<open>power_scheme\<close> is one of the three schemes, \<open>is_bin_packing_set\<close> and \<open>global_sysclock\<close> are 0 or 1, and
  \<open>bin_packing_scheme\<close> is one of the five schemes or the initial \<open>-1\<close>.
\<close>

theorem reachable_flags:
  assumes "reachable S"
  shows "power_scheme (ks S) \<in> {0, 1, 2} \<and> is_bin_packing_set (ks S) \<in> {0, 1} \<and> global_sysclock (ks S) \<in> {0, 1} \<and>
    bin_packing_scheme (ks S) \<in> {- 1..4}"
  using reachable_ok [OF assms] by (simp add: flags_ok_def)

theorem reachable_flags_witness:
  "\<exists>S. reachable S \<and> power_scheme (ks S) = 2 \<and> bin_packing_scheme (ks S) \<in> {- 1..4}"
proof -
  let ?S = "boot_state\<lparr>ks := boot\<lparr>power_scheme := 2\<rparr>\<rparr>"
  have "sys_setPMScheme 2 (ks boot_state) = (0, boot\<lparr>power_scheme := 2\<rparr>)" by (simp add: sys_setPMScheme_def boot_state_def)
  then have "reachable ?S" by (rule reachable.step [OF reachable.start kernel_step.setPMScheme])
  from reachable_flags [OF this] this show ?thesis by (intro exI [of _ ?S]) simp
qed

end
