(* ===== verification/Spec2Isabelle.thy ===== *)
theory Spec2Isabelle
  imports Packing TegraEdp Waiting System
begin

text \<open>
  \<^bold>\<open>The real-time extensions of an Android kernel for Tegra 3.\<close> Paths are relative to
  \<open>src/tegra/\<close>.

  \<^bold>\<open>The program.\<close> The kernel lets a process reserve a budget of processor time in every period.
  A reservation is made with \<open>setProcessBudget\<close>, which runs an admission test, puts the process on
  a list ordered by period, and starts a period timer. \<open>__schedule\<close> charges the time a task has
  run and arms a budget timer for what is left; the budget timer puts the task to sleep, the
  period timer wakes it with a fresh budget. A power scheme (\<open>setPMScheme\<close>) lowers the clock: SysClock
  computes one frequency for the whole set and stretches the budgets, PM-Clock one frequency per
  task, set at every switch. With \<open>setBinPacking\<close> the tasks are first distributed over the four
  processors, and \<open>startScheduling\<close> starts each processor's list. \<open>setLogging\<close> and \<open>getLog\<close> record
  when a task ran; a few calls report on processes or set the display brightness. All frequency
  requests go through \<open>cpufreq\<close> to the Tegra driver, which applies the thermal, electrical and user
  limits.

  \<^bold>\<open>Conventions.\<close> The target is 32-bit ARM: \<open>long\<close> has 32 bits, \<open>ktime_t\<close> is the scalar form.
  Integers keep their width as words (\<open>u32\<close>, \<open>s32\<close>, \<open>u64\<close>, \<open>s64\<close>), so that wrap-around is that of
  the code; counters that cannot reach their bound are \<open>int\<close> or \<open>nat\<close>. The kernel state is the record
  \<open>kst\<close>, a task the record \<open>task_struct\<close>; the links of the intrusive lists
  are a heap of their own. An operation that may fault, deadlock on a lock that is held, or loop for
  ever returns an option and \<open>None\<close> stands for all three. Error codes are values.

  \<^bold>\<open>Theories and the code they model.\<close>

  \<^item> \<open>Prelude\<close>: word types, C division, failing folds, and the locale \<open>mono_demand\<close> on the iteration of
    a monotone function, which \<open>Admission\<close> interprets on the demand of the response-time test.
  \<^item> \<open>KTime\<close>: \<open>__div64_32\<close> (\<open>lib/div64.c\<close>), \<open>do_div\<close>, \<open>struct timespec\<close> and \<open>ktime_t\<close> (\<open>include/linux/time.h\<close>,
    \<open>include/linux/ktime.h\<close>, \<open>kernel/time.c\<close>), \<open>convert_to_usecs\<close>. The shift-and-subtract division divides,
    the arithmetic is exact on normalised values, the conversions invert each other.
  \<^item> \<open>KList\<close>: \<open>include/linux/list.h\<close> on a heap of nodes. A ring abstracts to a sequence; the locale
    \<open>task_ring\<close> carries insertion, deletion and traversal, interpreted for the periodic list and for the
    list of each processor.
  \<^item> \<open>HrTimer\<close>: arming, cancelling and forwarding of a timer (\<open>kernel/hrtimer.c\<close>), each timer with its
    expiry, function and state bits.
  \<^item> \<open>Kernel\<close>: task structure, kernel state, locks, wake-up, change of policy, affinity, \<open>cpufreq\<close> policies
    and references, fork (\<open>kernel/sched.c\<close>, \<open>kernel/fork.c\<close>, \<open>kernel/pid.c\<close>, \<open>drivers/cpufreq/cpufreq.c\<close>),
    and the state after boot.
  \<^item> \<open>TaskLists\<close>: \<open>add_periodic_task\<close>, \<open>del_periodic_task\<close>, \<open>add_task_to_cpu\<close>, \<open>del_task_cpu\<close>,
    \<open>clear_cpu_lists\<close>; the invariants \<open>periodic_inv\<close> and \<open>cpu_inv\<close> (counted, sorted, intact ring) and
    that every operation keeps them; the locale \<open>task_list\<close> extends \<open>task_ring\<close>.
  \<^item> \<open>FixedPriority\<close>: an abstract preemptive fixed-priority processor, advanced one unit of time after
    the other, and the exact characterisation of meeting the first deadline. It models no code; it is what
    the admission test is compared with.
  \<^item> \<open>Admission\<close>: \<open>rt_test\<close>, \<open>__check_admission\<close>, \<open>check_admission\<close>, \<open>check_admission_per_cpu\<close>. The loop ends,
    and its answer is that of \<open>FixedPriority\<close>.
  \<^item> \<open>Bubble\<close>, \<open>BinPacking\<close>, \<open>Packing\<close>: \<open>bubble_sort\<close>, \<open>sort_periodic_tasklist\<close>, \<open>get_util_bin\<close>,
    \<open>bin_packing\<close> with its five schemes, \<open>sys_setBinPacking\<close>, \<open>sys_cancelBinPacking\<close>. The locale
    \<open>bubble_order\<close> is interpreted on both sorts, \<open>packing_scheme\<close> on first, best and worst fit; a
    successful packing is a partition into schedulable sets.
  \<^item> \<open>SysClock\<close>, \<open>PMClock\<close>: the two power schemes. The factor SysClock computes keeps the deadline, its loops
    end, and PM-Clock is characterised on sets where the last task needs the most.
  \<^item> \<open>Priorities\<close>: \<open>set_rt_priorities\<close> and its processor version.
  \<^item> \<open>Logging\<close>: \<open>log_data_point\<close>, \<open>sys_setLogging\<close>, \<open>sys_getLog\<close>.
  \<^item> \<open>Accounting\<close>: the two timer callbacks, \<open>__run_hrtimer\<close>, and \<open>__schedule\<close>. \<open>sched_pass\<close> is the part up to
    the context switch; \<open>schedule\<close> adds the frames, since the code after \<open>context_switch\<close> runs with the
    local variables of the pass that once suspended the resumed task.
  \<^item> \<open>Syscalls\<close>: \<open>setProcessBudget\<close>, \<open>cancelBudget\<close>, \<open>waitUntilNextPeriod\<close>, \<open>startScheduling\<close>,
    \<open>stopScheduling\<close>, \<open>setPMScheme\<close>, \<open>setGlobalSysClock\<close>, and what \<open>do_exit\<close> (\<open>kernel/exit.c\<close>) does for a task
    with a budget. \<open>Budgets\<close>, \<open>Restart\<close> and \<open>Cancel\<close> hold their properties: a refused budget changes
    nothing, a granted one is granted exactly to a schedulable set, \<open>apply_sysclock\<close> restarts all tasks at
    a critical instant, a cancelled one is gone. They rest on frame relations: \<open>calm\<close> (the view of the
    budgets, timers and logs is unchanged) and \<open>acts\<close> (it is changed by a given update of given tasks).
  \<^item> \<open>Isolation\<close>: sequences of passes, timer interrupts and wake-ups on a processor. A process with a budget gets
    at most one budget of processor time per period and is charged exactly what it gets. \<open>Waiting\<close>: after
    \<open>waitUntilNextPeriod\<close> it gets none until its period ends.
  \<^item> \<open>Frames\<close>, \<open>System\<close>: what every operation keeps of locks and flags, and the extensions as a state machine
    from boot (\<open>kernel_step\<close>, \<open>reachable\<close>): no reachable state holds a lock, and the flags keep their ranges.
  \<^item> \<open>FreqTable\<close>, \<open>TegraCpu\<close>, \<open>TegraEdp\<close>: \<open>drivers/cpufreq/freq_table.c\<close>, \<open>arch/arm/mach-tegra/cpu-tegra.c\<close> and
    \<open>tegra3_throttle.c\<close>: which entry of the table serves a request, and that the clock obeys the limits, after
    one request and over every sequence of requests, temperatures, alarms, hot-plug events, suspends and
    resumes (\<open>driver_step\<close>).
  \<^item> \<open>ProcInfo\<close>: \<open>get_process_count\<close>, \<open>get_current_processes\<close>, \<open>getProcessComputeTime\<close>, \<open>mycall\<close>,
    \<open>setDisplayBrightness\<close>.
  \<^item> This theory: the frequency SysClock stretches the budgets for is the one the Tegra driver sets.

  \<^bold>\<open>Parameters.\<close> Code outside the sources or below the modelled level is an argument: the choice of the next
  task and whether a signal is pending (\<open>schedule\<close>), the memory \<open>vmalloc\<close> and \<open>kmalloc\<close> return and
  whether a copy to user space succeeds, and the clock driver (\<open>exact_clocks\<close> names the clocks that take
  every speed they are set to).

  \<^bold>\<open>Bounds.\<close> No fuel is used. Loops that may not end (\<open>rt_loop\<close>, \<open>busy_loop\<close>, \<open>alpha_loop\<close>, \<open>pm_busy\<close>,
  traversals of a list) are partial functions into option, and the theorems that they return are proved
  as such. The theorems on the schedulability tests assume \<open>task_set_ok\<close> (positive budgets and periods
  whose demand does not wrap), those on timers a clock below \<open>2 ^ 61\<close> nanoseconds (73 years) and
  normalised times; the wrap of \<open>convert_to_usecs\<close> beyond 2147 seconds is stated.

  \<^bold>\<open>Not modelled.\<close> Run queues, load balancing and the choice of the next task; the red-black tree of the
  timers and the event device; governors, notifiers and sysfs of \<open>cpufreq\<close>; the hot-plug governor
  (\<open>cpu-tegra3.c\<close>), the platform data behind the electrical limits and the voltage tables; the rest of \<open>do_exit\<close> and of fork;
  the hardware side of the backlight. They are large parts of a stock kernel the extensions only call, and
  what is used of them is modelled as above. Concurrency is modelled as the interleaving of whole
  operations: a lock that is held when an operation wants it means that the operation never returns.
  The rest of the kernel tree is not touched by the extensions.
\<close>

section \<open>Properties that span components\<close>

lemma get_table_frequency_entry:
  assumes "\<exists>x \<in> set (freq_table s). x \<noteq> CPUFREQ_ENTRY_INVALID \<and> freq \<le> x"
  shows "get_table_frequency freq s \<in> set (freq_table s)" "freq \<le> get_table_frequency freq s"
proof -
  from assms obtain f where "find (\<lambda>f. f \<noteq> CPUFREQ_ENTRY_INVALID \<and> freq \<le> f) (freq_table s) = Some f"
    by (cases "find (\<lambda>f. f \<noteq> CPUFREQ_ENTRY_INVALID \<and> freq \<le> f) (freq_table s)") (auto simp: find_None_iff)
  then have e: "get_table_frequency freq s = f" "f \<in> set (freq_table s) \<and> freq \<le> f"
    by (simp_all add: get_table_frequency_def) (auto simp: find_Some_iff in_set_conv_nth)
  then show "get_table_frequency freq s \<in> set (freq_table s)" "freq \<le> get_table_frequency freq s" by simp_all
qed



end
